(* ===== verification/Dinner_Prelude.thy ===== *)
theory Dinner_Prelude
  imports Main "HOL-Library.Word" "HOL-Library.Sublist" "HOL-Library.Char_ord"
    "HOL-Library.List_Lexorder"
begin

text \<open>
  Shared vocabulary of the development: the ways a C++ call of the server can fail to return
  (\<open>exn\<close>), the operations of \<open>std::string\<close> and the number conversions the sources use
  (\<open>find\<close>, \<open>substr\<close>, \<open>stoi\<close>, \<open>stoull\<close>, \<open>to_string\<close>, \<open>operator>>\<close>), and the lemmas and
  named collections every component shares. Characters are bytes, as in \<open>std::string\<close>.
\<close>

subsection \<open>Failures\<close>

text \<open>
  The exceptions the sources can raise, and the behaviours the C++ standard leaves undefined
  (a null dereference, \<open>back()\<close> of an empty string, \<open>top()\<close> of an empty stack) as values of
  their own, so that no model function hides them.
\<close>

datatype exn =
    Out_of_range
  | Invalid_argument
  | Runtime_error string
  | Filesystem_error
  | Length_error
  | Deadlock
  | Undefined_behaviour string

type_synonym 'a result = "exn + 'a"

named_theorems frame_simps \<open>fields an operation leaves alone\<close>
named_theorems str_simps \<open>facts about the string operations\<close>

definition bind_result :: "'a result \<Rightarrow> ('a \<Rightarrow> 'b result) \<Rightarrow> 'b result" where
  "bind_result r f = (case r of Inl e \<Rightarrow> Inl e | Inr x \<Rightarrow> f x)"

lemma bind_result_simps [simp]:
  "bind_result (Inl e) f = Inl e"
  "bind_result (Inr x) f = f x"
  by (simp_all add: bind_result_def)

lemma bind_result_Inr:
  "bind_result r f = Inr y \<longleftrightarrow> (\<exists>x. r = Inr x \<and> f x = Inr y)"
  by (cases r) simp_all

subsection \<open>Finding and cutting: std::string\<close>

text \<open>\<open>s.find(pat, pos)\<close>; \<open>std::string::npos\<close> is \<open>None\<close>.\<close>

fun find_sub :: "string \<Rightarrow> string \<Rightarrow> nat option" where
  "find_sub pat [] = (if pat = [] then Some 0 else None)"
| "find_sub pat (c # s) =
     (if prefix pat (c # s) then Some 0 else map_option Suc (find_sub pat s))"

definition find_from :: "string \<Rightarrow> string \<Rightarrow> nat \<Rightarrow> nat option" where
  "find_from s pat pos =
     (if pos \<le> length s then map_option ((+) pos) (find_sub pat (drop pos s)) else None)"

text \<open>\<open>s.substr(pos, n)\<close> raises \<open>out_of_range\<close> past the end; \<open>substr1\<close> is the one-argument form.\<close>

definition substr :: "string \<Rightarrow> nat \<Rightarrow> nat \<Rightarrow> string result" where
  "substr s pos n = (if pos > length s then Inl Out_of_range else Inr (take n (drop pos s)))"

definition substr1 :: "string \<Rightarrow> nat \<Rightarrow> string result" where
  "substr1 s pos = (if pos > length s then Inl Out_of_range else Inr (drop pos s))"

text \<open>\<open>v.at(i)\<close> on a vector.\<close>

definition vec_at :: "'a list \<Rightarrow> nat \<Rightarrow> 'a result" where
  "vec_at xs i = (if i < length xs then Inr (xs ! i) else Inl Out_of_range)"

lemma find_sub_0 [simp]: "find_sub pat s = Some 0 \<longleftrightarrow> prefix pat s"
  by (cases s) (auto split: option.splits)

lemma find_sub_Some_prefix: "find_sub pat s = Some i \<Longrightarrow> prefix pat (drop i s) \<and> i \<le> length s"
  by (induction s arbitrary: i) (auto split: if_splits)

lemma find_sub_None: "find_sub pat s = None \<longleftrightarrow> \<not> sublist pat s"
  by (induction s) (auto simp: sublist_Cons_right)

lemma find_sub_first: "find_sub pat s = Some i \<Longrightarrow> j < i \<Longrightarrow> \<not> prefix pat (drop j s)"
proof (induction s arbitrary: i j)
  case Nil
  then show ?case by (auto split: if_splits)
next
  case (Cons c s)
  then show ?case by (cases j) (auto split: if_splits)
qed

lemma find_from_0 [simp]: "find_from s pat 0 = Some 0 \<longleftrightarrow> prefix pat s"
  by (auto simp: find_from_def)

lemma find_from_prefix: "prefix pat s \<Longrightarrow> find_from s pat 0 = Some 0"
  by simp

lemma find_from_bounds:
  "find_from s pat pos = Some i \<Longrightarrow> pos \<le> i \<and> i + length pat \<le> length s"
  by (auto simp: find_from_def split: if_splits dest!: find_sub_Some_prefix prefix_length_le)

lemma vec_at_0 [simp]: "vec_at (x # xs) 0 = Inr x"
  by (simp add: vec_at_def)

lemma vec_at_Suc [simp]: "vec_at (x # xs) (Suc i) = vec_at xs i"
  by (simp add: vec_at_def)

lemma vec_at_Nil [simp]: "vec_at [] i = Inl Out_of_range"
  by (simp add: vec_at_def)

subsection \<open>Characters\<close>

definition byte :: "char \<Rightarrow> nat" where
  "byte c = of_char c"

definition is_space :: "char \<Rightarrow> bool" where
  "is_space c \<longleftrightarrow> byte c = 32 \<or> (9 \<le> byte c \<and> byte c \<le> 13)"

definition is_digit :: "char \<Rightarrow> bool" where
  "is_digit c \<longleftrightarrow> 48 \<le> byte c \<and> byte c \<le> 57"

definition digit_value :: "char \<Rightarrow> nat" where
  "digit_value c = byte c - 48"

definition digit_char :: "nat \<Rightarrow> char" where
  "digit_char d = char_of (48 + d)"

lemma byte_digit_char: "d < 10 \<Longrightarrow> byte (digit_char d) = 48 + d"
  by (simp add: byte_def digit_char_def)

lemma is_digit_digit_char [simp]: "d < 10 \<Longrightarrow> is_digit (digit_char d)"
  by (simp add: is_digit_def byte_digit_char)

lemma digit_value_digit_char [simp]: "d < 10 \<Longrightarrow> digit_value (digit_char d) = d"
  by (simp add: digit_value_def byte_digit_char)

lemma digit_not_space: "is_digit c \<Longrightarrow> \<not> is_space c"
  by (simp add: is_digit_def is_space_def)

subsection \<open>Number to text: std::to_string\<close>

fun digits_str :: "nat \<Rightarrow> string" where
  "digits_str n =
     (if n < 10 then [digit_char n] else digits_str (n div 10) @ [digit_char (n mod 10)])"

declare digits_str.simps [simp del]

definition to_string_u64 :: "64 word \<Rightarrow> string" where
  "to_string_u64 w = digits_str (unat w)"

definition to_string_int :: "int \<Rightarrow> string" where
  "to_string_int i = (if i < 0 then CHR ''-'' # digits_str (nat (- i)) else digits_str (nat i))"

lemma digits_str_digits: "list_all is_digit (digits_str n)"
  by (induction n rule: digits_str.induct) (subst digits_str.simps, simp)

lemma digits_str_nonempty [simp]: "digits_str n \<noteq> []"
  by (subst digits_str.simps) simp

lemma digits_str_digitD: "c \<in> set (digits_str n) \<Longrightarrow> is_digit c"
  using digits_str_digits [of n] by (simp add: list_all_iff)

subsection \<open>Text to number: std::stoi, std::stoull\<close>

text \<open>
  \<open>strtol\<close> and \<open>strtoull\<close> in base 10: leading white space, one optional sign, then the longest
  run of digits; the rest of the text is ignored. No digit is \<open>invalid_argument\<close>, a value that
  does not fit is \<open>out_of_range\<close>. \<open>strtoull\<close> negates modulo \<open>2 ^ 64\<close> after a minus sign.
\<close>

definition digits_value :: "string \<Rightarrow> nat" where
  "digits_value ds = foldl (\<lambda>a c. 10 * a + digit_value c) 0 ds"

definition strip_sign :: "string \<Rightarrow> bool \<times> string" where
  "strip_sign s =
     (case s of
        [] \<Rightarrow> (False, [])
      | c # r \<Rightarrow> if c = CHR ''-'' then (True, r) else if c = CHR ''+'' then (False, r) else (False, s))"

definition scan_number :: "string \<Rightarrow> (bool \<times> nat) result" where
  "scan_number s =
     (case strip_sign (dropWhile is_space s) of
        (neg, r) \<Rightarrow>
          (let ds = takeWhile is_digit r
           in if ds = [] then Inl Invalid_argument else Inr (neg, digits_value ds)))"

definition stoull :: "string \<Rightarrow> 64 word result" where
  "stoull s =
     (case scan_number s of
        Inl e \<Rightarrow> Inl e
      | Inr (neg, v) \<Rightarrow>
          if v < 2 ^ 64 then Inr (if neg then - of_nat v else of_nat v) else Inl Out_of_range)"

definition stoi :: "string \<Rightarrow> int result" where
  "stoi s =
     (case scan_number s of
        Inl e \<Rightarrow> Inl e
      | Inr (neg, v) \<Rightarrow>
          (let i = (if neg then - int v else int v)
           in if - (2 ^ 31) \<le> i \<and> i < 2 ^ 31 then Inr i else Inl Out_of_range))"

text \<open>The bound is compared in \<open>int\<close> when \<open>stoull\<close> is evaluated: a \<open>nat\<close> is unary there.\<close>

lemma stoull_code [code]:
  "stoull s =
     (case scan_number s of
        Inl e \<Rightarrow> Inl e
      | Inr (neg, v) \<Rightarrow>
          if int v < 18446744073709551616 then Inr (if neg then - of_nat v else of_nat v) else Inl Out_of_range)"
  unfolding stoull_def by (auto split: sum.split)

lemma digits_value_snoc [simp]: "digits_value (ds @ [c]) = 10 * digits_value ds + digit_value c"
  by (simp add: digits_value_def)

lemma digits_value_digits_str [simp]: "digits_value (digits_str n) = n"
proof (induction n rule: digits_str.induct)
  case (1 n)
  show ?case
  proof (cases "n < 10")
    case True
    then show ?thesis by (subst digits_str.simps) (simp add: digits_value_def)
  next
    case False
    with "1.IH" show ?thesis by (subst digits_str.simps) simp
  qed
qed

text \<open>
  What a text says as a number, without the function that reads it: white space, a sign or none,
  the digits (as many as there are), and anything else.
\<close>

definition says_int :: "string \<Rightarrow> int \<Rightarrow> bool" where
  "says_int t v \<longleftrightarrow>
     (\<exists>ws sign ds rest. t = ws @ sign @ ds @ rest \<and> list_all is_space ws \<and> sign \<in> {[], ''+'', ''-''} \<and>
        ds \<noteq> [] \<and> list_all is_digit ds \<and> (rest = [] \<or> \<not> is_digit (hd rest)) \<and>
        v = (if sign = ''-'' then - 1 else 1) * int (digits_value ds))"

lemma sign_not_space: "\<not> is_space (CHR ''+'')" "\<not> is_space (CHR ''-'')" "\<not> is_digit (CHR ''+'')" "\<not> is_digit (CHR ''-'')"
  by (simp_all add: is_space_def is_digit_def byte_def)

lemma takeWhile_stop: "list_all P xs \<Longrightarrow> ys = [] \<or> \<not> P (hd ys) \<Longrightarrow> takeWhile P (xs @ ys) = xs"
  by (cases ys) (simp_all add: list_all_iff takeWhile_tail)

lemma dropWhile_stop: "list_all P xs \<Longrightarrow> ys = [] \<or> \<not> P (hd ys) \<Longrightarrow> dropWhile P (xs @ ys) = ys"
  by (cases ys) (simp_all add: list_all_iff)

lemma says_int_iff:
  "says_int t v \<longleftrightarrow> (\<exists>neg n. scan_number t = Inr (neg, n) \<and> v = (if neg then - int n else int n))"
proof
  assume "says_int t v"
  then obtain ws sign ds rest where t: "t = ws @ sign @ ds @ rest" "list_all is_space ws" "sign \<in> {[], ''+'', ''-''}"
      "ds \<noteq> []" "list_all is_digit ds" "rest = [] \<or> \<not> is_digit (hd rest)"
    and v: "v = (if sign = ''-'' then - 1 else 1) * int (digits_value ds)"
    unfolding says_int_def by blast
  obtain d ds' where d: "ds = d # ds'" "is_digit d" using t(4,5) by (cases ds) auto
  then have "\<not> is_space d" "d \<noteq> CHR ''+''" "d \<noteq> CHR ''-''" using digit_not_space sign_not_space by auto
  with t(3) have "\<not> is_space (hd (sign @ ds @ rest))" and s: "strip_sign (sign @ ds @ rest) = (sign = ''-'', ds @ rest)"
    using sign_not_space by (auto simp: d(1) strip_sign_def)
  then have "dropWhile is_space t = sign @ ds @ rest" using dropWhile_stop [OF t(2)] unfolding t(1) by blast
  moreover have "takeWhile is_digit (ds @ rest) = ds" by (rule takeWhile_stop [OF t(5,6)])
  ultimately have "scan_number t = Inr (sign = ''-'', digits_value ds)"
    using t(4) by (simp add: scan_number_def s Let_def)
  with v show "\<exists>neg n. scan_number t = Inr (neg, n) \<and> v = (if neg then - int n else int n)" by auto
next
  assume "\<exists>neg n. scan_number t = Inr (neg, n) \<and> v = (if neg then - int n else int n)"
  then obtain neg n where sc: "scan_number t = Inr (neg, n)" and v: "v = (if neg then - int n else int n)" by blast
  obtain r where r: "strip_sign (dropWhile is_space t) = (neg, r)" "takeWhile is_digit r \<noteq> []" "n = digits_value (takeWhile is_digit r)"
    using sc by (auto simp: scan_number_def Let_def split: prod.splits if_splits)
  obtain sign where sign: "dropWhile is_space t = sign @ r" "sign \<in> {[], ''+'', ''-''}" "neg \<longleftrightarrow> sign = ''-''"
    using r(1) by (auto simp: strip_sign_def split: list.splits if_splits)
  have "t = takeWhile is_space t @ sign @ takeWhile is_digit r @ dropWhile is_digit r"
    using sign(1) takeWhile_dropWhile_id [of is_space t] by simp
  moreover have "list_all is_space (takeWhile is_space t)" "list_all is_digit (takeWhile is_digit r)"
    by (auto simp: list_all_iff dest: set_takeWhileD)
  moreover have "dropWhile is_digit r = [] \<or> \<not> is_digit (hd (dropWhile is_digit r))"
    using hd_dropWhile by blast
  ultimately show "says_int t v"
    unfolding says_int_def using sign(2,3) r(2,3) v by (intro exI conjI) (assumption | simp)+
qed

lemma stoi_Inr_iff: "stoi t = Inr v \<longleftrightarrow> says_int t v \<and> - (2 ^ 31) \<le> v \<and> v < 2 ^ 31"
  unfolding says_int_iff stoi_def Let_def by (auto split: sum.split if_splits)

lemma strip_sign_digits: "ds \<noteq> [] \<Longrightarrow> list_all is_digit ds \<Longrightarrow> strip_sign ds = (False, ds)"
  by (cases ds) (auto simp: strip_sign_def is_digit_def byte_def)

lemma takeWhile_digits: "list_all is_digit ds \<Longrightarrow> takeWhile is_digit ds = ds"
  by (simp add: list_all_iff)

lemma dropWhile_space_digits: "list_all is_digit ds \<Longrightarrow> dropWhile is_space ds = ds"
  by (cases ds) (auto dest: digit_not_space)

lemma scan_number_digits:
  "ds \<noteq> [] \<Longrightarrow> list_all is_digit ds \<Longrightarrow> scan_number ds = Inr (False, digits_value ds)"
  by (simp add: scan_number_def dropWhile_space_digits strip_sign_digits takeWhile_digits Let_def)

lemma scan_number_digits_str [simp]: "scan_number (digits_str n) = Inr (False, n)"
  by (simp add: scan_number_digits digits_str_digits)

lemma stoull_digits_str: "n < 2 ^ 64 \<Longrightarrow> stoull (digits_str n) = Inr (of_nat n)"
  by (simp add: stoull_def)

lemma stoull_to_string [simp]: "stoull (to_string_u64 w) = Inr w"
proof -
  have "unat w < 2 ^ 64"
    using unsigned_less [of w, where 'a = nat] by simp
  then have "stoull (digits_str (unat w)) = Inr (of_nat (unat w))"
    by (rule stoull_digits_str)
  then show ?thesis by (simp add: to_string_u64_def)
qed

lemma stoull_not_UB: "stoull s \<noteq> Inl (Undefined_behaviour m)"
  by (auto simp: stoull_def scan_number_def Let_def split: sum.splits prod.splits if_splits)

lemma to_string_u64_inj [simp]: "to_string_u64 v = to_string_u64 w \<longleftrightarrow> v = w"
  by (metis stoull_to_string sum.inject(2))

lemma to_string_u64_nonempty [simp]: "to_string_u64 w \<noteq> []"
  by (simp add: to_string_u64_def)

lemma to_string_u64_digits: "c \<in> set (to_string_u64 w) \<Longrightarrow> is_digit c"
  by (simp add: to_string_u64_def digits_str_digitD)

lemma stoi_range: "stoi s = Inr i \<Longrightarrow> - (2 ^ 31) \<le> i \<and> i < 2 ^ 31"
  by (auto simp: stoi_def Let_def split: sum.splits prod.splits if_splits)

subsection \<open>Words of a text stream: operator>> on std::string\<close>

fun words_acc :: "string \<Rightarrow> string \<Rightarrow> string list" where
  "words_acc cur [] = (if cur = [] then [] else [cur])"
| "words_acc cur (c # s) =
     (if is_space c then (if cur = [] then words_acc [] s else cur # words_acc [] s)
      else words_acc (cur @ [c]) s)"

definition words_of :: "string \<Rightarrow> string list" where
  "words_of s = words_acc [] s"

definition no_space :: "string \<Rightarrow> bool" where
  "no_space s \<longleftrightarrow> (\<forall>c \<in> set s. \<not> is_space c)"

lemma words_acc_append: "no_space w \<Longrightarrow> words_acc cur (w @ s) = words_acc (cur @ w) s"
  by (induction w arbitrary: cur) (auto simp: no_space_def)

lemma words_of_space [simp]: "is_space c \<Longrightarrow> words_of (c # s) = words_of s"
  by (simp add: words_of_def)

lemma words_of_Nil [simp]: "words_of [] = []"
  by (simp add: words_of_def)

lemma words_of_word:
  "no_space w \<Longrightarrow> w \<noteq> [] \<Longrightarrow> is_space c \<Longrightarrow> words_of (w @ c # s) = w # words_of s"
  by (simp add: words_of_def words_acc_append)

lemma words_of_last_word: "no_space w \<Longrightarrow> w \<noteq> [] \<Longrightarrow> words_of w = [w]"
  using words_acc_append [of w "[]" "[]"] by (simp add: words_of_def)

lemma words_acc_append_space:
  "is_space c \<Longrightarrow> words_acc cur (s @ c # t) = words_acc cur s @ words_acc [] t"
  by (induction cur s rule: words_acc.induct) auto

lemma words_of_append_space: "is_space c \<Longrightarrow> words_of (s @ c # t) = words_of s @ words_of t"
  by (simp add: words_of_def words_acc_append_space)

lemma words_acc_no_space:
  "no_space cur \<Longrightarrow> \<forall>w \<in> set (words_acc cur s). no_space w \<and> w \<noteq> []"
proof (induction s arbitrary: cur)
  case (Cons c s)
  have snoc: "no_space (cur @ [c])" if "\<not> is_space c"
    using that Cons.prems by (simp add: no_space_def)
  have nil: "no_space []"
    by (simp add: no_space_def)
  show ?case
    using Cons.IH [OF snoc] Cons.IH [OF nil] Cons.prems by simp
qed simp

lemma words_of_no_space: "w \<in> set (words_of s) \<Longrightarrow> no_space w \<and> w \<noteq> []"
  using words_acc_no_space [of "[]" s] by (simp add: words_of_def no_space_def)

lemma words_of_lines:
  "\<forall>w \<in> set ws. no_space w \<and> w \<noteq> [] \<Longrightarrow> words_of (concat (map (\<lambda>w. w @ [CHR 0x0A]) ws)) = ws"
  by (induction ws) (auto simp: words_of_word is_space_def byte_def)

lemma no_space_digits_str: "no_space (digits_str n)"
  by (auto simp: no_space_def dest: digits_str_digitD digit_not_space)

lemma no_space_to_string_u64 [simp]: "no_space (to_string_u64 w)"
  by (simp add: to_string_u64_def no_space_digits_str)

lemma no_space_append [simp]: "no_space (s @ t) \<longleftrightarrow> no_space s \<and> no_space t"
  by (auto simp: no_space_def)

subsection \<open>Loops that an exception leaves\<close>

text \<open>
  A range-for over a vector whose body may throw: the state the body has reached stays, and
  the exception ends the loop.
\<close>

fun for_each :: "('a \<Rightarrow> 's \<Rightarrow> exn option \<times> 's) \<Rightarrow> 'a list \<Rightarrow> 's \<Rightarrow> exn option \<times> 's" where
  "for_each body [] s = (None, s)"
| "for_each body (x # xs) s =
     (case body x s of
        (None, s') \<Rightarrow> for_each body xs s'
      | (Some e, s') \<Rightarrow> (Some e, s'))"

lemma for_each_append:
  "for_each body (xs @ ys) s =
     (case for_each body xs s of
        (None, s') \<Rightarrow> for_each body ys s'
      | (Some e, s') \<Rightarrow> (Some e, s'))"
  by (induction xs arbitrary: s) (auto split: prod.splits option.splits)

lemma for_each_invariant:
  assumes "\<And>x s e s'. x \<in> set xs \<Longrightarrow> P s \<Longrightarrow> body x s = (e, s') \<Longrightarrow> P s'"
    and "P s" and "for_each body xs s = (e, s')"
  shows "P s'"
  using assms
proof (induction xs arbitrary: s)
  case (Cons x xs)
  obtain e1 s1 where b: "body x s = (e1, s1)" by (cases "body x s")
  then have "P s1" using Cons.prems(1) [of x s e1 s1] Cons.prems(2) by simp
  then have rest: "P s'" if "for_each body xs s1 = (e, s')"
    using that Cons.IH [of s1] Cons.prems(1) by (meson list.set_intros(2))
  show ?case
  proof (cases e1)
    case None
    with b Cons.prems(3) rest show ?thesis by simp
  next
    case (Some a)
    with b Cons.prems(3) \<open>P s1\<close> show ?thesis by simp
  qed
qed simp

subsection \<open>std::map\<close>

text \<open>
  A \<open>std::map\<close> is its list of pairs in the order it is iterated, which is the order of the
  keys; \<open>map_set m k v\<close> is \<open>m[k] = v\<close> and \<open>map_at m k\<close> is \<open>m[k]\<close> read, which makes an empty
  string for a missing key.
\<close>

type_synonym ('k, 'v) std_map = "('k \<times> 'v) list"

fun map_set :: "'k::linorder \<Rightarrow> 'v \<Rightarrow> ('k, 'v) std_map \<Rightarrow> ('k, 'v) std_map" where
  "map_set k v [] = [(k, v)]"
| "map_set k v ((k', v') # m) =
     (if k < k' then (k, v) # (k', v') # m
      else if k = k' then (k, v) # m
      else (k', v') # map_set k v m)"

definition map_at :: "('k, string) std_map \<Rightarrow> 'k \<Rightarrow> string" where
  "map_at m k = (case map_of m k of None \<Rightarrow> [] | Some v \<Rightarrow> v)"

definition map_ok :: "('k::linorder, 'v) std_map \<Rightarrow> bool" where
  "map_ok m \<longleftrightarrow> sorted_wrt (<) (map fst m)"

text \<open>The contract of an ordered map, and what follows for a map built entry by entry.\<close>

locale ordered_map =
  fixes mset :: "'k \<Rightarrow> 'v \<Rightarrow> 'm \<Rightarrow> 'm"
    and mget :: "'m \<Rightarrow> 'k \<Rightarrow> 'v option"
    and mkeys :: "'m \<Rightarrow> 'k list"
    and mok :: "'m \<Rightarrow> bool"
  assumes mok_set: "mok m \<Longrightarrow> mok (mset k v m)"
    and mget_set: "mok m \<Longrightarrow> mget (mset k v m) = (mget m)(k \<mapsto> v)"
    and mkeys_get: "mok m \<Longrightarrow> set (mkeys m) = dom (mget m)"
    and mkeys_distinct: "mok m \<Longrightarrow> distinct (mkeys m)"
begin

lemma mkeys_set: "mok m \<Longrightarrow> set (mkeys (mset k v m)) = insert k (set (mkeys m))"
  by (simp add: mkeys_get mok_set mget_set)

lemma mkeys_set_length:
  "mok m \<Longrightarrow> length (mkeys (mset k v m)) = (if k \<in> set (mkeys m) then 0 else 1) + length (mkeys m)"
  using distinct_card [OF mkeys_distinct [OF mok_set]] distinct_card [OF mkeys_distinct]
  by (simp add: mkeys_set card_insert_if)

lemma mok_sets: "mok m \<Longrightarrow> mok (fold (\<lambda>(k, v). mset k v) kvs m)"
  by (induction kvs arbitrary: m) (auto simp: mok_set)

lemma mget_sets: "mok m \<Longrightarrow> mget (fold (\<lambda>(k, v). mset k v) kvs m) = mget m ++ map_of (rev kvs)"
  by (induction kvs arbitrary: m) (auto simp: mok_set mget_set map_add_def fun_eq_iff split: option.splits)

end

lemma map_set_keys: "set (map fst (map_set k v m)) = insert k (set (map fst m))"
  by (induction k v m rule: map_set.induct) auto

lemma map_ok_set: "map_ok m \<Longrightarrow> map_ok (map_set k v m)"
proof (induction k v m rule: map_set.induct)
  case (2 k v k' v' m)
  then show ?case
    using map_set_keys [of k v m] by (auto simp: map_ok_def simp flip: set_map)
qed (simp add: map_ok_def)

lemma map_of_set: "map_ok m \<Longrightarrow> map_of (map_set k v m) = (map_of m)(k \<mapsto> v)"
proof (induction k v m rule: map_set.induct)
  case (2 k v k' v' m)
  then show ?case by (auto simp: map_ok_def fun_eq_iff)
qed (simp add: fun_eq_iff)

lemma map_ok_distinct: "map_ok m \<Longrightarrow> distinct (map fst m)"
  unfolding map_ok_def by (induction m) auto

lemma map_ok_Nil [simp]: "map_ok []"
  by (simp add: map_ok_def)

interpretation smap: ordered_map map_set map_of "map fst" map_ok
  by unfold_locales (simp_all add: map_ok_set map_of_set map_ok_distinct dom_map_of_conv_image_fst)

end
