(* ===== verification/Config_Parser.thy ===== *)
theory Config_Parser
  imports Dinner_Prelude
begin

text \<open>
  The Nginx configuration parser: \<open>config_parser.h\<close> and \<open>config_parser.cc\<close>. The lexer
  \<open>ParseToken\<close> reads an input stream character by character; \<open>Parse\<close> drives it with a
  stack of pointers into the configuration tree it builds. The tree under construction is an
  explicit heap of \<open>NginxConfig\<close> objects, addressed by allocation order, because the
  parser mutates it through the pointers on \<open>config_stack\<close>. Messages that the parser sends
  straight to Boost.Log are not modelled.
\<close>

subsection \<open>Data\<close>

text \<open>
  \<open>NginxConfig\<close> holds nothing but its \<open>statements_\<close>; \<open>child_block_\<close> is \<open>None\<close> when the
  \<open>unique_ptr\<close> is null.
\<close>

datatype nginx_statement =
  NginxConfigStatement (tokens: "string list") (child_block: "nginx_statement list option")

type_synonym nginx_config = "nginx_statement list"

datatype token_type =
    TOKEN_TYPE_START | TOKEN_TYPE_NORMAL | TOKEN_TYPE_START_BLOCK | TOKEN_TYPE_END_BLOCK
  | TOKEN_TYPE_COMMENT | TOKEN_TYPE_STATEMENT_END | TOKEN_TYPE_EOF | TOKEN_TYPE_ERROR

datatype token_state =
    TOKEN_STATE_INITIAL_WHITESPACE | TOKEN_STATE_SINGLE_QUOTE | TOKEN_STATE_DOUBLE_QUOTE
  | TOKEN_STATE_TOKEN_TYPE_COMMENT | TOKEN_STATE_TOKEN_TYPE_NORMAL

type_synonym token = "token_type \<times> string"

subsection \<open>Printing\<close>

definition newline :: char where
  "newline = CHR 0x0A"

fun indent :: "nat \<Rightarrow> string" where
  "indent 0 = []"
| "indent (Suc depth) = ''  '' @ indent depth"

fun join_tokens :: "string list \<Rightarrow> string" where
  "join_tokens [] = []"
| "join_tokens [t] = t"
| "join_tokens (t # ts) = t @ '' '' @ join_tokens ts"

fun statement_ToString :: "nat \<Rightarrow> nginx_statement \<Rightarrow> string" where
  "statement_ToString depth (NginxConfigStatement ts None) =
     indent depth @ join_tokens ts @ '';'' @ [newline]"
| "statement_ToString depth (NginxConfigStatement ts (Some c)) =
     indent depth @ join_tokens ts @ '' {'' @ [newline]
     @ concat (map (statement_ToString (Suc depth)) c)
     @ indent depth @ ''}'' @ [newline]"

definition config_ToString :: "nat \<Rightarrow> nginx_config \<Rightarrow> string" where
  "config_ToString depth c = concat (map (statement_ToString depth) c)"

fun TokenTypeAsString :: "token_type \<Rightarrow> string" where
  "TokenTypeAsString TOKEN_TYPE_START = ''TOKEN_TYPE_START''"
| "TokenTypeAsString TOKEN_TYPE_NORMAL = ''TOKEN_TYPE_NORMAL''"
| "TokenTypeAsString TOKEN_TYPE_START_BLOCK = ''TOKEN_TYPE_START_BLOCK''"
| "TokenTypeAsString TOKEN_TYPE_END_BLOCK = ''TOKEN_TYPE_END_BLOCK''"
| "TokenTypeAsString TOKEN_TYPE_COMMENT = ''TOKEN_TYPE_COMMENT''"
| "TokenTypeAsString TOKEN_TYPE_STATEMENT_END = ''TOKEN_TYPE_STATEMENT_END''"
| "TokenTypeAsString TOKEN_TYPE_EOF = ''TOKEN_TYPE_EOF''"
| "TokenTypeAsString TOKEN_TYPE_ERROR = ''TOKEN_TYPE_ERROR''"

subsection \<open>The lexer\<close>

text \<open>
  A \<open>std::istream\<close> as far as the lexer uses it: what is left to read and \<open>good()\<close>.
  A \<open>get\<close> at the end of the input clears \<open>good()\<close>.
\<close>

record istream =
  rest :: string
  good :: bool

definition open_stream :: "string \<Rightarrow> istream" where
  "open_stream s = \<lparr>rest = s, good = True\<rparr>"

text \<open>The test of the source, which names the tab twice and the carriage return never.\<close>

definition ends_normal :: "char \<Rightarrow> bool" where
  "ends_normal c \<longleftrightarrow>
     c = CHR '' '' \<or> c = CHR 0x09 \<or> c = newline \<or> c = CHR 0x09 \<or>
     c = CHR '';'' \<or> c = CHR ''{'' \<or> c = CHR ''}''"

fun token_loop :: "token_state \<Rightarrow> string \<Rightarrow> string \<Rightarrow> token_type \<times> string \<times> istream" where
  "token_loop state value [] =
     ((if state = TOKEN_STATE_SINGLE_QUOTE \<or> state = TOKEN_STATE_DOUBLE_QUOTE
       then TOKEN_TYPE_ERROR else TOKEN_TYPE_EOF), value, \<lparr>rest = [], good = False\<rparr>)"
| "token_loop TOKEN_STATE_INITIAL_WHITESPACE value (c # cs) =
     (if c = CHR ''{'' then (TOKEN_TYPE_START_BLOCK, [c], \<lparr>rest = cs, good = True\<rparr>)
      else if c = CHR ''}'' then (TOKEN_TYPE_END_BLOCK, [c], \<lparr>rest = cs, good = True\<rparr>)
      else if c = CHR ''#'' then token_loop TOKEN_STATE_TOKEN_TYPE_COMMENT [c] cs
      else if c = CHR 0x22 then token_loop TOKEN_STATE_DOUBLE_QUOTE [c] cs
      else if c = CHR 0x27 then token_loop TOKEN_STATE_SINGLE_QUOTE [c] cs
      else if c = CHR '';'' then (TOKEN_TYPE_STATEMENT_END, [c], \<lparr>rest = cs, good = True\<rparr>)
      else if c = CHR '' '' \<or> c = CHR 0x09 \<or> c = newline \<or> c = CHR 0x0D
        then token_loop TOKEN_STATE_INITIAL_WHITESPACE value cs
      else token_loop TOKEN_STATE_TOKEN_TYPE_NORMAL (value @ [c]) cs)"
| "token_loop TOKEN_STATE_SINGLE_QUOTE value (c # cs) =
     (if c = CHR 0x27 then (TOKEN_TYPE_NORMAL, value @ [c], \<lparr>rest = cs, good = True\<rparr>)
      else token_loop TOKEN_STATE_SINGLE_QUOTE (value @ [c]) cs)"
| "token_loop TOKEN_STATE_DOUBLE_QUOTE value (c # cs) =
     (if c = CHR 0x22 then (TOKEN_TYPE_NORMAL, value @ [c], \<lparr>rest = cs, good = True\<rparr>)
      else token_loop TOKEN_STATE_DOUBLE_QUOTE (value @ [c]) cs)"
| "token_loop TOKEN_STATE_TOKEN_TYPE_COMMENT value (c # cs) =
     (if c = newline \<or> c = CHR 0x0D then (TOKEN_TYPE_COMMENT, value, \<lparr>rest = cs, good = True\<rparr>)
      else token_loop TOKEN_STATE_TOKEN_TYPE_COMMENT (value @ [c]) cs)"
| "token_loop TOKEN_STATE_TOKEN_TYPE_NORMAL value (c # cs) =
     (if ends_normal c then (TOKEN_TYPE_NORMAL, value, \<lparr>rest = c # cs, good = True\<rparr>)
      else token_loop TOKEN_STATE_TOKEN_TYPE_NORMAL (value @ [c]) cs)"

definition ParseToken :: "istream \<Rightarrow> string \<Rightarrow> token_type \<times> string \<times> istream" where
  "ParseToken input value =
     (if good input then token_loop TOKEN_STATE_INITIAL_WHITESPACE value (rest input)
      else (TOKEN_TYPE_EOF, value, input))"

text \<open>Every token that is neither the end of the file nor an error consumes input.\<close>

lemma token_loop_le: "length (rest (snd (snd (token_loop st v s)))) \<le> length s"
  by (induction st v s rule: token_loop.induct) (simp_all add: le_SucI)

lemma token_loop_consumes:
  "st \<noteq> TOKEN_STATE_TOKEN_TYPE_NORMAL \<Longrightarrow>
   fst (token_loop st v s) \<notin> {TOKEN_TYPE_EOF, TOKEN_TYPE_ERROR} \<Longrightarrow>
   length (rest (snd (snd (token_loop st v s)))) < length s"
  using token_loop_le [of _ _ "tl s"]
  by (cases s; cases st) (simp_all add: le_imp_less_Suc split: if_splits)

lemma ParseToken_consumes:
  assumes "ParseToken s v = (ty, tok, i)" and "ty \<notin> {TOKEN_TYPE_EOF, TOKEN_TYPE_ERROR}"
  shows "length (rest i) < length (rest s)"
  using assms token_loop_consumes [of TOKEN_STATE_INITIAL_WHITESPACE v "rest s"]
  by (simp add: ParseToken_def split: if_splits)

subsection \<open>The heap of configurations\<close>

text \<open>
  A cell is one \<open>NginxConfigStatement\<close> whose \<open>child_block_\<close> is a pointer; an object of
  the heap is the \<open>statements_\<close> vector of one \<open>NginxConfig\<close>. Address 0 is the caller's
  \<open>config\<close>; \<open>new NginxConfig\<close> takes the next free address.
\<close>

record stmt_cell =
  cell_tokens :: "string list"
  cell_child :: "nat option"

type_synonym config_heap = "stmt_cell list list"

record parse_state =
  heap :: config_heap
  config_stack :: "nat list"
  last_token_type :: token_type

definition new_statement :: stmt_cell where
  "new_statement = \<lparr>cell_tokens = [], cell_child = None\<rparr>"

text \<open>\<open>statements_.back()\<close> updated in place; \<open>None\<close> when the vector is empty.\<close>

definition update_back :: "(stmt_cell \<Rightarrow> stmt_cell) \<Rightarrow> nat \<Rightarrow> config_heap \<Rightarrow> config_heap option" where
  "update_back f a h =
     (if h ! a = [] then None else Some (h[a := butlast (h ! a) @ [f (last (h ! a))]]))"

text \<open>The tree a pointer stands for; a child is always allocated after its parent.\<close>

lemmas [fundef_cong] = option.case_cong

function read_config :: "config_heap \<Rightarrow> nat \<Rightarrow> nginx_config" where
  "read_config h a =
     (if a < length h then
        map (\<lambda>c. NginxConfigStatement (cell_tokens c)
               (case cell_child c of
                  None \<Rightarrow> None
                | Some b \<Rightarrow> (if a < b then Some (read_config h b) else None))) (h ! a)
      else [])"
  by pat_completeness auto
termination
  by (relation "measure (\<lambda>(h, a). length h - a)") auto

declare read_config.simps [simp del]

subsection \<open>The parser\<close>

text \<open>
  What one turn of the \<open>while (true)\<close> loop does with a token that is no comment: it goes
  on, breaks out (and \<open>Parse\<close> returns false), returns true, or runs into \<open>top()\<close> or
  \<open>pop()\<close> of an empty stack or \<open>back()\<close> of an empty vector.
\<close>

datatype parse_result = Continue parse_state | Break parse_state | Success parse_state | Parse_UB

definition parse_step :: "parse_state \<Rightarrow> token \<Rightarrow> parse_result" where
  "parse_step st tk =
     (case tk of (token_type, token) \<Rightarrow>
      (let last_type = last_token_type st in
       if token_type = TOKEN_TYPE_START then Break st
       else if token_type = TOKEN_TYPE_NORMAL then
         (if last_type = TOKEN_TYPE_START \<or> last_type = TOKEN_TYPE_STATEMENT_END \<or>
             last_type = TOKEN_TYPE_START_BLOCK \<or> last_type = TOKEN_TYPE_END_BLOCK \<or>
             last_type = TOKEN_TYPE_NORMAL then
            (case config_stack st of
               [] \<Rightarrow> Parse_UB
             | cur # _ \<Rightarrow>
                 (let h = (if last_type \<noteq> TOKEN_TYPE_NORMAL
                           then (heap st)[cur := heap st ! cur @ [new_statement]] else heap st)
                  in case update_back (\<lambda>c. c\<lparr>cell_tokens := cell_tokens c @ [token]\<rparr>) cur h of
                       None \<Rightarrow> Parse_UB
                     | Some h' \<Rightarrow> Continue (st\<lparr>heap := h', last_token_type := token_type\<rparr>)))
          else Break st)
       else if token_type = TOKEN_TYPE_STATEMENT_END then
         (if last_type \<noteq> TOKEN_TYPE_NORMAL then Break st
          else Continue (st\<lparr>last_token_type := token_type\<rparr>))
       else if token_type = TOKEN_TYPE_START_BLOCK then
         (if last_type \<noteq> TOKEN_TYPE_NORMAL then Break st
          else case config_stack st of
             [] \<Rightarrow> Parse_UB
           | cur # _ \<Rightarrow>
               (let new_config = length (heap st);
                    h = heap st @ [[]]
                in case update_back (\<lambda>c. c\<lparr>cell_child := Some new_config\<rparr>) cur h of
                     None \<Rightarrow> Parse_UB
                   | Some h' \<Rightarrow>
                       Continue (st\<lparr>heap := h', config_stack := new_config # config_stack st,
                                    last_token_type := token_type\<rparr>)))
       else if token_type = TOKEN_TYPE_END_BLOCK then
         (if last_type \<noteq> TOKEN_TYPE_STATEMENT_END \<and> last_type \<noteq> TOKEN_TYPE_END_BLOCK \<and>
             last_type \<noteq> TOKEN_TYPE_START_BLOCK then Break st
          else case config_stack st of
             [] \<Rightarrow> Parse_UB
           | _ # r \<Rightarrow> Continue (st\<lparr>config_stack := r, last_token_type := token_type\<rparr>))
       else if token_type = TOKEN_TYPE_EOF then
         (if length (config_stack st) \<noteq> 1 \<or>
             (last_type \<noteq> TOKEN_TYPE_STATEMENT_END \<and> last_type \<noteq> TOKEN_TYPE_END_BLOCK)
          then Break st else Success st)
       else Break st))"

lemma parse_step_EOF: "parse_step st (TOKEN_TYPE_EOF, tok) \<noteq> Continue st'"
  by (simp add: parse_step_def Let_def)

text \<open>
  The loop itself. It has no bound of its own: it ends because each token consumes input and
  the end of the file never continues it.
\<close>

function parse_loop :: "istream \<Rightarrow> parse_state \<Rightarrow> parse_result" where
  "parse_loop input st =
     (case ParseToken input [] of (token_type, token, input') \<Rightarrow>
        if token_type = TOKEN_TYPE_ERROR then Break st
        else if token_type = TOKEN_TYPE_COMMENT then parse_loop input' st
        else (case parse_step st (token_type, token) of
                Continue st' \<Rightarrow> parse_loop input' st'
              | r \<Rightarrow> r))"
  by pat_completeness auto
termination
proof (relation "measure (\<lambda>(input, st). length (rest input))", goal_cases)
  case (2 input st x y tok input')
  then have "ParseToken input [] = (TOKEN_TYPE_COMMENT, tok, input')" by simp
  from ParseToken_consumes [OF this] show ?case by simp
next
  case (3 input st ty y tok input' st')
  then have "ParseToken input [] = (ty, tok, input')" by simp
  moreover have "ty \<notin> {TOKEN_TYPE_EOF, TOKEN_TYPE_ERROR}"
    using 3 parse_step_EOF by auto
  ultimately show ?case using ParseToken_consumes by simp
qed simp

declare parse_loop.simps [simp del]

definition init_parse_state :: parse_state where
  "init_parse_state =
     \<lparr>heap = [[]], config_stack = [0], last_token_type = TOKEN_TYPE_START\<rparr>"

text \<open>
  \<open>Parse\<close> on a stream and a fresh \<open>NginxConfig\<close>: the returned flag and what the caller's
  object then holds.
\<close>

definition Parse :: "istream \<Rightarrow> (bool \<times> nginx_config) result" where
  "Parse config_file =
     (case parse_loop config_file init_parse_state of
        Success st \<Rightarrow> Inr (True, read_config (heap st) 0)
      | Break st \<Rightarrow> Inr (False, read_config (heap st) 0)
      | Continue st \<Rightarrow> Inr (False, read_config (heap st) 0)
      | Parse_UB \<Rightarrow> Inl (Undefined_behaviour ''config_stack''))"

text \<open>\<open>Parse\<close> on a file name; \<open>None\<close> is a file that cannot be opened.\<close>

definition Parse_file :: "string option \<Rightarrow> (bool \<times> nginx_config) result" where
  "Parse_file contents =
     (case contents of None \<Rightarrow> Inr (False, []) | Some s \<Rightarrow> Parse (open_stream s))"

end
