(* ===== verification/Config_Parser_Refine.thy ===== *)
theory Config_Parser_Refine
  imports Config_Parser
begin

text \<open>
  The parser on its token stream. \<open>lex_all\<close> is the stream of tokens the lexer produces with
  the comments dropped, \<open>run_tokens\<close> the loop over such a stream. The parser with its heap and
  stack of pointers is then shown to refine \<open>zip_step\<close>, a parser on a list of open blocks
  that has no heap at all; the invariant \<open>heap_inv\<close> says why the pointers form a tree.
\<close>

subsection \<open>The token stream\<close>

function lex_all :: "istream \<Rightarrow> token list" where
  "lex_all input =
     (case ParseToken input [] of (ty, tok, input') \<Rightarrow>
        if ty = TOKEN_TYPE_EOF \<or> ty = TOKEN_TYPE_ERROR then [(ty, tok)]
        else if ty = TOKEN_TYPE_COMMENT then lex_all input'
        else (ty, tok) # lex_all input')"
  by pat_completeness auto
termination
proof (relation "measure (\<lambda>input. length (rest input))", goal_cases)
  case (2 input x tok y input')
  then show ?case using ParseToken_consumes [of input "[]"] by (cases "ParseToken input []") auto
next
  case (3 input x tok y input')
  then show ?case using ParseToken_consumes [of input "[]"] by (cases "ParseToken input []") auto
qed simp

declare lex_all.simps [simp del]

fun run_tokens :: "parse_state \<Rightarrow> token list \<Rightarrow> parse_result" where
  "run_tokens st [] = Continue st"
| "run_tokens st (t # ts) =
     (case parse_step st t of Continue st' \<Rightarrow> run_tokens st' ts | r \<Rightarrow> r)"

lemma parse_step_ERROR [simp]: "parse_step st (TOKEN_TYPE_ERROR, tok) = Break st"
  by (simp add: parse_step_def Let_def)

lemma parse_loop_run: "parse_loop input st = run_tokens st (lex_all input)"
proof (induction input st rule: parse_loop.induct)
  case (1 input st)
  obtain ty tok input' where tk: "ParseToken input [] = (ty, tok, input')"
    by (cases "ParseToken input []")
  consider "ty = TOKEN_TYPE_ERROR" | "ty = TOKEN_TYPE_COMMENT" | "ty = TOKEN_TYPE_EOF"
    | "ty \<notin> {TOKEN_TYPE_ERROR, TOKEN_TYPE_COMMENT, TOKEN_TYPE_EOF}" by blast
  then show ?case
  proof cases
    case 3
    with tk show ?thesis
      by (simp add: parse_loop.simps [of input] lex_all.simps [of input] parse_step_EOF
          split: parse_result.split)
  next
    case 4
    with tk 1(2) [OF tk [symmetric] refl] show ?thesis
      by (simp add: parse_loop.simps [of input] lex_all.simps [of input] split: parse_result.split)
  qed (use tk 1 in \<open>simp_all add: parse_loop.simps [of input] lex_all.simps [of input]\<close>)
qed

subsection \<open>The heap-free parser\<close>

text \<open>
  A list of open configurations, the innermost first; the last statement of every other one
  is the statement whose block is open.
\<close>

datatype zip_result = ZContinue "nginx_config list" token_type | ZBreak | ZSuccess nginx_config | ZUB

fun add_token :: "string \<Rightarrow> nginx_statement \<Rightarrow> nginx_statement" where
  "add_token t (NginxConfigStatement ts c) = NginxConfigStatement (ts @ [t]) c"

fun attach :: "nginx_config \<Rightarrow> nginx_statement \<Rightarrow> nginx_statement" where
  "attach b (NginxConfigStatement ts c) = NginxConfigStatement ts (Some b)"

fun zip_step :: "nginx_config list \<Rightarrow> token_type \<Rightarrow> token \<Rightarrow> zip_result" where
  "zip_step fs last_type (TOKEN_TYPE_NORMAL, t) =
     (if last_type \<in> {TOKEN_TYPE_COMMENT, TOKEN_TYPE_EOF, TOKEN_TYPE_ERROR} then ZBreak
      else case fs of
        [] \<Rightarrow> ZUB
      | f # r \<Rightarrow>
          if last_type = TOKEN_TYPE_NORMAL
          then (if f = [] then ZUB
                else ZContinue ((butlast f @ [add_token t (last f)]) # r) TOKEN_TYPE_NORMAL)
          else ZContinue ((f @ [NginxConfigStatement [t] None]) # r) TOKEN_TYPE_NORMAL)"
| "zip_step fs last_type (TOKEN_TYPE_STATEMENT_END, t) =
     (if last_type \<noteq> TOKEN_TYPE_NORMAL then ZBreak else ZContinue fs TOKEN_TYPE_STATEMENT_END)"
| "zip_step fs last_type (TOKEN_TYPE_START_BLOCK, t) =
     (if last_type \<noteq> TOKEN_TYPE_NORMAL then ZBreak
      else case fs of
        [] \<Rightarrow> ZUB
      | f # r \<Rightarrow> if f = [] then ZUB else ZContinue ([] # f # r) TOKEN_TYPE_START_BLOCK)"
| "zip_step fs last_type (TOKEN_TYPE_END_BLOCK, t) =
     (if last_type \<notin> {TOKEN_TYPE_STATEMENT_END, TOKEN_TYPE_END_BLOCK, TOKEN_TYPE_START_BLOCK}
      then ZBreak
      else case fs of
        [] \<Rightarrow> ZUB
      | [f] \<Rightarrow> ZContinue [] TOKEN_TYPE_END_BLOCK
      | f # g # r \<Rightarrow> ZContinue ((butlast g @ [attach f (last g)]) # r) TOKEN_TYPE_END_BLOCK)"
| "zip_step fs last_type (TOKEN_TYPE_EOF, t) =
     (case fs of
        [f] \<Rightarrow> if last_type \<in> {TOKEN_TYPE_STATEMENT_END, TOKEN_TYPE_END_BLOCK} then ZSuccess f else ZBreak
      | _ \<Rightarrow> ZBreak)"
| "zip_step fs last_type _ = ZBreak"

fun zip_run :: "nginx_config list \<Rightarrow> token_type \<Rightarrow> token list \<Rightarrow> zip_result" where
  "zip_run fs l [] = ZContinue fs l"
| "zip_run fs l (t # ts) =
     (case zip_step fs l t of ZContinue fs' l' \<Rightarrow> zip_run fs' l' ts | r \<Rightarrow> r)"

subsection \<open>The heap is a tree\<close>

definition edge :: "config_heap \<Rightarrow> nat \<Rightarrow> nat \<Rightarrow> nat \<Rightarrow> bool" where
  "edge h b i c \<longleftrightarrow> b < length h \<and> i < length (h ! b) \<and> cell_child (h ! b ! i) = Some c"

fun chain :: "config_heap \<Rightarrow> nat list \<Rightarrow> bool" where
  "chain h [] = True"
| "chain h [a] = (a = 0)"
| "chain h (a # b # r) = (h ! b \<noteq> [] \<and> cell_child (last (h ! b)) = Some a \<and> chain h (b # r))"

text \<open>
  \<open>tree_inv\<close>: the stack runs from the innermost open block to the root along last statements,
  children are allocated after their parents, and no object has two parents.
\<close>

definition tree_inv :: "config_heap \<Rightarrow> nat list \<Rightarrow> bool" where
  "tree_inv h s \<longleftrightarrow>
     h \<noteq> [] \<and> (\<forall>a \<in> set s. a < length h) \<and> chain h s \<and>
     (\<forall>b i c. edge h b i c \<longrightarrow> b < c \<and> c < length h) \<and>
     (\<forall>b i b' i' c. edge h b i c \<longrightarrow> edge h b' i' c \<longrightarrow> b = b' \<and> i = i')"

definition fresh_top :: "config_heap \<Rightarrow> nat list \<Rightarrow> bool" where
  "fresh_top h s \<longleftrightarrow>
     (case s of [] \<Rightarrow> True | a # _ \<Rightarrow> h ! a \<noteq> [] \<and> cell_child (last (h ! a)) = None)"

definition heap_inv :: "parse_state \<Rightarrow> bool" where
  "heap_inv st \<longleftrightarrow>
     tree_inv (heap st) (config_stack st) \<and>
     (last_token_type st = TOKEN_TYPE_NORMAL \<longrightarrow> fresh_top (heap st) (config_stack st))"

fun close_last :: "nginx_config \<Rightarrow> nginx_config" where
  "close_last [] = []"
| "close_last [NginxConfigStatement ts c] = [NginxConfigStatement ts None]"
| "close_last (x # y # xs) = x # close_last (y # xs)"

text \<open>The list of open configurations a heap and a stack of pointers stand for.\<close>

fun abs_frames :: "config_heap \<Rightarrow> nat list \<Rightarrow> nginx_config list" where
  "abs_frames h [] = []"
| "abs_frames h (a # r) = read_config h a # map (\<lambda>b. close_last (read_config h b)) r"

fun abs_result :: "parse_result \<Rightarrow> zip_result" where
  "abs_result (Continue st) = ZContinue (abs_frames (heap st) (config_stack st)) (last_token_type st)"
| "abs_result (Break st) = ZBreak"
| "abs_result (Success st) = ZSuccess (read_config (heap st) 0)"
| "abs_result Parse_UB = ZUB"

subsection \<open>Reading the heap\<close>

definition read_cell :: "config_heap \<Rightarrow> nat \<Rightarrow> stmt_cell \<Rightarrow> nginx_statement" where
  "read_cell h a c =
     NginxConfigStatement (cell_tokens c)
       (case cell_child c of
          None \<Rightarrow> None
        | Some b \<Rightarrow> (if a < b then Some (read_config h b) else None))"

lemma read_config_cells: "a < length h \<Longrightarrow> read_config h a = map (read_cell h a) (h ! a)"
  by (subst read_config.simps) (simp add: read_cell_def)

lemma close_last_snoc: "close_last (xs @ [NginxConfigStatement ts c]) = xs @ [NginxConfigStatement ts None]"
  by (induction xs rule: close_last.induct) auto

lemma close_last_last:
  "xs \<noteq> [] \<Longrightarrow> close_last xs = butlast xs @ [NginxConfigStatement (tokens (last xs)) None]"
  using close_last_snoc [of "butlast xs" "tokens (last xs)" "child_block (last xs)"] by simp

lemma attach_eq: "attach b s = NginxConfigStatement (tokens s) (Some b)"
  by (cases s) simp

lemma add_token_eq: "add_token t s = NginxConfigStatement (tokens s @ [t]) (child_block s)"
  by (cases s) simp

text \<open>Reading depends only on the objects reachable from the address.\<close>

lemma read_config_local:
  assumes closed: "\<And>b i c. P b \<Longrightarrow> edge h b i c \<Longrightarrow> P c"
    and same: "\<And>b. P b \<Longrightarrow> b < length h \<Longrightarrow> b < length h' \<and> h' ! b = h ! b"
    and inside: "\<And>b i c. edge h b i c \<Longrightarrow> c < length h"
  shows "P b \<Longrightarrow> b < length h \<Longrightarrow> read_config h' b = read_config h b"
proof (induction "length h - b" arbitrary: b rule: less_induct)
  case less
  have cell: "read_cell h' b c = read_cell h b c" if c_in: "c \<in> set (h ! b)" for c
  proof (cases "cell_child c")
    case (Some d)
    from c_in obtain i where i: "i < length (h ! b)" "h ! b ! i = c"
      by (auto simp: in_set_conv_nth)
    then have e: "edge h b i d" using Some less.prems by (simp add: edge_def)
    have "read_config h' d = read_config h d" if "b < d"
    proof (rule less.hyps)
      show "d < length h" using inside [OF e] .
      then show "length h - d < length h - b" using that by simp
      show "P d" using closed [OF less.prems(1) e] .
    qed
    with Some show ?thesis by (simp add: read_cell_def)
  qed (simp add: read_cell_def)
  from same [OF less.prems] less.prems show ?case
    by (simp add: read_config_cells cell cong: map_cong)
qed

subsection \<open>Changing the innermost open block\<close>

lemma tree_invD:
  assumes "tree_inv h s"
  shows "h \<noteq> []" and "a \<in> set s \<Longrightarrow> a < length h" and "chain h s"
    and "edge h b i c \<Longrightarrow> b < c" and "edge h b i c \<Longrightarrow> c < length h"
    and "edge h b i c \<Longrightarrow> edge h b' i' c \<Longrightarrow> b = b' \<and> i = i'"
  using assms unfolding tree_inv_def by blast+

lemma chain_tl: "chain h (a # r) \<Longrightarrow> chain h r"
  by (cases r) auto

lemma tree_inv_tl: "tree_inv h (a # r) \<Longrightarrow> tree_inv h r"
  unfolding tree_inv_def using chain_tl by auto

lemma chain_head_edge:
  assumes "chain h (a # b # r)" and "b < length h"
  shows "edge h b (length (h ! b) - 1) a"
proof -
  have "h ! b \<noteq> []" "cell_child (last (h ! b)) = Some a" using assms(1) by simp_all
  with assms(2) show ?thesis by (simp add: edge_def last_conv_nth)
qed

lemma chain_edge:
  "chain h s \<Longrightarrow> (\<forall>a \<in> set s. a < length h) \<Longrightarrow> c \<in> set s \<Longrightarrow> c \<noteq> 0 \<Longrightarrow>
   \<exists>b \<in> set (tl s). edge h b (length (h ! b) - 1) c"
proof (induction h s rule: chain.induct)
  case (3 h a b r)
  show ?case
  proof (cases "c = a")
    case True
    with 3 have "edge h b (length (h ! b) - 1) c"
      by (intro chain_head_edge) auto
    then show ?thesis by auto
  next
    case False
    with 3 obtain d where "d \<in> set r" "edge h d (length (h ! d) - 1) c" by auto
    then show ?thesis by auto
  qed
qed simp_all

lemma stack_parent:
  assumes t: "tree_inv h s" and c: "c \<in> set s" and e: "edge h b i c"
  shows "b \<in> set (tl s) \<and> i = length (h ! b) - 1"
proof -
  have "c \<noteq> 0" using tree_invD(4) [OF t e] by simp
  then obtain d where d: "d \<in> set (tl s)" "edge h d (length (h ! d) - 1) c"
    using chain_edge [OF tree_invD(3) [OF t] _ c] tree_invD(2) [OF t] by blast
  then show ?thesis using tree_invD(6) [OF t d(2) e] by auto
qed

lemma chain_less:
  "tree_inv h (a # r) \<Longrightarrow> b \<in> set r \<Longrightarrow> b < a"
proof (induction r arbitrary: a)
  case (Cons d r)
  have "edge h d (length (h ! d) - 1) a"
    using tree_invD(2,3) [OF Cons.prems(1)] by (intro chain_head_edge) auto
  then have "d < a" using tree_invD(4) [OF Cons.prems(1)] by blast
  with Cons.IH [OF tree_inv_tl [OF Cons.prems(1)]] Cons.prems(2) show ?case by auto
qed simp

text \<open>\<open>h'\<close> differs from \<open>h\<close> at the top of the stack only, and may have new objects.\<close>

definition top_change :: "config_heap \<Rightarrow> nat \<Rightarrow> config_heap \<Rightarrow> bool" where
  "top_change h a h' \<longleftrightarrow> length h \<le> length h' \<and> (\<forall>b < length h. b \<noteq> a \<longrightarrow> h' ! b = h ! b)"

lemma read_outside:
  assumes t: "tree_inv h (a # r)" and ch: "top_change h a h'"
    and b: "b \<notin> set (a # r)" "b < length h"
  shows "read_config h' b = read_config h b"
proof (rule read_config_local [where P = "\<lambda>b. b \<notin> set (a # r)"])
  fix b i c
  assume nb: "b \<notin> set (a # r)" and e: "edge h b i c"
  show "c \<notin> set (a # r)"
  proof
    assume "c \<in> set (a # r)"
    from stack_parent [OF t this e] nb show False by simp
  qed
next
  fix b assume "b \<notin> set (a # r)" "b < length h"
  then show "b < length h' \<and> h' ! b = h ! b" using ch by (auto simp: top_change_def)
qed (use b tree_invD(5) [OF t] in auto)

lemma read_cell_outside:
  assumes t: "tree_inv h (a # r)" and ch: "top_change h a h'"
    and b: "b < length h" "i < length (h ! b)" and free: "\<And>c. edge h b i c \<Longrightarrow> c \<notin> set (a # r)"
  shows "read_cell h' b (h ! b ! i) = read_cell h b (h ! b ! i)"
proof (cases "cell_child (h ! b ! i)")
  case (Some c)
  with b have e: "edge h b i c" by (simp add: edge_def)
  have "read_config h' c = read_config h c"
    using read_outside [OF t ch free [OF e] tree_invD(5) [OF t e]] .
  with Some show ?thesis by (simp add: read_cell_def)
qed (simp add: read_cell_def)

lemma read_top_cells:
  assumes t: "tree_inv h (a # r)" and ch: "top_change h a h'" and c: "c \<in> set (h ! a)"
  shows "read_cell h' a c = read_cell h a c"
proof -
  from c obtain i where i: "i < length (h ! a)" "h ! a ! i = c" by (auto simp: in_set_conv_nth)
  have a: "a < length h" using tree_invD(2) [OF t] by simp
  have "d \<notin> set (a # r)" if e: "edge h a i d" for d
  proof
    assume "d \<in> set (a # r)"
    from stack_parent [OF t this e] have "a \<in> set r" by simp
    with chain_less [OF t] show False by blast
  qed
  from read_cell_outside [OF t ch a i(1) this] i show ?thesis by simp
qed

lemma read_below:
  assumes t: "tree_inv h (a # r)" and ch: "top_change h a h'" and b: "b \<in> set r"
  shows "close_last (read_config h' b) = close_last (read_config h b)"
proof -
  have lt: "b < length h" "b \<noteq> a"
    using tree_invD(2) [OF t] chain_less [OF t b] b by auto
  then have same: "b < length h'" "h' ! b = h ! b" using ch by (auto simp: top_change_def)
  have cell: "read_cell h' b (h ! b ! i) = read_cell h b (h ! b ! i)" if "i < length (h ! b) - 1" for i
  proof (rule read_cell_outside [OF t ch lt(1)])
    fix c assume e: "edge h b i c"
    show "c \<notin> set (a # r)"
      using stack_parent [OF t _ e] that by auto
  qed (use that in simp)
  have but: "map (read_cell h' b) (butlast (h ! b)) = map (read_cell h b) (butlast (h ! b))"
    by (rule nth_equalityI) (simp_all add: cell nth_butlast)
  show ?thesis
  proof (cases "h ! b = []")
    case True
    with lt same show ?thesis by (simp add: read_config_cells)
  next
    case False
    with lt same show ?thesis
      by (simp add: read_config_cells close_last_last map_butlast [symmetric] but last_map)
        (simp add: read_cell_def)
  qed
qed

subsection \<open>Every step keeps the tree and refines the heap-free parser\<close>

text \<open>Giving the top object new cells with the same children as before.\<close>

lemma edge_update:
  "edge (h[a := xs]) b i c \<longleftrightarrow>
     (if b = a then a < length h \<and> i < length xs \<and> cell_child (xs ! i) = Some c else edge h b i c)"
  by (auto simp: edge_def)

lemma chain_same:
  "(\<And>b. b \<in> set (tl s) \<Longrightarrow> h' ! b = h ! b) \<Longrightarrow> chain h s \<Longrightarrow> chain h' s"
  by (induction h s rule: chain.induct) auto

lemma chain_top_change:
  assumes t: "tree_inv h (a # r)" and ch: "top_change h a h'"
  shows "chain h' (a # r)"
proof (rule chain_same [OF _ tree_invD(3) [OF t]])
  fix b assume "b \<in> set (tl (a # r))"
  then have "b < a" "b < length h"
    using chain_less [OF t] tree_invD(2) [OF t] by simp_all
  then show "h' ! b = h ! b" using ch by (simp add: top_change_def)
qed

lemma top_change_update [simp]: "top_change h a (h[a := xs])"
  by (simp add: top_change_def)

lemma tree_inv_same_edges:
  assumes t: "tree_inv h (a # r)" and edges: "\<And>b i c. edge (h[a := xs]) b i c \<Longrightarrow> edge h b i c"
  shows "tree_inv (h[a := xs]) (a # r)"
proof -
  have "chain (h[a := xs]) (a # r)"
    using chain_top_change [OF t] by simp
  moreover have "\<forall>b i c. edge (h[a := xs]) b i c \<longrightarrow> b < c \<and> c < length h"
    using edges tree_invD(4,5) [OF t] by blast
  moreover have "\<forall>b i b' i' c. edge (h[a := xs]) b i c \<longrightarrow> edge (h[a := xs]) b' i' c \<longrightarrow> b = b' \<and> i = i'"
  proof (intro allI impI)
    fix b i b' i' c
    assume "edge (h[a := xs]) b i c" and "edge (h[a := xs]) b' i' c"
    from tree_invD(6) [OF t this [THEN edges]] show "b = b' \<and> i = i'" .
  qed
  ultimately show ?thesis
    using tree_invD(1,2) [OF t] by (simp add: tree_inv_def)
qed

lemma edges_push:
  assumes "edge (h[a := h ! a @ [c]]) b i d" and "cell_child c = None"
  shows "edge h b i d"
  using assms
  by (cases "b = a"; cases "i < length (h ! a)") (auto simp: edge_update edge_def nth_append)

lemma edges_retag:
  assumes "edge (h[a := butlast (h ! a) @ [c]]) b i d" and "h ! a \<noteq> []"
    and "cell_child c = cell_child (last (h ! a))"
  shows "edge h b i d"
proof -
  from assms(2) obtain xs c0 where "h ! a = xs @ [c0]" by (cases "h ! a" rule: rev_cases) auto
  with assms(1,3) show ?thesis
    by (cases "b = a"; cases "i < length xs") (auto simp: edge_update edge_def nth_append)
qed

lemma abs_frames_change:
  assumes t: "tree_inv h (a # r)" and ch: "top_change h a h'" and a: "a < length h'"
    and cells: "h' ! a = xs @ ys" and old: "set xs \<subseteq> set (h ! a)"
  shows "abs_frames h' (a # r)
    = (map (read_cell h a) xs @ map (read_cell h' a) ys) # tl (abs_frames h (a # r))"
proof -
  have "map (read_cell h' a) xs = map (read_cell h a) xs"
    using old read_top_cells [OF t ch] by auto
  with a cells show ?thesis by (simp add: read_config_cells read_below [OF t ch])
qed

lemma step_first_token:
  fixes tok :: string
  assumes t: "tree_inv h (a # r)"
  defines "c \<equiv> \<lparr>cell_tokens = [tok], cell_child = None\<rparr>"
  defines "h' \<equiv> h[a := h ! a @ [c]]"
  shows "tree_inv h' (a # r)" and "fresh_top h' (a # r)"
    and "abs_frames h' (a # r)
      = (read_config h a @ [NginxConfigStatement [tok] None]) # tl (abs_frames h (a # r))"
proof -
  have a: "a < length h" using tree_invD(2) [OF t] by simp
  show "tree_inv h' (a # r)"
    unfolding h'_def
  proof (rule tree_inv_same_edges [OF t])
    fix b i d assume "edge (h[a := h ! a @ [c]]) b i d"
    then show "edge h b i d" by (rule edges_push) (simp add: c_def)
  qed
  show "fresh_top h' (a # r)"
    using a by (simp add: fresh_top_def h'_def c_def)
  show "abs_frames h' (a # r)
      = (read_config h a @ [NginxConfigStatement [tok] None]) # tl (abs_frames h (a # r))"
    using a abs_frames_change [OF t, of h' "h ! a" "[c]"]
    by (simp add: h'_def read_config_cells read_cell_def c_def)
qed

lemma step_next_token:
  fixes tok :: string
  assumes t: "tree_inv h (a # r)" and fresh: "fresh_top h (a # r)"
  defines "c \<equiv> (last (h ! a))\<lparr>cell_tokens := cell_tokens (last (h ! a)) @ [tok]\<rparr>"
  defines "h' \<equiv> h[a := butlast (h ! a) @ [c]]"
  shows "tree_inv h' (a # r)" and "fresh_top h' (a # r)"
    and "abs_frames h' (a # r)
      = (butlast (read_config h a) @ [add_token tok (last (read_config h a))])
        # tl (abs_frames h (a # r))"
proof -
  have a: "a < length h" using tree_invD(2) [OF t] by simp
  from fresh have ne: "h ! a \<noteq> []" and nc: "cell_child (last (h ! a)) = None"
    by (simp_all add: fresh_top_def)
  show "tree_inv h' (a # r)"
    unfolding h'_def
  proof (rule tree_inv_same_edges [OF t])
    fix b i d assume "edge (h[a := butlast (h ! a) @ [c]]) b i d"
    then show "edge h b i d" by (rule edges_retag) (simp_all add: c_def ne)
  qed
  show "fresh_top h' (a # r)"
    using a nc by (simp add: fresh_top_def h'_def c_def)
  show "abs_frames h' (a # r)
      = (butlast (read_config h a) @ [add_token tok (last (read_config h a))])
        # tl (abs_frames h (a # r))"
  proof -
    from ne obtain xs c0 where ha: "h ! a = xs @ [c0]" by (cases "h ! a" rule: rev_cases) auto
    have "abs_frames h' (a # r)
        = (map (read_cell h a) xs @ map (read_cell h' a) [c]) # tl (abs_frames h (a # r))"
      by (rule abs_frames_change [OF t]) (use a ha in \<open>auto simp: h'_def\<close>)
    with a ha nc show ?thesis
      by (simp add: read_config_cells read_cell_def c_def add_token_eq)
  qed
qed

text \<open>Opening a block adds one edge, from the last cell of the top to the new configuration.\<close>

lemma open_block_edges:
  assumes a: "a < length h" and ne: "h ! a \<noteq> []" and nc: "cell_child (last (h ! a)) = None"
    and ch: "top_change h a h'" and h'n: "h' ! length h = []" and len: "length h' = Suc (length h)"
    and h'a: "h' ! a = butlast (h ! a) @ [(last (h ! a))\<lparr>cell_child := Some (length h)\<rparr>]"
  shows "edge h' b i d \<longleftrightarrow> edge h b i d \<or> (b = a \<and> i = length (h ! a) - 1 \<and> d = length h)"
proof (cases "b = a")
  case True
  from ne obtain xs c0 where "h ! a = xs @ [c0]" by (cases "h ! a" rule: rev_cases) auto
  with True show ?thesis
    using a nc h'a len by (cases "i < length xs") (auto simp: edge_def nth_append)
next
  case False
  then show ?thesis
    using ch h'n len by (auto simp: edge_def top_change_def less_Suc_eq)
qed

text \<open>What the top configuration reads as stays the same, its last statement still being open.\<close>

lemma open_block_reads:
  assumes t: "tree_inv h (a # r)" and ch: "top_change h a h'" and a: "a < length h" and ne: "h ! a \<noteq> []"
    and nc: "cell_child (last (h ! a)) = None" and len: "length h' = Suc (length h)"
    and h'a: "h' ! a = butlast (h ! a) @ [(last (h ! a))\<lparr>cell_child := Some (length h)\<rparr>]"
  shows "close_last (read_config h' a) = read_config h a"
proof -
  have "map (read_cell h' a) (butlast (h ! a)) = map (read_cell h a) (butlast (h ! a))"
    using read_top_cells [OF t ch] by (auto dest: in_set_butlastD)
  then have "close_last (read_config h' a)
      = map (read_cell h a) (butlast (h ! a)) @ [read_cell h a (last (h ! a))]"
    using a len h'a nc by (simp add: read_config_cells read_cell_def close_last_snoc)
  also have "\<dots> = map (read_cell h a) (h ! a)"
    using ne by (cases "h ! a" rule: rev_cases) simp_all
  finally show ?thesis using a by (simp add: read_config_cells)
qed

lemma step_open_block:
  assumes t: "tree_inv h (a # r)" and fresh: "fresh_top h (a # r)"
  defines "c \<equiv> (last (h ! a))\<lparr>cell_child := Some (length h)\<rparr>"
  defines "h' \<equiv> (h @ [[]])[a := butlast (h ! a) @ [c]]"
  shows "tree_inv h' (length h # a # r)"
    and "abs_frames h' (length h # a # r) = [] # abs_frames h (a # r)"
proof -
  have a: "a < length h" using tree_invD(2) [OF t] by simp
  from fresh have ne: "h ! a \<noteq> []" and nc: "cell_child (last (h ! a)) = None"
    by (simp_all add: fresh_top_def)
  have ch: "top_change h a h'"
    using a by (auto simp: top_change_def h'_def nth_append)
  have h'a: "h' ! a = butlast (h ! a) @ [c]" and h'n: "h' ! length h = []"
    and len: "length h' = Suc (length h)"
    using a by (simp_all add: h'_def nth_append)
  note edges = open_block_edges [OF a ne nc ch h'n len h'a [unfolded c_def]]
  have "chain h' (a # r)"
    by (rule chain_top_change [OF t ch])
  then have "chain h' (length h # a # r)"
    using h'a by (simp add: c_def)
  moreover have "\<forall>b i d. edge h' b i d \<longrightarrow> b < d \<and> d < length h'"
    using tree_invD(4,5) [OF t] a len by (auto simp: edges less_Suc_eq)
  moreover have "\<forall>b i b' i' d. edge h' b i d \<longrightarrow> edge h' b' i' d \<longrightarrow> b = b' \<and> i = i'"
  proof (intro allI impI)
    fix b i b' i' d
    assume e: "edge h' b i d" "edge h' b' i' d"
    show "b = b' \<and> i = i'"
    proof (cases "d = length h")
      case True
      with e tree_invD(5) [OF t] show ?thesis by (auto simp: edges)
    next
      case False
      with e have "edge h b i d" "edge h b' i' d" by (simp_all add: edges)
      then show ?thesis by (rule tree_invD(6) [OF t])
    qed
  qed
  moreover have "\<forall>b \<in> set (length h # a # r). b < length h'" "h' \<noteq> []"
    using tree_invD(2) [OF t] len by (auto simp: less_Suc_eq)
  ultimately show "tree_inv h' (length h # a # r)"
    by (simp add: tree_inv_def)
  have "close_last (read_config h' a) = read_config h a"
    by (rule open_block_reads [OF t ch a ne nc len h'a [unfolded c_def]])
  then show "abs_frames h' (length h # a # r) = [] # abs_frames h (a # r)"
    using h'n len by (simp add: read_config_cells read_below [OF t ch])
qed

lemma step_close_block:
  assumes t: "tree_inv h (a # b # r)"
  shows "abs_frames h (b # r)
    = (butlast (close_last (read_config h b))
       @ [attach (read_config h a) (last (close_last (read_config h b)))])
      # map (\<lambda>b. close_last (read_config h b)) r"
proof -
  have b: "b < length h" and ne: "h ! b \<noteq> []" and lc: "cell_child (last (h ! b)) = Some a"
    using tree_invD(2,3) [OF t] by auto
  have ba: "b < a" using chain_less [OF t] by simp
  from ne obtain xs c0 where hb: "h ! b = xs @ [c0]" by (cases "h ! b" rule: rev_cases) auto
  with b lc ba show ?thesis
    by (simp add: read_config_cells read_cell_def close_last_snoc)
qed

lemma abs_frames_Nil [simp]: "abs_frames h s = [] \<longleftrightarrow> s = []"
  by (cases s) simp_all

lemma read_config_Nil: "a < length h \<Longrightarrow> read_config h a = [] \<longleftrightarrow> h ! a = []"
  by (simp add: read_config_cells)

definition step_refines :: "parse_state \<Rightarrow> token \<Rightarrow> bool" where
  "step_refines st tk \<longleftrightarrow>
     abs_result (parse_step st tk)
       = zip_step (abs_frames (heap st) (config_stack st)) (last_token_type st) tk \<and>
     (\<forall>st'. parse_step st tk = Continue st' \<longrightarrow> heap_inv st')"

lemma refine_NORMAL:
  assumes inv: "heap_inv st"
  shows "step_refines st (TOKEN_TYPE_NORMAL, tok)"
proof (cases "config_stack st")
  case Nil
  then show ?thesis
    by (cases "last_token_type st") (simp_all add: step_refines_def parse_step_def Let_def)
next
  case (Cons a r)
  define h where "h = heap st"
  have t: "tree_inv h (a # r)"
    and fresh: "last_token_type st = TOKEN_TYPE_NORMAL \<Longrightarrow> fresh_top h (a # r)"
    using inv Cons by (simp_all add: heap_inv_def h_def)
  have a: "a < length h" using tree_invD(2) [OF t] by simp
  show ?thesis
  proof (cases "last_token_type st = TOKEN_TYPE_NORMAL")
    case True
    with fresh have ne: "h ! a \<noteq> []" by (simp add: fresh_top_def)
    have "parse_step st (TOKEN_TYPE_NORMAL, tok) = Continue (st\<lparr>heap :=
        h[a := butlast (h ! a) @ [(last (h ! a))\<lparr>cell_tokens := cell_tokens (last (h ! a)) @ [tok]\<rparr>]],
        last_token_type := TOKEN_TYPE_NORMAL\<rparr>)"
      using True Cons ne by (simp add: parse_step_def Let_def update_back_def h_def)
    with step_next_token [OF t fresh [OF True], of tok] True Cons a ne show ?thesis
      by (simp add: step_refines_def heap_inv_def read_config_Nil flip: h_def)
  next
    case False
    consider (bad) "last_token_type st \<in> {TOKEN_TYPE_COMMENT, TOKEN_TYPE_EOF, TOKEN_TYPE_ERROR}"
      | (ok) "last_token_type st \<in> {TOKEN_TYPE_START, TOKEN_TYPE_STATEMENT_END,
          TOKEN_TYPE_START_BLOCK, TOKEN_TYPE_END_BLOCK}"
      using False by (cases "last_token_type st") auto
    then show ?thesis
    proof cases
      case bad
      then show ?thesis by (auto simp: step_refines_def parse_step_def Let_def)
    next
      case ok
      then have "parse_step st (TOKEN_TYPE_NORMAL, tok) = Continue (st\<lparr>heap :=
          h[a := h ! a @ [\<lparr>cell_tokens = [tok], cell_child = None\<rparr>]],
          last_token_type := TOKEN_TYPE_NORMAL\<rparr>)"
        using Cons a by (auto simp: parse_step_def Let_def update_back_def h_def new_statement_def)
      with step_first_token [OF t, of tok] ok Cons show ?thesis
        by (auto simp: step_refines_def heap_inv_def simp flip: h_def)
    qed
  qed
qed

lemma refine_START_BLOCK:
  assumes inv: "heap_inv st"
  shows "step_refines st (TOKEN_TYPE_START_BLOCK, tok)"
proof (cases "last_token_type st = TOKEN_TYPE_NORMAL \<and> config_stack st \<noteq> []")
  case False
  then show ?thesis by (cases "config_stack st") (auto simp: step_refines_def parse_step_def Let_def)
next
  case True
  then obtain a r where Cons: "config_stack st = a # r" by (cases "config_stack st") auto
  define h where "h = heap st"
  have t: "tree_inv h (a # r)" and fresh: "fresh_top h (a # r)"
    using inv True Cons by (simp_all add: heap_inv_def h_def)
  have a: "a < length h" using tree_invD(2) [OF t] by simp
  from fresh have ne: "h ! a \<noteq> []" by (simp add: fresh_top_def)
  have "parse_step st (TOKEN_TYPE_START_BLOCK, tok) = Continue (st\<lparr>heap :=
      (h @ [[]])[a := butlast (h ! a) @ [(last (h ! a))\<lparr>cell_child := Some (length h)\<rparr>]],
      config_stack := length h # a # r, last_token_type := TOKEN_TYPE_START_BLOCK\<rparr>)"
    using True Cons ne a by (simp add: parse_step_def Let_def update_back_def nth_append h_def)
  with step_open_block [OF t fresh] True Cons a ne show ?thesis
    by (simp add: step_refines_def heap_inv_def read_config_Nil flip: h_def)
qed

lemma refine_END_BLOCK:
  assumes inv: "heap_inv st"
  shows "step_refines st (TOKEN_TYPE_END_BLOCK, tok)"
proof (cases "last_token_type st \<in> {TOKEN_TYPE_STATEMENT_END, TOKEN_TYPE_END_BLOCK,
    TOKEN_TYPE_START_BLOCK} \<and> config_stack st \<noteq> []")
  case False
  then show ?thesis by (cases "config_stack st") (auto simp: step_refines_def parse_step_def Let_def)
next
  case True
  then obtain a r where Cons: "config_stack st = a # r" by (cases "config_stack st") auto
  have t: "tree_inv (heap st) (a # r)" using inv Cons by (simp add: heap_inv_def)
  have step: "parse_step st (TOKEN_TYPE_END_BLOCK, tok)
      = Continue (st\<lparr>config_stack := r, last_token_type := TOKEN_TYPE_END_BLOCK\<rparr>)"
    using True Cons by (auto simp: parse_step_def Let_def)
  have inv': "heap_inv (st\<lparr>config_stack := r, last_token_type := TOKEN_TYPE_END_BLOCK\<rparr>)"
    using tree_inv_tl [OF t] by (simp add: heap_inv_def)
  show ?thesis
  proof (cases r)
    case Nil
    with True step inv' Cons show ?thesis by (auto simp: step_refines_def)
  next
    case (Cons b r')
    with True step inv' \<open>config_stack st = a # r\<close> step_close_block [of "heap st" a b r'] t
    show ?thesis by (auto simp: step_refines_def)
  qed
qed

lemma refine_EOF:
  assumes inv: "heap_inv st"
  shows "step_refines st (TOKEN_TYPE_EOF, tok)"
proof -
  consider "config_stack st = []" | a where "config_stack st = [a]"
    | a b r where "config_stack st = a # b # r"
    by (metis neq_Nil_conv)
  then show ?thesis
  proof cases
    case 2
    then have "a = 0" using inv by (auto simp: heap_inv_def tree_inv_def)
    with 2 show ?thesis by (auto simp: step_refines_def parse_step_def Let_def)
  qed (auto simp: step_refines_def parse_step_def Let_def)
qed

lemma parse_step_refines: "heap_inv st \<Longrightarrow> step_refines st tk"
proof (cases tk)
  case (Pair ty tok)
  assume inv: "heap_inv st"
  show ?thesis
  proof (cases ty)
    case TOKEN_TYPE_STATEMENT_END
    with Pair inv show ?thesis
      by (auto simp: step_refines_def parse_step_def Let_def heap_inv_def)
  qed (use Pair inv in \<open>simp_all add: refine_NORMAL refine_START_BLOCK refine_END_BLOCK refine_EOF\<close>,
       simp_all add: step_refines_def parse_step_def Let_def)
qed

lemma heap_inv_init: "heap_inv init_parse_state"
  by (simp add: heap_inv_def tree_inv_def init_parse_state_def edge_def)

lemma abs_frames_init: "abs_frames (heap init_parse_state) (config_stack init_parse_state) = [[]]"
  by (simp add: init_parse_state_def read_config_cells)

lemma run_tokens_refines:
  "heap_inv st \<Longrightarrow>
   abs_result (run_tokens st ts)
     = zip_run (abs_frames (heap st) (config_stack st)) (last_token_type st) ts"
proof (induction ts arbitrary: st)
  case (Cons t ts)
  have step: "zip_step (abs_frames (heap st) (config_stack st)) (last_token_type st) t
      = abs_result (parse_step st t)"
    and inv: "\<And>st'. parse_step st t = Continue st' \<Longrightarrow> heap_inv st'"
    using parse_step_refines [OF Cons.prems, of t] by (simp_all add: step_refines_def)
  show ?case
    by (cases "parse_step st t") (simp_all add: step Cons.IH inv)
qed simp

text \<open>The parser on an input is the heap-free parser on its tokens.\<close>

lemma parse_loop_refines:
  "abs_result (parse_loop input init_parse_state) = zip_run [[]] TOKEN_TYPE_START (lex_all input)"
  using run_tokens_refines [OF heap_inv_init, of "lex_all input"]
  by (simp add: parse_loop_run abs_frames_init) (simp add: init_parse_state_def)

end
