(* ===== verification/Config_Parser_Correct.thy ===== *)
theory Config_Parser_Correct
  imports Config_Parser_Refine
begin

text \<open>
  What the parser accepts and what it builds. \<open>flatten\<close> writes a configuration as the tokens
  of its grammar; the parser returns true with a configuration exactly when the tokens of the
  input are the flattening of it. Printing is shown to produce such an input again.
\<close>

subsection \<open>The grammar\<close>

fun flatten_stmt :: "nginx_statement \<Rightarrow> token list" where
  "flatten_stmt (NginxConfigStatement ts None) =
     map (Pair TOKEN_TYPE_NORMAL) ts @ [(TOKEN_TYPE_STATEMENT_END, '';'')]"
| "flatten_stmt (NginxConfigStatement ts (Some c)) =
     map (Pair TOKEN_TYPE_NORMAL) ts @ [(TOKEN_TYPE_START_BLOCK, ''{'')]
     @ concat (map flatten_stmt c) @ [(TOKEN_TYPE_END_BLOCK, ''}'')]"

abbreviation flatten :: "nginx_config \<Rightarrow> token list" where
  "flatten c \<equiv> concat (map flatten_stmt c)"

text \<open>Every statement, at every depth, has at least one token.\<close>

fun stmt_wf :: "nginx_statement \<Rightarrow> bool" where
  "stmt_wf (NginxConfigStatement ts None) = (ts \<noteq> [])"
| "stmt_wf (NginxConfigStatement ts (Some c)) = (ts \<noteq> [] \<and> list_all stmt_wf c)"

abbreviation config_wf :: "nginx_config \<Rightarrow> bool" where
  "config_wf \<equiv> list_all stmt_wf"

text \<open>Punctuation tokens carry their own character.\<close>

fun canonical :: "token \<Rightarrow> bool" where
  "canonical (TOKEN_TYPE_START_BLOCK, t) = (t = ''{'')"
| "canonical (TOKEN_TYPE_END_BLOCK, t) = (t = ''}'')"
| "canonical (TOKEN_TYPE_STATEMENT_END, t) = (t = '';'')"
| "canonical _ = True"

subsection \<open>Completeness: the tokens of a configuration build it\<close>

lemma zip_run_append:
  "zip_run fs l (xs @ ys) = (case zip_run fs l xs of ZContinue fs' l' \<Rightarrow> zip_run fs' l' ys | r \<Rightarrow> r)"
  by (induction xs arbitrary: fs l) (auto split: zip_result.splits)

definition between :: "token_type \<Rightarrow> bool" where
  "between l \<longleftrightarrow> l \<in> {TOKEN_TYPE_START, TOKEN_TYPE_STATEMENT_END, TOKEN_TYPE_START_BLOCK, TOKEN_TYPE_END_BLOCK}"

lemma zip_run_more_tokens:
  "f \<noteq> [] \<Longrightarrow>
   zip_run (f # r) TOKEN_TYPE_NORMAL (map (Pair TOKEN_TYPE_NORMAL) ts)
   = ZContinue ((butlast f @ [NginxConfigStatement (tokens (last f) @ ts) (child_block (last f))]) # r)
       TOKEN_TYPE_NORMAL"
  by (induction ts arbitrary: f) (simp_all add: add_token_eq)

lemma zip_run_tokens:
  "between l \<Longrightarrow> ts \<noteq> [] \<Longrightarrow>
   zip_run (f # r) l (map (Pair TOKEN_TYPE_NORMAL) ts)
   = ZContinue ((f @ [NginxConfigStatement ts None]) # r) TOKEN_TYPE_NORMAL"
  by (cases ts) (auto simp: between_def zip_run_more_tokens)

definition after_stmts :: "nginx_config \<Rightarrow> token_type \<Rightarrow> token_type" where
  "after_stmts c l =
     (if c = [] then l
      else case child_block (last c) of
        None \<Rightarrow> TOKEN_TYPE_STATEMENT_END | Some b \<Rightarrow> TOKEN_TYPE_END_BLOCK)"

lemma after_stmts_between: "between l \<Longrightarrow> between (after_stmts c l)"
  by (simp add: after_stmts_def between_def split: option.split)

lemma zip_run_flatten:
  assumes "config_wf c" and "between l"
    and stmt: "\<And>s f r l. s \<in> set c \<Longrightarrow> stmt_wf s \<Longrightarrow> between l \<Longrightarrow>
      zip_run (f # r) l (flatten_stmt s) = ZContinue ((f @ [s]) # r) (after_stmts [s] l)"
  shows "zip_run (f # r) l (flatten c) = ZContinue ((f @ c) # r) (after_stmts c l)"
  using assms
proof (induction c arbitrary: f l)
  case Nil
  then show ?case by (simp add: after_stmts_def)
next
  case (Cons s c)
  have "zip_run (f # r) l (flatten_stmt s) = ZContinue ((f @ [s]) # r) (after_stmts [s] l)"
    using Cons.prems by simp
  moreover have "zip_run ((f @ [s]) # r) (after_stmts [s] l) (flatten c)
      = ZContinue ((f @ [s] @ c) # r) (after_stmts c (after_stmts [s] l))"
    using Cons.prems Cons.IH [of "after_stmts [s] l" "f @ [s]"]
    by (simp add: after_stmts_between)
  ultimately show ?case
    by (simp add: zip_run_append after_stmts_def)
qed

lemma zip_run_flatten_stmt:
  "stmt_wf s \<Longrightarrow> between l \<Longrightarrow>
   zip_run (f # r) l (flatten_stmt s) = ZContinue ((f @ [s]) # r) (after_stmts [s] l)"
proof (induction s arbitrary: f r l rule: flatten_stmt.induct)
  case (1 ts)
  then show ?case by (simp add: zip_run_append zip_run_tokens after_stmts_def)
next
  case (2 ts c)
  have "zip_run ([] # (f @ [NginxConfigStatement ts None]) # r) TOKEN_TYPE_START_BLOCK (flatten c)
      = ZContinue (c # (f @ [NginxConfigStatement ts None]) # r) (after_stmts c TOKEN_TYPE_START_BLOCK)"
    using zip_run_flatten [where f = "[]" and c = c and l = TOKEN_TYPE_START_BLOCK] "2.prems" "2.IH"
    by (simp add: between_def)
  moreover have "after_stmts c TOKEN_TYPE_START_BLOCK
      \<in> {TOKEN_TYPE_STATEMENT_END, TOKEN_TYPE_END_BLOCK, TOKEN_TYPE_START_BLOCK}"
    by (simp add: after_stmts_def split: option.split)
  ultimately show ?case
    using "2.prems"
    by (auto simp: zip_run_append zip_run_tokens after_stmts_def simp del: zip_run.simps(2)
        simp: zip_run.simps(2) [of _ _ _ "[]"] zip_run.simps(2) [of _ _ "(TOKEN_TYPE_START_BLOCK, ''{'')"])
qed

lemma zip_run_config:
  "config_wf c \<Longrightarrow> between l \<Longrightarrow>
   zip_run (f # r) l (flatten c) = ZContinue ((f @ c) # r) (after_stmts c l)"
  by (rule zip_run_flatten) (simp_all add: zip_run_flatten_stmt)

subsection \<open>Soundness: what was read so far\<close>

text \<open>The tokens that lead to a list of open blocks.\<close>

definition open_tokens :: "nginx_config \<Rightarrow> token list" where
  "open_tokens f = flatten (butlast f) @ map (Pair TOKEN_TYPE_NORMAL) (tokens (last f))"

definition open_block :: "nginx_config \<Rightarrow> token list" where
  "open_block g = open_tokens g @ [(TOKEN_TYPE_START_BLOCK, ''{'')]"

lemma open_blocks_snoc: "concat (map open_block (r @ [g])) = concat (map open_block r) @ open_block g"
  by simp

definition frame_ok :: "nginx_config \<Rightarrow> bool" where
  "frame_ok f \<longleftrightarrow>
     f \<noteq> [] \<and> config_wf (butlast f) \<and> tokens (last f) \<noteq> [] \<and> child_block (last f) = None"

fun read_so_far :: "nginx_config list \<Rightarrow> token_type \<Rightarrow> token list" where
  "read_so_far [] l = []"
| "read_so_far (f # r) l =
     concat (map open_block (rev r))
     @ (if l = TOKEN_TYPE_NORMAL then open_tokens f else flatten f)"

fun frames_ok :: "nginx_config list \<Rightarrow> token_type \<Rightarrow> bool" where
  "frames_ok [] l = False"
| "frames_ok (f # r) l =
     (list_all frame_ok r \<and>
      (if l = TOKEN_TYPE_NORMAL then frame_ok f
       else config_wf f \<and> between l
         \<and> (l \<in> {TOKEN_TYPE_STATEMENT_END, TOKEN_TYPE_END_BLOCK} \<longrightarrow> f \<noteq> [])
         \<and> (l = TOKEN_TYPE_START_BLOCK \<longrightarrow> r \<noteq> [])))"

lemma frame_ok_wf: "frame_ok f \<Longrightarrow> config_wf f"
  by (cases f rule: rev_cases; cases "last f") (auto simp: frame_ok_def)

lemma frame_ok_nonempty: "frame_ok f \<Longrightarrow> f \<noteq> []"
  by (simp add: frame_ok_def)

lemma flatten_open: "frame_ok f \<Longrightarrow> flatten f = open_tokens f @ [(TOKEN_TYPE_STATEMENT_END, '';'')]"
  by (cases f rule: rev_cases; cases "last f") (auto simp: frame_ok_def open_tokens_def)

lemma flatten_attach:
  "frame_ok g \<Longrightarrow> flatten (butlast g @ [attach f (last g)])
    = open_tokens g @ [(TOKEN_TYPE_START_BLOCK, ''{'')] @ flatten f @ [(TOKEN_TYPE_END_BLOCK, ''}'')]"
  by (cases "last g") (auto simp: open_tokens_def frame_ok_def)

lemma wf_attach: "frame_ok g \<Longrightarrow> config_wf f \<Longrightarrow> config_wf (butlast g @ [attach f (last g)])"
  by (cases "last g") (auto simp: frame_ok_def)

lemma zip_step_sound:
  assumes ok: "frames_ok fs l" and step: "zip_step fs l t = ZContinue fs' l'"
    and ne: "fs' \<noteq> []" and can: "canonical t"
  shows "frames_ok fs' l' \<and> read_so_far fs' l' = read_so_far fs l @ [t]"
proof -
  obtain f r where fs: "fs = f # r" using ok by (cases fs) auto
  obtain ty tok where t: "t = (ty, tok)" by (cases t)
  show ?thesis
  proof (cases ty)
    case TOKEN_TYPE_NORMAL
    show ?thesis
    proof (cases "l = TOKEN_TYPE_NORMAL")
      case True
      with ok step fs t TOKEN_TYPE_NORMAL show ?thesis
        by (auto simp: frame_ok_def open_tokens_def add_token_eq)
    next
      case False
      with ok step fs t TOKEN_TYPE_NORMAL show ?thesis
        by (auto simp: frame_ok_def open_tokens_def between_def split: if_splits)
    qed
  next
    case TOKEN_TYPE_STATEMENT_END
    with ok step fs t can show ?thesis
      by (auto simp: between_def flatten_open frame_ok_wf frame_ok_nonempty split: if_splits)
  next
    case TOKEN_TYPE_START_BLOCK
    with ok step fs t can show ?thesis
      by (auto simp: between_def open_block_def split: if_splits)
  next
    case TOKEN_TYPE_END_BLOCK
    with ok step fs t can ne obtain g r' where "r = g # r'"
      by (cases r) (auto split: if_splits)
    with ok step fs t can TOKEN_TYPE_END_BLOCK show ?thesis
      by (auto simp: between_def flatten_attach wf_attach open_blocks_snoc open_block_def simp del: map_append concat_append list_all_append
          split: if_splits)
  qed (use step t fs in \<open>auto split: list.splits if_splits\<close>)
qed

lemma zip_run_Nil_fails: "zip_run [] l ts \<noteq> ZSuccess c"
proof (induction ts arbitrary: l)
  case (Cons t ts)
  obtain ty tok where "t = (ty, tok)" by (cases t)
  with Cons.IH show ?case by (cases ty) simp_all
qed simp

lemma zip_run_sound:
  "frames_ok fs l \<Longrightarrow> list_all canonical ts \<Longrightarrow> zip_run fs l ts = ZSuccess c \<Longrightarrow>
   \<exists>us v ws. ts = us @ (TOKEN_TYPE_EOF, v) # ws \<and> read_so_far fs l @ us = flatten c
     \<and> config_wf c \<and> c \<noteq> []"
proof (induction ts arbitrary: fs l)
  case Nil
  then show ?case by simp
next
  case (Cons t ts)
  show ?case
  proof (cases "zip_step fs l t")
    case (ZContinue fs' l')
    with Cons.prems have run: "zip_run fs' l' ts = ZSuccess c" by simp
    then have ne: "fs' \<noteq> []" using zip_run_Nil_fails by blast
    have "canonical t" "list_all canonical ts" using Cons.prems(2) by simp_all
    from zip_step_sound [OF Cons.prems(1) ZContinue ne this(1)]
    have "frames_ok fs' l'" and rd: "read_so_far fs' l' = read_so_far fs l @ [t]" by simp_all
    from Cons.IH [OF this(1) \<open>list_all canonical ts\<close> run] obtain us v ws where
      "ts = us @ (TOKEN_TYPE_EOF, v) # ws" "read_so_far fs' l' @ us = flatten c" "config_wf c" "c \<noteq> []"
      by blast
    with rd show ?thesis
      by (intro exI [of _ "t # us"] exI [of _ v] exI [of _ ws]) simp
  next
    case (ZSuccess c')
    obtain ty tok where t: "t = (ty, tok)" by (cases t)
    with ZSuccess have ty: "ty = TOKEN_TYPE_EOF"
      by (cases ty) (auto split: if_splits list.splits)
    with ZSuccess t Cons.prems(3) have fs: "fs = [c]"
      and l: "l = TOKEN_TYPE_STATEMENT_END \<or> l = TOKEN_TYPE_END_BLOCK"
      by (auto split: if_splits list.splits)
    with Cons.prems(1) t ty show ?thesis
      by (intro exI [of _ "[]"] exI [of _ tok] exI [of _ ts]) (auto split: if_splits)
  qed (use Cons.prems in simp_all)
qed

subsection \<open>The lexer's tokens\<close>

lemma token_loop_canonical:
  "token_loop st v s = (ty, tok, i) \<Longrightarrow> canonical (ty, tok)"
proof (induction s arbitrary: st v)
  case (Cons c s)
  then show ?case by (cases st) (auto split: if_splits)
qed (auto split: if_splits)

lemma lex_all_canonical: "list_all canonical (lex_all input)"
proof (induction input rule: lex_all.induct)
  case (1 input)
  obtain ty tok input' where tk: "ParseToken input [] = (ty, tok, input')"
    by (cases "ParseToken input []")
  then have "canonical (ty, tok)"
    by (auto simp: ParseToken_def split: if_splits dest: token_loop_canonical)
  with tk 1 show ?case by (auto simp: lex_all.simps [of input])
qed

text \<open>The stream ends with its only \<open>EOF\<close> or \<open>ERROR\<close> token.\<close>

definition final_token :: "token \<Rightarrow> bool" where
  "final_token t \<longleftrightarrow> fst t \<in> {TOKEN_TYPE_EOF, TOKEN_TYPE_ERROR}"

lemma lex_all_final:
  "\<exists>us t. lex_all input = us @ [t] \<and> final_token t \<and> (\<forall>u \<in> set us. \<not> final_token u)"
proof (induction input rule: lex_all.induct)
  case (1 input)
  obtain ty tok input' where tk: "ParseToken input [] = (ty, tok, input')"
    by (cases "ParseToken input []")
  consider "ty \<in> {TOKEN_TYPE_EOF, TOKEN_TYPE_ERROR}" | "ty = TOKEN_TYPE_COMMENT"
    | "ty \<notin> {TOKEN_TYPE_EOF, TOKEN_TYPE_ERROR, TOKEN_TYPE_COMMENT}" by blast
  then show ?case
  proof cases
    case 1
    with tk show ?thesis
      by (intro exI [of _ "[]"]) (auto simp: lex_all.simps [of input] final_token_def)
  next
    case 2
    with tk "1.IH"(1) [OF tk [symmetric] refl] show ?thesis
      by (simp add: lex_all.simps [of input])
  next
    case 3
    then obtain us t where "lex_all input' = us @ [t]" "final_token t" "\<forall>u \<in> set us. \<not> final_token u"
      using "1.IH"(2) [OF tk [symmetric] refl] by auto
    with tk 3 show ?thesis
      by (intro exI [of _ "(ty, tok) # us"] exI [of _ t])
        (auto simp: lex_all.simps [of input] final_token_def)
  qed
qed

lemma lex_all_EOF_last: "lex_all input = us @ (TOKEN_TYPE_EOF, v) # ws \<Longrightarrow> ws = []"
proof -
  assume eq: "lex_all input = us @ (TOKEN_TYPE_EOF, v) # ws"
  obtain vs t where vs: "lex_all input = vs @ [t]" "\<forall>u \<in> set vs. \<not> final_token u"
    using lex_all_final by blast
  show "ws = []"
  proof (rule ccontr)
    assume "ws \<noteq> []"
    with eq have "lex_all input = (us @ (TOKEN_TYPE_EOF, v) # butlast ws) @ [last ws]" by simp
    with vs(1) have "vs = us @ (TOKEN_TYPE_EOF, v) # butlast ws" by simp
    with vs(2) show False by (simp add: final_token_def)
  qed
qed

subsection \<open>What Parse accepts\<close>

lemma parse_success_iff:
  "abs_result (parse_loop input init_parse_state) = ZSuccess c \<longleftrightarrow>
   c \<noteq> [] \<and> config_wf c \<and> (\<exists>v. lex_all input = flatten c @ [(TOKEN_TYPE_EOF, v)])"
  (is "?run \<longleftrightarrow> ?spec")
proof
  assume ?run
  then have "zip_run [[]] TOKEN_TYPE_START (lex_all input) = ZSuccess c"
    by (simp add: parse_loop_refines)
  from zip_run_sound [OF _ lex_all_canonical this] show ?spec
    using lex_all_EOF_last by (fastforce simp: between_def)
next
  assume spec: ?spec
  then obtain v where "lex_all input = flatten c @ [(TOKEN_TYPE_EOF, v)]" by blast
  with spec show ?run
    by (auto simp: parse_loop_refines zip_run_append zip_run_config between_def after_stmts_def
        split: option.splits)
qed

lemma Parse_True_iff: "Parse input = Inr (True, c) \<longleftrightarrow> abs_result (parse_loop input init_parse_state) = ZSuccess c"
  by (auto simp: Parse_def split: parse_result.split)

subsection \<open>When Parse runs into the empty stack\<close>

lemma zip_step_Nil: "zip_step [] TOKEN_TYPE_END_BLOCK t = ZUB \<longleftrightarrow> fst t \<in> {TOKEN_TYPE_NORMAL, TOKEN_TYPE_END_BLOCK}"
  and zip_step_Nil_stops: "zip_step [] TOKEN_TYPE_END_BLOCK t \<noteq> ZContinue fs l"
  by (cases t; cases "fst t"; simp)+

lemma zip_step_no_UB: "frames_ok fs l \<Longrightarrow> zip_step fs l t \<noteq> ZUB"
proof (cases fs)
  case (Cons f r)
  assume ok: "frames_ok fs l"
  obtain ty tok where "t = (ty, tok)" by (cases t)
  with Cons ok show ?thesis
    by (cases ty) (auto simp: frame_ok_def split: list.splits)
qed simp

lemma zip_step_empties:
  assumes "frames_ok fs l" and "zip_step fs l t = ZContinue [] l'" and "canonical t"
  shows "t = (TOKEN_TYPE_END_BLOCK, ''}'') \<and> l' = TOKEN_TYPE_END_BLOCK \<and>
    (\<exists>f. fs = [f] \<and> f \<noteq> [] \<and> config_wf f \<and> read_so_far fs l = flatten f)"
proof -
  obtain f r where fs: "fs = f # r" using assms(1) by (cases fs) auto
  obtain ty tok where t: "t = (ty, tok)" by (cases t)
  with assms fs show ?thesis
    by (cases ty) (auto split: if_splits list.splits)
qed

lemma zip_run_UB_shape:
  "frames_ok fs l \<Longrightarrow> list_all canonical ts \<Longrightarrow> zip_run fs l ts = ZUB \<Longrightarrow>
   \<exists>us f t ws. ts = us @ (TOKEN_TYPE_END_BLOCK, ''}'') # t # ws \<and> read_so_far fs l @ us = flatten f
     \<and> config_wf f \<and> f \<noteq> [] \<and> fst t \<in> {TOKEN_TYPE_NORMAL, TOKEN_TYPE_END_BLOCK}"
proof (induction ts arbitrary: fs l)
  case Nil
  then show ?case by simp
next
  case (Cons t ts)
  have can: "canonical t" "list_all canonical ts" using Cons.prems(2) by simp_all
  show ?case
  proof (cases "zip_step fs l t")
    case (ZContinue fs' l')
    with Cons.prems have run: "zip_run fs' l' ts = ZUB" by simp
    show ?thesis
    proof (cases "fs' = []")
      case True
      from zip_step_empties [OF Cons.prems(1) ZContinue [unfolded True] can(1)]
      obtain f where t: "t = (TOKEN_TYPE_END_BLOCK, ''}'')" and l': "l' = TOKEN_TYPE_END_BLOCK"
        and f: "fs = [f]" "f \<noteq> []" "config_wf f" "read_so_far fs l = flatten f" by blast
      obtain u ws where ts: "ts = u # ws" using run by (cases ts) auto
      have "fst u \<in> {TOKEN_TYPE_NORMAL, TOKEN_TYPE_END_BLOCK}"
        using run True l' ts zip_step_Nil [of u] zip_step_Nil_stops [of u]
        by (cases "zip_step [] TOKEN_TYPE_END_BLOCK u") auto
      with t f ts show ?thesis
        by (intro exI [of _ "[]"] exI [of _ f] exI [of _ u] exI [of _ ws]) auto
    next
      case False
      from zip_step_sound [OF Cons.prems(1) ZContinue this can(1)]
      have "frames_ok fs' l'" and rd: "read_so_far fs' l' = read_so_far fs l @ [t]" by simp_all
      from Cons.IH [OF this(1) can(2) run] obtain us f u ws where
        "ts = us @ (TOKEN_TYPE_END_BLOCK, ''}'') # u # ws" "read_so_far fs' l' @ us = flatten f"
        "config_wf f" "f \<noteq> []" "fst u \<in> {TOKEN_TYPE_NORMAL, TOKEN_TYPE_END_BLOCK}"
        by blast
      with rd show ?thesis
        by (intro exI [of _ "t # us"] exI [of _ f] exI [of _ u] exI [of _ ws]) simp
    qed
  next
    case ZUB
    with zip_step_no_UB [OF Cons.prems(1)] show ?thesis by simp
  qed (use Cons.prems in simp_all)
qed

lemma zip_run_UB_iff:
  assumes "list_all canonical ts"
  shows "zip_run [[]] TOKEN_TYPE_START ts = ZUB \<longleftrightarrow>
    (\<exists>c t ws. ts = flatten c @ (TOKEN_TYPE_END_BLOCK, ''}'') # t # ws \<and> config_wf c \<and> c \<noteq> []
       \<and> fst t \<in> {TOKEN_TYPE_NORMAL, TOKEN_TYPE_END_BLOCK})"
    (is "?ub \<longleftrightarrow> ?shape")
proof
  assume ?ub
  from zip_run_UB_shape [OF _ assms this] show ?shape by (fastforce simp: between_def)
next
  assume ?shape
  then obtain c t ws where ts: "ts = flatten c @ (TOKEN_TYPE_END_BLOCK, ''}'') # t # ws"
    and c: "config_wf c" "c \<noteq> []" and t: "fst t \<in> {TOKEN_TYPE_NORMAL, TOKEN_TYPE_END_BLOCK}"
    by blast
  have "after_stmts c TOKEN_TYPE_START \<in> {TOKEN_TYPE_STATEMENT_END, TOKEN_TYPE_END_BLOCK}"
    using c by (simp add: after_stmts_def split: option.split)
  with ts c t zip_step_Nil [of t] show ?ub
    by (auto simp: zip_run_append zip_run_config between_def simp del: zip_step.simps(1)
        split: zip_result.splits)
qed

subsection \<open>Printing and reading back\<close>

definition plain_start :: "char \<Rightarrow> bool" where
  "plain_start c \<longleftrightarrow>
     c \<notin> {CHR ''{'', CHR ''}'', CHR ''#'', CHR 0x22, CHR 0x27, CHR '';'', CHR '' '', CHR 0x09, newline, CHR 0x0D}"

definition plain_token :: "string \<Rightarrow> bool" where
  "plain_token t \<longleftrightarrow> (case t of [] \<Rightarrow> False | c # cs \<Rightarrow> plain_start c \<and> list_all (\<lambda>d. \<not> ends_normal d) cs)"

definition quoted_token :: "char \<Rightarrow> string \<Rightarrow> bool" where
  "quoted_token q t \<longleftrightarrow> length t \<ge> 2 \<and> hd t = q \<and> last t = q \<and> q \<notin> set (butlast (tl t))"

definition token_ok :: "string \<Rightarrow> bool" where
  "token_ok t \<longleftrightarrow> plain_token t \<or> quoted_token (CHR 0x22) t \<or> quoted_token (CHR 0x27) t"

fun stmt_tokens_ok :: "nginx_statement \<Rightarrow> bool" where
  "stmt_tokens_ok (NginxConfigStatement ts None) = list_all token_ok ts"
| "stmt_tokens_ok (NginxConfigStatement ts (Some c)) =
     (list_all token_ok ts \<and> list_all stmt_tokens_ok c)"

abbreviation lex :: "string \<Rightarrow> token list" where
  "lex s \<equiv> lex_all (open_stream s)"

lemma ParseToken_open: "ParseToken (open_stream s) v = token_loop TOKEN_STATE_INITIAL_WHITESPACE v s"
  by (simp add: ParseToken_def open_stream_def)

lemma open_stream_fold: "\<lparr>rest = s, good = True\<rparr> = open_stream s"
  by (simp add: open_stream_def)

lemma lex_Nil: "lex [] = [(TOKEN_TYPE_EOF, [])]"
  by (simp add: lex_all.simps [of "open_stream _"] ParseToken_open)

lemma lex_white: "c \<in> {CHR '' '', CHR 0x09, newline, CHR 0x0D} \<Longrightarrow> lex (c # s) = lex s"
  by (auto simp: lex_all.simps [of "open_stream _"] ParseToken_open newline_def)

lemma lex_indent [simp]: "lex (indent d @ s) = lex s"
  by (induction d) (simp_all add: lex_white)

lemma lex_punct:
  "lex (CHR '';'' # s) = (TOKEN_TYPE_STATEMENT_END, '';'') # lex s"
  "lex (CHR ''{'' # s) = (TOKEN_TYPE_START_BLOCK, ''{'') # lex s"
  "lex (CHR ''}'' # s) = (TOKEN_TYPE_END_BLOCK, ''}'') # lex s"
  by (simp_all add: lex_all.simps [of "open_stream (_ # _)"] ParseToken_open open_stream_fold)

lemma token_loop_plain_rest:
  "list_all (\<lambda>d. \<not> ends_normal d) cs \<Longrightarrow> ends_normal d \<Longrightarrow>
   token_loop TOKEN_STATE_TOKEN_TYPE_NORMAL v (cs @ d # s) = (TOKEN_TYPE_NORMAL, v @ cs, open_stream (d # s))"
  by (induction cs arbitrary: v) (simp_all add: open_stream_def)

lemma token_loop_plain:
  "plain_token t \<Longrightarrow> ends_normal d \<Longrightarrow>
   token_loop TOKEN_STATE_INITIAL_WHITESPACE [] (t @ d # s) = (TOKEN_TYPE_NORMAL, t, open_stream (d # s))"
  by (cases t) (simp_all add: plain_token_def plain_start_def token_loop_plain_rest)

lemma token_loop_double:
  "CHR 0x22 \<notin> set xs \<Longrightarrow>
   token_loop TOKEN_STATE_DOUBLE_QUOTE v (xs @ CHR 0x22 # s) = (TOKEN_TYPE_NORMAL, v @ xs @ [CHR 0x22], open_stream s)"
  by (induction xs arbitrary: v) (auto simp: open_stream_def)

lemma token_loop_single:
  "CHR 0x27 \<notin> set xs \<Longrightarrow>
   token_loop TOKEN_STATE_SINGLE_QUOTE v (xs @ CHR 0x27 # s) = (TOKEN_TYPE_NORMAL, v @ xs @ [CHR 0x27], open_stream s)"
  by (induction xs arbitrary: v) (auto simp: open_stream_def)

lemma quoted_token_split:
  assumes "quoted_token q t"
  obtains xs where "t = q # xs @ [q]" and "q \<notin> set xs"
proof
  show "t = q # butlast (tl t) @ [q]"
    using assms by (cases t; cases "tl t" rule: rev_cases) (auto simp: quoted_token_def)
  show "q \<notin> set (butlast (tl t))" using assms by (simp add: quoted_token_def)
qed

lemma token_loop_token:
  assumes "token_ok t" and "ends_normal d"
  shows "token_loop TOKEN_STATE_INITIAL_WHITESPACE [] (t @ d # s) = (TOKEN_TYPE_NORMAL, t, open_stream (d # s))"
proof -
  consider "plain_token t" | "quoted_token (CHR 0x22) t" | "quoted_token (CHR 0x27) t"
    using assms(1) by (auto simp: token_ok_def)
  then show ?thesis
  proof cases
    case 1
    then show ?thesis using assms(2) by (rule token_loop_plain)
  next
    case 2
    then show ?thesis by (rule quoted_token_split) (simp add: token_loop_double)
  next
    case 3
    then show ?thesis by (rule quoted_token_split) (simp add: token_loop_single)
  qed
qed

lemma lex_token: "token_ok t \<Longrightarrow> ends_normal d \<Longrightarrow> lex (t @ d # s) = (TOKEN_TYPE_NORMAL, t) # lex (d # s)"
  by (simp add: lex_all.simps [of "open_stream (t @ _)"] ParseToken_open token_loop_token)

lemma lex_tokens:
  "list_all token_ok ts \<Longrightarrow> ts \<noteq> [] \<Longrightarrow> ends_normal d \<Longrightarrow>
   lex (join_tokens ts @ d # s) = map (Pair TOKEN_TYPE_NORMAL) ts @ lex (d # s)"
proof (induction ts rule: join_tokens.induct)
  case (3 t u us)
  have sp: "ends_normal (CHR '' '')" by (simp add: ends_normal_def)
  from 3 show ?case by (simp add: lex_token sp lex_white)
qed (simp_all add: lex_token)

lemma lex_concat:
  "(\<And>x s. x \<in> set c \<Longrightarrow> lex (pr x @ s) = flatten_stmt x @ lex s) \<Longrightarrow>
   lex (concat (map pr c) @ s) = flatten c @ lex s"
  by (induction c) simp_all

lemma lex_statement:
  "stmt_wf st \<Longrightarrow> stmt_tokens_ok st \<Longrightarrow> lex (statement_ToString d st @ s) = flatten_stmt st @ lex s"
proof (induction d st arbitrary: s rule: statement_ToString.induct)
  case (1 d ts)
  have sc: "ends_normal (CHR '';'')" by (simp add: ends_normal_def)
  from 1 show ?case by (simp add: lex_tokens sc lex_punct lex_white)
next
  case (2 d ts c)
  have sp: "ends_normal (CHR '' '')" by (simp add: ends_normal_def)
  have inner: "lex (concat (map (statement_ToString (Suc d)) c) @ r) = flatten c @ lex r" for r
    by (rule lex_concat) (use 2 in \<open>auto simp: list_all_iff\<close>)
  from 2 show ?case by (simp add: lex_tokens sp lex_punct lex_white inner)
qed

lemma lex_config:
  "config_wf c \<Longrightarrow> list_all stmt_tokens_ok c \<Longrightarrow> lex (config_ToString d c @ s) = flatten c @ lex s"
  unfolding config_ToString_def by (rule lex_concat) (auto simp: list_all_iff lex_statement)

text \<open>Conversely, every \<open>NORMAL\<close> token the lexer produces is one that prints back.\<close>

fun loop_inv :: "token_state \<Rightarrow> string \<Rightarrow> bool" where
  "loop_inv TOKEN_STATE_INITIAL_WHITESPACE v = (v = [])"
| "loop_inv TOKEN_STATE_SINGLE_QUOTE v = (v \<noteq> [] \<and> hd v = CHR 0x27 \<and> CHR 0x27 \<notin> set (tl v))"
| "loop_inv TOKEN_STATE_DOUBLE_QUOTE v = (v \<noteq> [] \<and> hd v = CHR 0x22 \<and> CHR 0x22 \<notin> set (tl v))"
| "loop_inv TOKEN_STATE_TOKEN_TYPE_NORMAL v = plain_token v"
| "loop_inv TOKEN_STATE_TOKEN_TYPE_COMMENT v = True"

lemma quoted_token_snoc: "v \<noteq> [] \<Longrightarrow> hd v = q \<Longrightarrow> q \<notin> set (tl v) \<Longrightarrow> quoted_token q (v @ [q])"
  by (cases v) (auto simp: quoted_token_def)

lemma plain_token_snoc: "plain_token v \<Longrightarrow> \<not> ends_normal c \<Longrightarrow> plain_token (v @ [c])"
  by (cases v) (simp_all add: plain_token_def)

lemma token_loop_ok:
  "loop_inv st v \<Longrightarrow> token_loop st v s = (TOKEN_TYPE_NORMAL, t, i) \<Longrightarrow> token_ok t"
proof (induction s arbitrary: st v)
  case Nil
  then show ?case by (simp split: if_splits)
next
  case (Cons c s)
  show ?case
  proof (cases st)
    case TOKEN_STATE_INITIAL_WHITESPACE
    with Cons.prems Cons.IH [of TOKEN_STATE_TOKEN_TYPE_COMMENT "[c]"]
      Cons.IH [of TOKEN_STATE_DOUBLE_QUOTE "[c]"] Cons.IH [of TOKEN_STATE_SINGLE_QUOTE "[c]"]
      Cons.IH [of TOKEN_STATE_INITIAL_WHITESPACE "[]"] Cons.IH [of TOKEN_STATE_TOKEN_TYPE_NORMAL "[c]"]
    show ?thesis by (simp add: plain_token_def plain_start_def split: if_splits)
  next
    case TOKEN_STATE_SINGLE_QUOTE
    with Cons.prems Cons.IH [of st "v @ [c]"] quoted_token_snoc [of v "CHR 0x27"] show ?thesis
      by (auto simp: token_ok_def [of "v @ _"] split: if_splits)
  next
    case TOKEN_STATE_DOUBLE_QUOTE
    with Cons.prems Cons.IH [of st "v @ [c]"] quoted_token_snoc [of v "CHR 0x22"] show ?thesis
      by (auto simp: token_ok_def [of "v @ _"] split: if_splits)
  next
    case TOKEN_STATE_TOKEN_TYPE_COMMENT
    with Cons.prems show ?thesis by (auto split: if_splits intro: Cons.IH [rotated])
  next
    case TOKEN_STATE_TOKEN_TYPE_NORMAL
    with Cons.prems Cons.IH [of st "v @ [c]"] plain_token_snoc [of v c] show ?thesis
      by (auto simp: token_ok_def [of v] split: if_splits) (auto simp: token_ok_def)
  qed
qed

lemma lex_all_token_ok: "(TOKEN_TYPE_NORMAL, t) \<in> set (lex_all input) \<Longrightarrow> token_ok t"
proof (induction input rule: lex_all.induct)
  case (1 input)
  obtain ty tok input' where tk: "ParseToken input [] = (ty, tok, input')"
    by (cases "ParseToken input []")
  have "ty = TOKEN_TYPE_NORMAL \<Longrightarrow> token_ok tok"
    using tk token_loop_ok [of TOKEN_STATE_INITIAL_WHITESPACE "[]" "rest input" tok input']
    by (auto simp: ParseToken_def split: if_splits)
  with "1.prems" "1.IH" [OF tk [symmetric] refl] tk show ?case
    by (auto simp: lex_all.simps [of input] split: if_splits)
qed

lemma flatten_tokens_ok:
  "(\<And>t. (TOKEN_TYPE_NORMAL, t) \<in> set (flatten_stmt s) \<Longrightarrow> token_ok t) \<Longrightarrow> stmt_tokens_ok s"
proof (induction s rule: flatten_stmt.induct)
  case (1 ts)
  then show ?case by (auto simp: list_all_iff)
next
  case (2 ts c)
  have "stmt_tokens_ok x" if "x \<in> set c" for x
    by (rule "2.IH" [OF that]) (use that in \<open>auto intro!: "2.prems"\<close>)
  moreover have "token_ok t" if "t \<in> set ts" for t
    using that by (intro "2.prems") auto
  ultimately show ?case by (auto simp: list_all_iff)
qed

lemma flatten_config_tokens_ok:
  "set (flatten c) \<subseteq> set (lex_all input) \<Longrightarrow> list_all stmt_tokens_ok c"
  by (auto simp: list_all_iff intro!: flatten_tokens_ok lex_all_token_ok [of _ input])

lemma Parse_lexed:
  "c \<noteq> [] \<Longrightarrow> config_wf c \<Longrightarrow> lex_all input = flatten c @ [(TOKEN_TYPE_EOF, v)] \<Longrightarrow>
   Parse input = Inr (True, c)"
  unfolding Parse_True_iff parse_success_iff by blast

subsection \<open>Properties\<close>

text \<open>
  C12: the parser refines a parser with no heap. On every input, the loop of \<open>Parse\<close>, with its
  configuration objects mutated through the stack of pointers, ends the way the parser on a
  list of open blocks does on the token stream: same success with the same tree, same
  rejection, same undefined behaviour.
\<close>

theorem Parse_refines_zip:
  "abs_result (parse_loop input init_parse_state) = zip_run [[]] TOKEN_TYPE_START (lex_all input)"
  by (rule parse_loop_refines)

text \<open>
  C18: what \<open>Parse\<close> accepts and returns, exactly. It returns true with configuration \<open>c\<close> if
  and only if \<open>c\<close> has a statement, every statement of it at every depth has a token, and the
  tokens of the input without comments are the tokens of \<open>c\<close> written out, then the end of file.
\<close>

theorem Parse_accepts_iff:
  "Parse input = Inr (True, c) \<longleftrightarrow>
   c \<noteq> [] \<and> config_wf c \<and> (\<exists>v. lex_all input = flatten c @ [(TOKEN_TYPE_EOF, v)])"
  by (simp only: Parse_True_iff parse_success_iff)

text \<open>
  C38: when \<open>Parse\<close> is undefined, exactly. It calls \<open>top()\<close> or \<open>pop()\<close> on an empty stack if and
  only if a complete, non-empty configuration is followed by a surplus closing brace and then
  by a word or by another closing brace.
\<close>

theorem Parse_undefined_iff:
  "(\<exists>m. Parse input = Inl (Undefined_behaviour m)) \<longleftrightarrow>
   (\<exists>c t ts. lex_all input = flatten c @ (TOKEN_TYPE_END_BLOCK, ''}'') # t # ts \<and> config_wf c \<and>
      c \<noteq> [] \<and> fst t \<in> {TOKEN_TYPE_NORMAL, TOKEN_TYPE_END_BLOCK})"
proof -
  have "(\<exists>m. Parse input = Inl (Undefined_behaviour m))
      \<longleftrightarrow> abs_result (parse_loop input init_parse_state) = ZUB"
    by (auto simp: Parse_def split: parse_result.split)
  then show ?thesis
    by (simp add: parse_loop_refines zip_run_UB_iff [OF lex_all_canonical])
qed

text \<open>
  C23: printing and parsing are inverse. Every configuration whose statements have tokens, and
  whose tokens are plain words or quoted strings, is what \<open>Parse\<close> returns for the text
  \<open>ToString\<close> prints, at any indentation.
\<close>

theorem Parse_ToString:
  assumes "c \<noteq> []" and "config_wf c" and "list_all stmt_tokens_ok c"
  shows "Parse (open_stream (config_ToString depth c)) = Inr (True, c)"
  using lex_config [OF assms(2,3), of depth "[]"] assms(1,2)
  by (intro Parse_lexed [of c _ "[]"]) (simp_all add: lex_Nil)

definition sample_config :: nginx_config where
  "sample_config =
     [NginxConfigStatement [''server'']
        (Some [NginxConfigStatement [''listen'', ''80''] None,
               NginxConfigStatement [''location'', ''/echo'', ''EchoHandler''] (Some [])])]"

lemmas token_eval = token_ok_def plain_token_def plain_start_def ends_normal_def newline_def

theorem Parse_ToString_witness:
  "Parse (open_stream (config_ToString 0 sample_config)) = Inr (True, sample_config)"
  by (rule Parse_ToString) (simp_all add: sample_config_def token_eval)

text \<open>
  C39: what was parsed can be printed and parsed again. Whatever text \<open>Parse\<close> accepted, with its
  comments, quotes and layout, printing the result gives a text that parses to the same
  configuration.
\<close>

theorem Parse_reprint:
  assumes "Parse input = Inr (True, c)"
  shows "Parse (open_stream (config_ToString depth c)) = Inr (True, c)"
proof -
  from assms obtain v where c: "c \<noteq> []" "config_wf c"
    and lex: "lex_all input = flatten c @ [(TOKEN_TYPE_EOF, v)]"
    unfolding Parse_True_iff parse_success_iff by blast
  have "list_all stmt_tokens_ok c"
    by (rule flatten_config_tokens_ok [of c input]) (auto simp: lex)
  with c lex_config [of c depth "[]"] show ?thesis
    by (intro Parse_lexed [of c _ "[]"]) (simp_all add: lex_Nil)
qed

lemmas lex_eval = lex_all.simps [of "open_stream _"] ParseToken_open open_stream_fold newline_def
  ends_normal_def

definition sample_text :: string where
  "sample_text = ''foo '' @ [CHR 0x27] @ ''b r'' @ [CHR 0x27] @ '' ; #x;'' @ [newline] @ ''  c {}''"

definition sample_parsed :: nginx_config where
  "sample_parsed =
     [NginxConfigStatement [''foo'', [CHR 0x27, CHR ''b'', CHR '' '', CHR ''r'', CHR 0x27]] None,
      NginxConfigStatement [''c''] (Some [])]"

lemma sample_text_parses: "Parse (open_stream sample_text) = Inr (True, sample_parsed)"
  by (rule Parse_lexed [of _ _ "[]"]) (simp_all add: sample_text_def sample_parsed_def lex_eval)

theorem Parse_reprint_witness:
  "Parse (open_stream (config_ToString 1 sample_parsed)) = Inr (True, sample_parsed)"
  by (rule Parse_reprint [OF sample_text_parses])

text \<open>
  A word cut off by the end of the file disappears. When a plain word with no separator
  after it ends the file, \<open>Parse\<close> succeeds and returns the configuration without the word.
\<close>

lemma Parse_drops_last_word:
  assumes "Parse input = Inr (True, c)" and "plain_token w"
  shows "Parse (open_stream (config_ToString 0 c @ w)) = Inr (True, c)"
proof -
  from assms(1) obtain v where c: "c \<noteq> []" "config_wf c"
    and lex: "lex_all input = flatten c @ [(TOKEN_TYPE_EOF, v)]"
    unfolding Parse_True_iff parse_success_iff by blast
  have ok: "list_all stmt_tokens_ok c"
    by (rule flatten_config_tokens_ok [of c input]) (auto simp: lex)
  have loop: "list_all (\<lambda>d. \<not> ends_normal d) cs \<Longrightarrow>
      token_loop TOKEN_STATE_TOKEN_TYPE_NORMAL u cs = (TOKEN_TYPE_EOF, u @ cs, \<lparr>rest = [], good = False\<rparr>)"
    for u cs by (induction cs arbitrary: u) simp_all
  have "lex w = [(TOKEN_TYPE_EOF, w)]"
    using assms(2)
    by (cases w)
      (simp_all add: lex_all.simps [of "open_stream _"] ParseToken_open plain_token_def
        plain_start_def loop)
  with c lex_config [OF c(2) ok, of 0 w] show ?thesis
    by (intro Parse_lexed [of c _ w]) simp_all
qed

lemma Parse_drops_last_word_witness:
  "Parse (open_stream (config_ToString 0 sample_parsed @ ''listen'')) = Inr (True, sample_parsed)"
  by (rule Parse_drops_last_word [OF sample_text_parses]) (simp add: token_eval)

text \<open>
  The separator test names the tab twice and the carriage return never, so a carriage return
  inside a statement becomes part of the word instead of ending it.
\<close>

lemma carriage_return_joins_words:
  "Parse (open_stream (''listen'' @ [CHR 0x0D] @ ''80;''))
     = Inr (True, [NginxConfigStatement [''listen'' @ [CHR 0x0D] @ ''80''] None])"
  by (rule Parse_lexed [of _ _ "[]"]) (simp_all add: lex_eval)

text \<open>A closing brace too many, then another word: the undefined case is a real input.\<close>

lemma surplus_brace_undefined:
  "Parse (open_stream ''a; } b;'') = Inl (Undefined_behaviour ''config_stack'')"
proof -
  have "lex_all (open_stream ''a; } b;'')
      = flatten [NginxConfigStatement [''a''] None] @ (TOKEN_TYPE_END_BLOCK, ''}'')
        # (TOKEN_TYPE_NORMAL, ''b'') # [(TOKEN_TYPE_STATEMENT_END, '';''), (TOKEN_TYPE_EOF, [])]"
    by (simp add: lex_eval)
  then have "abs_result (parse_loop (open_stream ''a; } b;'') init_parse_state) = ZUB"
    unfolding parse_loop_refines zip_run_UB_iff [OF lex_all_canonical] by fastforce
  then show ?thesis by (auto simp: Parse_def split: parse_result.splits)
qed

end
