(* ===== verification/Logging.thy ===== *)
theory Logging
  imports Dinner_Prelude
begin

text \<open>
  The double-buffered log of \<open>logging_buffer.h\<close> and \<open>logging_buffer.cc\<close>, and the logging
  thread of \<open>server.cc\<close>. The first part is the class \<open>LoggingBuffer\<close> as its operations change
  its fields when each runs alone. The second part is the concurrent system: request threads
  call \<open>addToBuffer\<close> at any moment while the one logging thread runs \<open>server::handle_logging\<close>,
  each access to the shared queues being one step.
\<close>

subsection \<open>The class LoggingBuffer\<close>

datatype log_severity = INFO | ERROR | FATAL

type_synonym buffer_entry = "log_severity \<times> string"

text \<open>The pointers \<open>buffer1_\<close> and \<open>buffer2_\<close>, and which of them \<open>available_buffer_\<close> holds.\<close>

datatype queue_ref = Buffer1 | Buffer2

record logging_buffer =
  available_buffer :: queue_ref
  buffer1 :: "buffer_entry list"
  buffer2 :: "buffer_entry list"
  available_buffer_index :: int

definition new_LoggingBuffer :: "buffer_entry list \<Rightarrow> buffer_entry list \<Rightarrow> logging_buffer" where
  "new_LoggingBuffer q1 q2 =
     \<lparr>available_buffer = Buffer1, buffer1 = q1, buffer2 = q2, available_buffer_index = 1\<rparr>"

fun get_queue :: "queue_ref \<Rightarrow> logging_buffer \<Rightarrow> buffer_entry list" where
  "get_queue Buffer1 b = buffer1 b"
| "get_queue Buffer2 b = buffer2 b"

fun set_queue :: "queue_ref \<Rightarrow> buffer_entry list \<Rightarrow> logging_buffer \<Rightarrow> logging_buffer" where
  "set_queue Buffer1 q b = b\<lparr>buffer1 := q\<rparr>"
| "set_queue Buffer2 q b = b\<lparr>buffer2 := q\<rparr>"

fun other_queue :: "queue_ref \<Rightarrow> queue_ref" where
  "other_queue Buffer1 = Buffer2"
| "other_queue Buffer2 = Buffer1"

definition addToBuffer :: "log_severity \<Rightarrow> string \<Rightarrow> logging_buffer \<Rightarrow> bool \<times> logging_buffer" where
  "addToBuffer severity message b =
     (True, set_queue (available_buffer b)
              (get_queue (available_buffer b) b @ [(severity, message)]) b)"

text \<open>The \<open>switch\<close> on \<open>available_buffer_index_\<close>, under the lock.\<close>

definition switch_buffer :: "logging_buffer \<Rightarrow> logging_buffer" where
  "switch_buffer b =
     (if available_buffer_index b = 1
      then b\<lparr>available_buffer := Buffer2, available_buffer_index := 2\<rparr>
      else if available_buffer_index b = 2
      then b\<lparr>available_buffer := Buffer1, available_buffer_index := 1\<rparr>
      else b)"

text \<open>The loop that pops the captured queue and hands each entry to the log.\<close>

fun drain :: "buffer_entry list \<Rightarrow> buffer_entry list \<Rightarrow> buffer_entry list" where
  "drain logged [] = logged"
| "drain logged (e # q) = drain (logged @ [e]) q"

text \<open>
  \<open>writeToLog\<close> returns its result, the entries it logged, whether it slept for
  \<open>WAIT_TIME\<close>, and the buffer it leaves.
\<close>

definition writeToLog :: "logging_buffer \<Rightarrow> bool \<times> buffer_entry list \<times> bool \<times> logging_buffer" where
  "writeToLog b =
     (if get_queue (available_buffer b) b \<noteq> [] then
        (let queue = available_buffer b;
             b1 = switch_buffer b;
             logged = drain [] (get_queue queue b1)
         in (True, logged, False, set_queue queue [] b1))
      else (True, [], True, b))"

definition buffer_empty :: "logging_buffer \<Rightarrow> bool" where
  "buffer_empty b \<longleftrightarrow> buffer1 b = [] \<and> buffer2 b = []"

subsection \<open>Lemmas on the class\<close>

lemma get_set_queue [simp]:
  "get_queue q (set_queue q xs b) = xs"
  "get_queue (other_queue q) (set_queue q xs b) = get_queue (other_queue q) b"
  "get_queue q (set_queue (other_queue q) xs b) = get_queue q b"
  by (cases q; simp)+

lemma other_queue_neq [simp]: "other_queue q \<noteq> q" "q \<noteq> other_queue q" "other_queue (other_queue q) = q"
  by (cases q; simp)+

lemma set_queue_fields [simp]:
  "available_buffer (set_queue q xs b) = available_buffer b"
  "available_buffer_index (set_queue q xs b) = available_buffer_index b"
  by (cases q; simp)+

lemma get_set_queue_neq [simp]: "q' \<noteq> q \<Longrightarrow> get_queue q' (set_queue q xs b) = get_queue q' b"
  by (cases q; cases q') simp_all

lemma drain_eq [simp]: "drain logged q = logged @ q"
  by (induction q arbitrary: logged) auto

lemma get_queue_switch [simp]: "get_queue q (switch_buffer b) = get_queue q b"
  by (cases q) (simp_all add: switch_buffer_def)

lemma buffer_empty_queues: "buffer_empty b \<longleftrightarrow> (\<forall>q. get_queue q b = [])"
  by (metis buffer_empty_def get_queue.simps queue_ref.exhaust)

text \<open>
  The representation invariant: the index names the available queue. Between two calls
  of \<open>writeToLog\<close> the other queue is empty as well.
\<close>

definition index_ok :: "logging_buffer \<Rightarrow> bool" where
  "index_ok b \<longleftrightarrow>
     (available_buffer b = Buffer1 \<and> available_buffer_index b = 1) \<or>
     (available_buffer b = Buffer2 \<and> available_buffer_index b = 2)"

definition lb_ok :: "logging_buffer \<Rightarrow> bool" where
  "lb_ok b \<longleftrightarrow> index_ok b \<and> get_queue (other_queue (available_buffer b)) b = []"

definition pending :: "logging_buffer \<Rightarrow> buffer_entry list" where
  "pending b = get_queue (other_queue (available_buffer b)) b @ get_queue (available_buffer b) b"

lemma index_ok_switch: "index_ok b \<Longrightarrow> index_ok (switch_buffer b)"
  by (auto simp: index_ok_def switch_buffer_def)

lemma available_switch: "index_ok b \<Longrightarrow> available_buffer (switch_buffer b) = other_queue (available_buffer b)"
  by (auto simp: index_ok_def switch_buffer_def)

lemma index_ok_set_queue [simp]: "index_ok (set_queue q xs b) = index_ok b"
  by (simp add: index_ok_def)

lemma lb_ok_new: "lb_ok (new_LoggingBuffer q [])"
  by (simp add: lb_ok_def index_ok_def new_LoggingBuffer_def)

lemma lb_ok_add: "lb_ok b \<Longrightarrow> lb_ok (snd (addToBuffer sev msg b))"
  by (simp add: lb_ok_def addToBuffer_def)

lemma pending_add: "pending (snd (addToBuffer sev msg b)) = pending b @ [(sev, msg)]"
  by (simp add: pending_def addToBuffer_def)

lemma writeToLog_spec:
  assumes "lb_ok b" and "writeToLog b = (r, logged, slept, b')"
  shows "logged = pending b \<and> pending b' = [] \<and> lb_ok b' \<and> r \<and> slept = (pending b = [])"
  using assms
  by (auto simp: writeToLog_def Let_def lb_ok_def pending_def index_ok_switch available_switch
      split: if_splits)

lemma pending_empty: "lb_ok b \<Longrightarrow> buffer_empty b \<longleftrightarrow> pending b = []"
  by (cases "available_buffer b") (auto simp: lb_ok_def pending_def buffer_empty_def)

subsection \<open>The contract of a log queue\<close>

text \<open>
  What the handlers and the logging thread rely on: a message added is queued last, and a
  write hands over exactly the queued messages, in order, and leaves none.
\<close>

locale log_queue =
  fixes add :: "log_severity \<Rightarrow> string \<Rightarrow> 'q \<Rightarrow> 'q"
    and flush :: "'q \<Rightarrow> buffer_entry list \<times> 'q"
    and content :: "'q \<Rightarrow> buffer_entry list"
    and inv :: "'q \<Rightarrow> bool"
  assumes inv_add: "inv q \<Longrightarrow> inv (add sev msg q)"
    and content_add: "inv q \<Longrightarrow> content (add sev msg q) = content q @ [(sev, msg)]"
    and inv_flush: "inv q \<Longrightarrow> inv (snd (flush q))"
    and flush_content: "inv q \<Longrightarrow> fst (flush q) = content q"
    and content_flush: "inv q \<Longrightarrow> content (snd (flush q)) = []"
begin

lemma inv_adds: "inv q \<Longrightarrow> inv (fold (\<lambda>(s, m). add s m) es q)"
  by (induction es arbitrary: q) (auto simp: inv_add)

lemma content_adds: "inv q \<Longrightarrow> content (fold (\<lambda>(s, m). add s m) es q) = content q @ es"
  by (induction es arbitrary: q) (auto simp: inv_add content_add)

lemma flush_adds: "inv q \<Longrightarrow> fst (flush (fold (\<lambda>(s, m). add s m) es q)) = content q @ es"
  by (simp add: flush_content inv_adds content_adds)

lemma flush_twice:
  "inv q \<Longrightarrow> fst (flush (fold (\<lambda>(s, m). add s m) es (snd (flush q)))) = es"
  by (simp add: flush_adds inv_flush content_flush)

end

definition lb_add :: "log_severity \<Rightarrow> string \<Rightarrow> logging_buffer \<Rightarrow> logging_buffer" where
  "lb_add sev msg b = snd (addToBuffer sev msg b)"

definition lb_flush :: "logging_buffer \<Rightarrow> buffer_entry list \<times> logging_buffer" where
  "lb_flush b = (case writeToLog b of (r, logged, slept, b') \<Rightarrow> (logged, b'))"

lemma lb_flush_spec:
  "lb_ok b \<Longrightarrow> fst (lb_flush b) = pending b \<and> pending (snd (lb_flush b)) = [] \<and> lb_ok (snd (lb_flush b))"
  by (cases "writeToLog b") (auto simp: lb_flush_def dest: writeToLog_spec)

interpretation lbq: log_queue lb_add lb_flush pending lb_ok
  by unfold_locales (simp_all add: lb_add_def lb_ok_add pending_add lb_flush_spec)

subsection \<open>The logging thread against the request threads\<close>

text \<open>
  The logging thread's program counter. \<open>server::handle_logging\<close> reads the termination flag,
  then \<open>empty()\<close> reads the two queues one after the other, then \<open>writeToLog\<close> tests the
  available queue (without the lock), captures the pointer, switches under the lock, and pops
  one entry after the other.
\<close>

datatype logger_pc =
    Loop_head
  | Read_buffer1
  | Read_buffer2
  | Write_check
  | Captured queue_ref
  | Draining queue_ref
  | Exited

record log_system =
  lbuf :: logging_buffer
  pc :: logger_pc
  terminated :: bool
  logged :: "buffer_entry list"
  added :: "buffer_entry list"

definition init_log_system :: log_system where
  "init_log_system =
     \<lparr>lbuf = new_LoggingBuffer [] [], pc = Loop_head, terminated = False, logged = [], added = []\<rparr>"

text \<open>One step of the logging thread (\<open>handle_logging\<close> and the \<open>writeToLog\<close> it calls).\<close>

definition logger_step :: "log_system \<Rightarrow> log_system" where
  "logger_step s =
     (case pc s of
        Loop_head \<Rightarrow> s\<lparr>pc := (if terminated s then Read_buffer1 else Write_check)\<rparr>
      | Read_buffer1 \<Rightarrow> s\<lparr>pc := (if buffer1 (lbuf s) = [] then Read_buffer2 else Write_check)\<rparr>
      | Read_buffer2 \<Rightarrow> s\<lparr>pc := (if buffer2 (lbuf s) = [] then Exited else Write_check)\<rparr>
      | Write_check \<Rightarrow>
          (if get_queue (available_buffer (lbuf s)) (lbuf s) \<noteq> []
           then s\<lparr>pc := Captured (available_buffer (lbuf s))\<rparr> else s\<lparr>pc := Loop_head\<rparr>)
      | Captured q \<Rightarrow> s\<lparr>lbuf := switch_buffer (lbuf s), pc := Draining q\<rparr>
      | Draining q \<Rightarrow>
          (case get_queue q (lbuf s) of
             [] \<Rightarrow> s\<lparr>pc := Loop_head\<rparr>
           | e # es \<Rightarrow> s\<lparr>lbuf := set_queue q es (lbuf s), logged := logged s @ [e]\<rparr>)
      | Exited \<Rightarrow> s)"

inductive log_step :: "log_system \<Rightarrow> log_system \<Rightarrow> bool" where
  log_add: "log_step s (s\<lparr>lbuf := snd (addToBuffer sev msg (lbuf s)), added := added s @ [(sev, msg)]\<rparr>)"
| log_run: "pc s \<noteq> Exited \<Longrightarrow> log_step s (logger_step s)"
| log_kill: "log_step s (s\<lparr>terminated := True\<rparr>)"

inductive log_reachable :: "log_system \<Rightarrow> bool" where
  log_init: "log_reachable init_log_system"
| log_next: "log_reachable s \<Longrightarrow> log_step s t \<Longrightarrow> log_reachable t"

text \<open>
  The invariant: the index agrees with the pointer, what was logged followed by what is
  queued is what was added, and the queue that is not available is empty unless the logging
  thread is draining exactly that queue.
\<close>

definition log_inv :: "log_system \<Rightarrow> bool" where
  "log_inv s \<longleftrightarrow>
     index_ok (lbuf s) \<and>
     logged s @ pending (lbuf s) = added s \<and>
     (case pc s of
        Draining q \<Rightarrow> q = other_queue (available_buffer (lbuf s))
      | Captured q \<Rightarrow> q = available_buffer (lbuf s) \<and> get_queue (other_queue q) (lbuf s) = []
      | _ \<Rightarrow> get_queue (other_queue (available_buffer (lbuf s))) (lbuf s) = [])"

lemma log_reachable_run: "log_reachable s \<Longrightarrow> pc s \<noteq> Exited \<Longrightarrow> log_reachable (logger_step s)"
  by (rule log_next [OF _ log_run])

lemma log_reachable_add:
  "log_reachable s \<Longrightarrow>
   log_reachable (s\<lparr>lbuf := snd (addToBuffer sev msg (lbuf s)), added := added s @ [(sev, msg)]\<rparr>)"
  by (rule log_next [OF _ log_add])

lemma log_reachable_kill: "log_reachable s \<Longrightarrow> log_reachable (s\<lparr>terminated := True\<rparr>)"
  by (rule log_next [OF _ log_kill])

lemma log_inv_init: "log_inv init_log_system"
  by (simp add: log_inv_def init_log_system_def new_LoggingBuffer_def index_ok_def pending_def)

lemma log_inv_add:
  "log_inv s \<Longrightarrow>
   log_inv (s\<lparr>lbuf := snd (addToBuffer sev msg (lbuf s)), added := added s @ [(sev, msg)]\<rparr>)"
  by (auto simp: log_inv_def addToBuffer_def pending_def split: logger_pc.splits)

lemma log_inv_logger:
  assumes "log_inv s"
  shows "log_inv (logger_step s)"
proof (cases "pc s")
  case (Captured q)
  with assms show ?thesis
    by (auto simp: log_inv_def logger_step_def pending_def index_ok_switch available_switch)
next
  case (Draining q)
  with assms show ?thesis
    by (auto simp: log_inv_def logger_step_def pending_def split: list.splits)
qed (use assms in \<open>auto simp: log_inv_def logger_step_def\<close>)

lemma log_inv_step: "log_step s t \<Longrightarrow> log_inv s \<Longrightarrow> log_inv t"
proof (induction rule: log_step.induct)
  case (log_kill s)
  then show ?case by (simp add: log_inv_def split: logger_pc.splits)
qed (simp_all add: log_inv_add log_inv_logger)

lemma log_inv_reachable: "log_reachable s \<Longrightarrow> log_inv s"
  by (induction rule: log_reachable.induct) (auto intro: log_inv_init log_inv_step)

inductive_simps log_step_iff: "log_step s t"

text \<open>Once the logging thread has left its loop, nothing is logged any more.\<close>

lemma exited_logs_nothing: "pc s = Exited \<Longrightarrow> log_step s t \<Longrightarrow> pc t = Exited \<and> logged t = logged s"
  by (auto simp: log_step_iff)

subsection \<open>Termination of the logging thread\<close>

text \<open>
  Once the flag is set and no thread adds messages any more, each step of the logging thread
  makes \<open>log_measure\<close> smaller, so it bounds the number of steps to the exit.
\<close>

definition log_measure :: "log_system \<Rightarrow> nat" where
  "log_measure s =
     8 * length (pending (lbuf s)) +
     (case pc s of
        Loop_head \<Rightarrow> 5 | Read_buffer1 \<Rightarrow> 4 | Read_buffer2 \<Rightarrow> 3
      | Write_check \<Rightarrow> (if get_queue (available_buffer (lbuf s)) (lbuf s) = [] then 6 else 2)
      | Captured q \<Rightarrow> 1
      | Draining q \<Rightarrow> (if get_queue q (lbuf s) = [] then 6 else 0)
      | Exited \<Rightarrow> 0)"

fun logger_run :: "nat \<Rightarrow> log_system \<Rightarrow> log_system" where
  "logger_run 0 s = s"
| "logger_run (Suc n) s = logger_run n (logger_step s)"

text \<open>What the logging thread keeps when it runs alone after the flag was set.\<close>

definition solo_inv :: "log_system \<Rightarrow> bool" where
  "solo_inv s \<longleftrightarrow>
     log_inv s \<and> terminated s \<and>
     (pc s = Captured (available_buffer (lbuf s)) \<longrightarrow>
        get_queue (available_buffer (lbuf s)) (lbuf s) \<noteq> []) \<and>
     (pc s = Read_buffer2 \<longrightarrow> buffer1 (lbuf s) = []) \<and>
     (pc s = Exited \<longrightarrow> pending (lbuf s) = [])"

lemma logger_step_added [simp]: "added (logger_step s) = added s"
  by (simp add: logger_step_def split: logger_pc.splits list.splits)

lemma logger_step_terminated [simp]: "terminated (logger_step s) = terminated s"
  by (simp add: logger_step_def split: logger_pc.splits list.splits)

lemma logger_run_added [simp]: "added (logger_run n s) = added s"
  by (induction n arbitrary: s) simp_all

lemma get_queue_two: "buffer1 b = [] \<Longrightarrow> buffer2 b = [] \<Longrightarrow> get_queue q b = []"
  by (cases q) simp_all

lemma pending_two: "buffer1 b = [] \<Longrightarrow> buffer2 b = [] \<Longrightarrow> pending b = []"
  by (simp add: pending_def get_queue_two)

lemma solo_inv_step: "solo_inv s \<Longrightarrow> solo_inv (logger_step s)"
  using log_inv_logger [of s]
  by (cases "pc s")
    (auto simp: solo_inv_def logger_step_def log_inv_def pending_two get_queue_two pending_def
      split: list.splits if_splits)

lemma log_measure_step:
  assumes "solo_inv s" and "pc s \<noteq> Exited"
  shows "log_measure (logger_step s) < log_measure s"
proof (cases "pc s")
  case Read_buffer1
  with assms show ?thesis
    by (cases "available_buffer (lbuf s)")
      (auto simp: log_measure_def logger_step_def solo_inv_def log_inv_def)
next
  case Read_buffer2
  with assms show ?thesis
    by (cases "available_buffer (lbuf s)")
      (auto simp: log_measure_def logger_step_def solo_inv_def log_inv_def)
next
  case (Captured q)
  with assms show ?thesis
    by (auto simp: log_measure_def logger_step_def solo_inv_def log_inv_def pending_def
        available_switch)
next
  case (Draining q)
  with assms show ?thesis
    by (auto simp: log_measure_def logger_step_def solo_inv_def log_inv_def pending_def
        split: list.splits)
qed (use assms in \<open>auto simp: log_measure_def logger_step_def solo_inv_def log_inv_def\<close>)

lemma logger_run_exits:
  "solo_inv s \<Longrightarrow> \<exists>n \<le> log_measure s. pc (logger_run n s) = Exited \<and> solo_inv (logger_run n s)"
proof (induction "log_measure s" arbitrary: s rule: less_induct)
  case less
  show ?case
  proof (cases "pc s = Exited")
    case True
    with less.prems show ?thesis by (intro exI [of _ 0]) simp
  next
    case False
    have smaller: "log_measure (logger_step s) < log_measure s"
      using log_measure_step [OF less.prems False] .
    from less.hyps [OF smaller solo_inv_step [OF less.prems]]
    obtain n where n: "n \<le> log_measure (logger_step s)" "pc (logger_run n (logger_step s)) = Exited"
        "solo_inv (logger_run n (logger_step s))"
      by blast
    then have "Suc n \<le> log_measure s" using smaller by simp
    with n show ?thesis by (intro exI [of _ "Suc n"]) simp
  qed
qed

lemma solo_exit_complete: "solo_inv s \<Longrightarrow> pc s = Exited \<Longrightarrow> logged s = added s"
  by (auto simp: solo_inv_def log_inv_def)

text \<open>A captured queue was seen non-empty, and nobody else pops: it still is.\<close>

lemma captured_nonempty:
  "log_reachable s \<Longrightarrow> pc s = Captured q \<Longrightarrow> get_queue q (lbuf s) \<noteq> []"
proof (induction arbitrary: q rule: log_reachable.induct)
  case log_init
  then show ?case by (simp add: init_log_system_def)
next
  case (log_next s t)
  from log_next.hyps(2) show ?case
  proof cases
    case (log_add sev msg)
    have "log_inv s" using log_next.hyps(1) by (rule log_inv_reachable)
    with log_add log_next show ?thesis by (auto simp: addToBuffer_def log_inv_def)
  next
    case log_run
    with log_next.prems show ?thesis
      by (auto simp: logger_step_def split: logger_pc.splits if_splits list.splits)
  next
    case log_kill
    with log_next show ?thesis by simp
  qed
qed

lemma solo_inv_reachable:
  "log_reachable s \<Longrightarrow> terminated s \<Longrightarrow> pc s \<notin> {Read_buffer2, Exited} \<Longrightarrow> solo_inv s"
  using log_inv_reachable [of s] captured_nonempty [of s] by (auto simp: solo_inv_def)

text \<open>What was logged and what was added only grows, in every step.\<close>

lemma logger_step_logged: "prefix (logged s) (logged (logger_step s))"
  by (simp add: logger_step_def split: logger_pc.split list.split)

lemma log_step_grows: "log_step s t \<Longrightarrow> prefix (logged s) (logged t) \<and> prefix (added s) (added t)"
  by (induction rule: log_step.induct) (simp_all add: logger_step_logged)

lemma log_steps_grow: "log_step\<^sup>*\<^sup>* s t \<Longrightarrow> prefix (logged s) (logged t) \<and> prefix (added s) (added t)"
  by (induction rule: rtranclp_induct) (use log_step_grows prefix_order.trans in blast)+

lemma log_steps_reachable: "log_step\<^sup>*\<^sup>* s t \<Longrightarrow> log_reachable s \<Longrightarrow> log_reachable t"
  by (induction rule: rtranclp_induct) (auto intro: log_next)

text \<open>Before the flag is set the logging thread does not look whether the queues are empty.\<close>

lemma running_pc: "log_reachable s \<Longrightarrow> \<not> terminated s \<Longrightarrow> pc s \<notin> {Read_buffer1, Read_buffer2, Exited}"
proof (induction rule: log_reachable.induct)
  case (log_next s t)
  from log_next.hyps(2) show ?case
  proof cases
    case log_run
    with log_next show ?thesis
      by (auto simp: logger_step_def split: logger_pc.splits list.splits if_splits)
  qed (use log_next in auto)
qed (simp add: init_log_system_def)

subsection \<open>Properties\<close>

text \<open>
  C15: the log is never reordered and loses nothing on the way. Whatever the interleaving of
  request threads calling \<open>addToBuffer\<close> with the logging thread, the entries logged so far
  followed by the entries still queued are exactly the entries added, in the order they were
  added.
\<close>

theorem log_fifo_no_loss:
  assumes "log_reachable s"
  shows "logged s @ pending (lbuf s) = added s"
  using log_inv_reachable [OF assms] by (simp add: log_inv_def)

text \<open>A run: one message is added, the logging thread starts to drain it.\<close>

definition log_example :: log_system where
  "log_example =
     logger_step (logger_step (logger_step
       (init_log_system\<lparr>lbuf := snd (addToBuffer INFO ''m'' (lbuf init_log_system)),
          added := added init_log_system @ [(INFO, ''m'')]\<rparr>)))"

lemmas log_example_eval =
  log_example_def init_log_system_def new_LoggingBuffer_def addToBuffer_def logger_step_def
  switch_buffer_def

lemma log_example_reachable: "log_reachable log_example"
  unfolding log_example_def
  by (intro log_reachable_run log_reachable_add log_init) (simp_all add: log_example_eval)

theorem log_fifo_no_loss_witness:
  "log_reachable log_example \<and> logged log_example @ pending (lbuf log_example) = added log_example"
  using log_example_reachable log_fifo_no_loss [OF log_example_reachable] by simp

text \<open>
  The two sides never touch the same queue. While the logging thread pops a queue
  without holding the lock, \<open>available_buffer_\<close> points to the other one, so no
  \<open>addToBuffer\<close> can change the queue being popped.
\<close>

lemma draining_exclusive:
  assumes "log_reachable s" and "pc s = Draining q"
  shows "available_buffer (lbuf s) \<noteq> q \<and>
    get_queue q (snd (addToBuffer sev msg (lbuf s))) = get_queue q (lbuf s)"
  using log_inv_reachable [OF assms(1)] assms(2)
  by (auto simp: log_inv_def addToBuffer_def)

text \<open>
  Shutting down loses nothing. From every reachable state in which the termination flag
  is set (and the logging thread is not just between its two reads in \<open>empty()\<close>), if no
  further message is added the logging thread leaves its loop within \<open>log_measure s\<close> steps,
  and then everything ever added has been logged, in order.
\<close>

lemma shutdown_flushes:
  assumes "log_reachable s" and "terminated s" and "pc s \<notin> {Read_buffer2, Exited}"
  shows "\<exists>n \<le> log_measure s.
    pc (logger_run n s) = Exited \<and> logged (logger_run n s) = added s"
  using logger_run_exits [OF solo_inv_reachable [OF assms]] solo_exit_complete by fastforce

text \<open>
  \<open>empty()\<close> is not atomic. There is a reachable state in which the logging thread has left
  its loop although a message that was added before it left was never logged: the message
  arrived in the first queue between the read of the first queue and the read of the second.
\<close>

lemma shutdown_race_loses:
  "\<exists>s. log_reachable s \<and> pc s = Read_buffer2 \<and> added s = [(INFO, ''m'')] \<and>
       pc (logger_step s) = Exited \<and> logged (logger_step s) = []"
proof -
  define s where
    "s = (let r = logger_step (logger_step (init_log_system\<lparr>terminated := True\<rparr>))
          in r\<lparr>lbuf := snd (addToBuffer INFO ''m'' (lbuf r)), added := added r @ [(INFO, ''m'')]\<rparr>)"
  have "log_reachable s"
    unfolding s_def Let_def
    by (intro log_reachable_run log_reachable_add log_reachable_kill log_init)
      (simp_all add: log_example_eval)
  then show ?thesis
    by (intro exI [of _ s]) (simp add: s_def Let_def log_example_eval)
qed

end
