(* ===== verification/Config_Interpreter.thy ===== *)
theory Config_Interpreter
  imports Config_Parser
begin

text \<open>
  The configuration interpreter: \<open>config_interpreter.h\<close>, \<open>config_interpreter.cc\<close> and the
  \<open>ServerPaths\<close> of \<open>utils.h\<close>. The static members of the class are the record
  \<open>interpreter\<close>. A statement without a block where the code dereferences \<open>child_block_\<close> is
  undefined behaviour; \<open>tokens_.at(i)\<close> past the end raises \<open>std::out_of_range\<close>.
\<close>

subsection \<open>State\<close>

record server_paths =
  echo_paths :: "string list"
  static_paths :: "(string, string) std_map"
  crud_paths :: "(string, string) std_map"
  health_paths :: "string list"
  sleep_paths :: "string list"
  app_paths :: "string list"

definition empty_paths :: server_paths where
  "empty_paths = \<lparr>echo_paths = [], static_paths = [], crud_paths = [],
                  health_paths = [], sleep_paths = [], app_paths = []\<rparr>"

record interpreter =
  server_paths_ptr :: server_paths
  api_key :: string
  chatgpt_url :: string

definition new_interpreter :: interpreter where
  "new_interpreter = \<lparr>server_paths_ptr = empty_paths, api_key = [], chatgpt_url = []\<rparr>"

definition getServerPaths :: "interpreter \<Rightarrow> server_paths" where
  "getServerPaths i = server_paths_ptr i"

definition setServerPaths_value :: "server_paths \<Rightarrow> interpreter \<Rightarrow> interpreter" where
  "setServerPaths_value p i = i\<lparr>server_paths_ptr := p\<rparr>"

definition get_api_key :: "interpreter \<Rightarrow> string" where
  "get_api_key i = api_key i"

definition get_chatgpt_url :: "interpreter \<Rightarrow> string" where
  "get_chatgpt_url i = chatgpt_url i"

subsection \<open>Blocks and tokens\<close>

definition null_block :: exn where
  "null_block = Undefined_behaviour ''child_block_''"

text \<open>\<open>for (const auto& s : statement->child_block_->statements_)\<close>.\<close>

definition for_block ::
  "nginx_statement \<Rightarrow> (nginx_statement \<Rightarrow> 's \<Rightarrow> exn option \<times> 's) \<Rightarrow> 's \<Rightarrow> exn option \<times> 's" where
  "for_block statement body s =
     (case child_block statement of
        None \<Rightarrow> (Some null_block, s)
      | Some c \<Rightarrow> for_each body c s)"

text \<open>Read \<open>tokens_.at(i)\<close> and go on with it, or leave with the exception.\<close>

definition with_token ::
  "nginx_statement \<Rightarrow> nat \<Rightarrow> (string \<Rightarrow> exn option \<times> 's) \<Rightarrow> 's \<Rightarrow> exn option \<times> 's" where
  "with_token statement i k s =
     (case vec_at (tokens statement) i of Inl e \<Rightarrow> (Some e, s) | Inr t \<Rightarrow> k t)"

subsection \<open>The port\<close>

definition MINIMUM_VALID_PORT :: int where
  "MINIMUM_VALID_PORT = 0"

definition MAXIMUM_VALID_PORT :: int where
  "MAXIMUM_VALID_PORT = 65535"

text \<open>
  One \<open>listen\<close> line. The read of the argument is inside the \<open>try\<close>, so a missing argument is
  the \<open>out_of_range\<close> that the handler turns into the default, as a bad number is.
\<close>

definition listen_port :: "nginx_statement \<Rightarrow> int" where
  "listen_port statement =
     (let port =
        (case bind_result (vec_at (tokens statement) 1) stoi of
           Inl e \<Rightarrow> 80
         | Inr p \<Rightarrow> p)
      in if port < MINIMUM_VALID_PORT \<or> port > MAXIMUM_VALID_PORT then 80 else port)"

definition port_statement :: "nginx_statement \<Rightarrow> int \<Rightarrow> exn option \<times> int" where
  "port_statement nestedStatement port =
     with_token nestedStatement 0
       (\<lambda>t. (None, if t = ''listen'' then listen_port nestedStatement else port)) port"

definition getPort :: "nginx_config \<Rightarrow> int result" where
  "getPort config =
     (case for_each
             (\<lambda>statement port.
                with_token statement 0
                  (\<lambda>t. if t = ''server'' then for_block statement port_statement port
                        else (None, port)) port) config 80 of
        (Some e, _) \<Rightarrow> Inl e
      | (None, port) \<Rightarrow> Inr port)"

subsection \<open>The locations\<close>

text \<open>The local variables of \<open>setServerPaths\<close> and the static members it assigns on the way.\<close>

record scan =
  paths :: server_paths
  used_locations :: "string list"
  key :: string
  url :: string

definition dup_location :: "string \<Rightarrow> exn" where
  "dup_location location =
     Runtime_error (''The same location ('' @ location @ '') is specified for multiple handlers'')"

definition dup_file :: exn where
  "dup_file = Runtime_error ''Duplicate server file location''"

text \<open>
  One line of a \<open>StaticHandler\<close> block (\<open>root\<close>) or a \<open>CrudHandler\<close> block (\<open>data_path\<close>); the
  state is \<open>found_server_file\<close> and the map under construction.
\<close>

definition path_line ::
  "string \<Rightarrow> string \<Rightarrow> nginx_statement \<Rightarrow> bool \<times> (string, string) std_map
    \<Rightarrow> exn option \<times> bool \<times> (string, string) std_map" where
  "path_line keyword location lv3statement s =
     with_token lv3statement 0
       (\<lambda>t. if t = keyword then
              (if fst s then (Some dup_file, s)
               else with_token lv3statement 1 (\<lambda>file. (None, True, map_set location file (snd s))) s)
            else (None, s)) s"

definition static_location :: "string \<Rightarrow> nginx_statement \<Rightarrow> scan \<Rightarrow> exn option \<times> scan" where
  "static_location location lv2Statement s =
     (case for_block lv2Statement (path_line ''root'' location) (False, static_paths (paths s)) of
        (e, _, m) \<Rightarrow> (e, s\<lparr>paths := (paths s)\<lparr>static_paths := m\<rparr>\<rparr>))"

definition crud_location :: "string \<Rightarrow> nginx_statement \<Rightarrow> scan \<Rightarrow> exn option \<times> scan" where
  "crud_location location lv2Statement s =
     (case for_block lv2Statement (path_line ''data_path'' location) (False, crud_paths (paths s)) of
        (e, _, m) \<Rightarrow> (e, s\<lparr>paths := (paths s)\<lparr>crud_paths := m\<rparr>\<rparr>))"

text \<open>One line of an \<open>AppHandler\<close> block; the flags are \<open>found_api_key\<close> and \<open>found_gpt_url\<close>.\<close>

definition app_line ::
  "nginx_statement \<Rightarrow> bool \<times> bool \<times> scan \<Rightarrow> exn option \<times> bool \<times> bool \<times> scan" where
  "app_line lv3statement st =
     (case st of (found_api_key, found_gpt_url, s) \<Rightarrow>
       with_token lv3statement 0
         (\<lambda>t. if t = ''api_key'' then
                (if found_api_key then (Some (Runtime_error ''Duplicate API key''), st)
                 else with_token lv3statement 1 (\<lambda>v. (None, True, found_gpt_url, s\<lparr>key := v\<rparr>)) st)
              else if t = ''chatgpt_url'' then
                (if found_gpt_url then (Some (Runtime_error ''Duplicate GPT url''), st)
                 else with_token lv3statement 1 (\<lambda>v. (None, found_api_key, True, s\<lparr>url := v\<rparr>)) st)
              else (None, st)) st)"

definition app_location :: "string \<Rightarrow> nginx_statement \<Rightarrow> scan \<Rightarrow> exn option \<times> scan" where
  "app_location location lv2Statement s =
     (let s1 = s\<lparr>paths := (paths s)\<lparr>app_paths := app_paths (paths s) @ [location]\<rparr>\<rparr>
      in case for_block lv2Statement app_line (False, False, s1) of
           (e, _, _, s2) \<Rightarrow> (e, s2))"

text \<open>The chain of comparisons on the handler's name; an unknown name is ignored.\<close>

definition location_handler ::
  "string \<Rightarrow> string \<Rightarrow> nginx_statement \<Rightarrow> scan \<Rightarrow> exn option \<times> scan" where
  "location_handler location location_type lv2Statement s =
     (if location_type = ''EchoHandler'' then
        (None, s\<lparr>paths := (paths s)\<lparr>echo_paths := echo_paths (paths s) @ [location]\<rparr>\<rparr>)
      else if location_type = ''StaticHandler'' then static_location location lv2Statement s
      else if location_type = ''CrudHandler'' then crud_location location lv2Statement s
      else if location_type = ''HealthHandler'' then
        (None, s\<lparr>paths := (paths s)\<lparr>health_paths := health_paths (paths s) @ [location]\<rparr>\<rparr>)
      else if location_type = ''SleepHandler'' then
        (None, s\<lparr>paths := (paths s)\<lparr>sleep_paths := sleep_paths (paths s) @ [location]\<rparr>\<rparr>)
      else if location_type = ''AppHandler'' then app_location location lv2Statement s
      else (None, s))"

definition location_statement :: "nginx_statement \<Rightarrow> scan \<Rightarrow> exn option \<times> scan" where
  "location_statement lv2Statement s =
     with_token lv2Statement 0
       (\<lambda>t. if t = ''location'' then
              with_token lv2Statement 1
                (\<lambda>location.
                   with_token lv2Statement 2
                     (\<lambda>location_type.
                        if location \<in> set (used_locations s) then (Some (dup_location location), s)
                        else location_handler location location_type lv2Statement
                               (s\<lparr>used_locations := location # used_locations s\<rparr>)) s) s
            else (None, s)) s"

definition server_statement :: "nginx_statement \<Rightarrow> scan \<Rightarrow> exn option \<times> scan" where
  "server_statement statement s =
     with_token statement 0
       (\<lambda>t. if t = ''server'' then for_block statement location_statement s else (None, s)) s"

text \<open>
  \<open>setServerPaths\<close>: \<open>server_paths_\<close> is assigned after the last statement only, while the API
  key and the URL are assigned as they are met, so an exception keeps those.
\<close>

definition setServerPaths :: "nginx_config \<Rightarrow> interpreter \<Rightarrow> exn option \<times> interpreter" where
  "setServerPaths config i =
     (case for_each server_statement config
             \<lparr>paths = empty_paths, used_locations = [], key = api_key i, url = chatgpt_url i\<rparr> of
        (Some e, s) \<Rightarrow> (Some e, i\<lparr>api_key := key s, chatgpt_url := url s\<rparr>)
      | (None, s) \<Rightarrow>
          (None, \<lparr>server_paths_ptr = paths s, api_key = key s, chatgpt_url = url s\<rparr>))"

subsection \<open>Every location belongs to one handler\<close>

definition all_locations :: "server_paths \<Rightarrow> string list" where
  "all_locations p =
     echo_paths p @ map fst (static_paths p) @ map fst (crud_paths p)
     @ health_paths p @ sleep_paths p @ app_paths p"

definition paths_ok :: "server_paths \<Rightarrow> bool" where
  "paths_ok p \<longleftrightarrow> distinct (all_locations p) \<and> map_ok (static_paths p) \<and> map_ok (crud_paths p)"

definition scan_ok :: "scan \<Rightarrow> bool" where
  "scan_ok s \<longleftrightarrow> paths_ok (paths s) \<and> set (all_locations (paths s)) \<subseteq> set (used_locations s)"

lemma with_token_Inr [simp]: "i < length (tokens st) \<Longrightarrow> with_token st i k s = k (tokens st ! i)"
  by (simp add: with_token_def vec_at_def)

lemma with_token_cases:
  "with_token st i k s = (e, s') \<longleftrightarrow>
     (if i < length (tokens st) then k (tokens st ! i) = (e, s') else e = Some Out_of_range \<and> s' = s)"
  by (auto simp: with_token_def vec_at_def)

lemma for_block_invariant:
  assumes "\<And>x s e s'. P s \<Longrightarrow> body x s = (e, s') \<Longrightarrow> P s'" and "P s"
    and "for_block st body s = (e, s')"
  shows "P s'"
proof (cases "child_block st")
  case None
  with assms(2,3) show ?thesis by (simp add: for_block_def)
next
  case (Some c)
  with assms(3) have "for_each body c s = (e, s')" by (simp add: for_block_def)
  with assms(1,2) show ?thesis by (rule for_each_invariant [where P = P])
qed

text \<open>A block of \<open>root\<close> or \<open>data_path\<close> lines sets the entry of its own location only.\<close>

lemma path_lines_entry:
  assumes "for_block st (path_line w loc) (False, m) = (e, found, m')" and "map_ok m"
  shows "map_ok m' \<and> (m' = m \<and> \<not> found \<or> (\<exists>file. m' = map_set loc file m) \<and> found)"
proof -
  define P where "P = (\<lambda>(f, n). map_ok n \<and>
    (n = m \<and> \<not> f \<or> (\<exists>file. n = map_set loc file m) \<and> f))"
  have "P (found, m')"
  proof (rule for_block_invariant [OF _ _ assms(1)])
    show "P (False, m)" using assms(2) by (simp add: P_def)
    fix x s e s'
    assume "P s" and "path_line w loc x s = (e, s')"
    then show "P s'"
      by (cases s) (auto simp: P_def path_line_def with_token_cases smap.mok_set split: if_splits)
  qed
  then show ?thesis by (simp add: P_def)
qed

lemma for_block_app_lines:
  assumes "for_block st app_line (f1, f2, s) = (e, g1, g2, s')"
  shows "paths s' = paths s \<and> used_locations s' = used_locations (s :: scan)"
proof -
  define P where "P = (\<lambda>(g1 :: bool, g2 :: bool, t :: scan). paths t = paths s \<and> used_locations t = used_locations s)"
  have "P (g1, g2, s')"
  proof (rule for_block_invariant [OF _ _ assms])
    show "P (f1, f2, s)" by (simp add: P_def)
    fix x t e t'
    assume "P t" and "app_line x t = (e, t')"
    then show "P t'"
      by (cases t) (auto simp: P_def app_line_def with_token_cases split: if_splits)
  qed
  then show ?thesis by (simp add: P_def)
qed

text \<open>A handler may add its own location, nothing else.\<close>

text \<open>The branches of the chain, with the state each leaves.\<close>

lemma location_handler_cases:
  assumes "location_handler loc ty st s = (e, s')"
  obtains (static) f m where "ty = ''StaticHandler''"
      "for_block st (path_line ''root'' loc) (False, static_paths (paths s)) = (e, f, m)"
      "s' = s\<lparr>paths := (paths s)\<lparr>static_paths := m\<rparr>\<rparr>"
    | (crud) f m where "ty = ''CrudHandler''"
      "for_block st (path_line ''data_path'' loc) (False, crud_paths (paths s)) = (e, f, m)"
      "s' = s\<lparr>paths := (paths s)\<lparr>crud_paths := m\<rparr>\<rparr>"
    | (app) g1 g2 where "ty = ''AppHandler''"
      "for_block st app_line (False, False, s\<lparr>paths := (paths s)\<lparr>app_paths := app_paths (paths s) @ [loc]\<rparr>\<rparr>)
        = (e, g1, g2, s')"
    | (echo) "ty = ''EchoHandler''" "s' = s\<lparr>paths := (paths s)\<lparr>echo_paths := echo_paths (paths s) @ [loc]\<rparr>\<rparr>"
    | (health) "ty = ''HealthHandler''" "s' = s\<lparr>paths := (paths s)\<lparr>health_paths := health_paths (paths s) @ [loc]\<rparr>\<rparr>"
    | (sleep) "ty = ''SleepHandler''" "s' = s\<lparr>paths := (paths s)\<lparr>sleep_paths := sleep_paths (paths s) @ [loc]\<rparr>\<rparr>"
    | (other) "ty \<notin> {''EchoHandler'', ''StaticHandler'', ''CrudHandler'', ''HealthHandler'', ''SleepHandler'', ''AppHandler''}"
      "s' = s"
  using assms
  by (auto simp: location_handler_def static_location_def crud_location_def app_location_def Let_def
      split: if_splits prod.splits)

lemma location_handler_ok:
  assumes ok: "paths_ok (paths s)" and new: "loc \<notin> set (all_locations (paths s))"
    and run: "location_handler loc ty st s = (e, s')"
  shows "paths_ok (paths s') \<and> used_locations s' = used_locations s \<and>
    set (all_locations (paths s')) \<subseteq> insert loc (set (all_locations (paths s)))"
  using run
proof (cases rule: location_handler_cases)
  case (static f m)
  have "map_ok (static_paths (paths s))" using ok by (simp add: paths_ok_def)
  from path_lines_entry [OF static(2) this] ok new static(3) show ?thesis
    using smap.mkeys_distinct smap.mkeys_set [of "static_paths (paths s)" loc]
    by (auto simp: paths_ok_def all_locations_def simp del: set_map)
next
  case (crud f m)
  have "map_ok (crud_paths (paths s))" using ok by (simp add: paths_ok_def)
  from path_lines_entry [OF crud(2) this] ok new crud(3) show ?thesis
    using smap.mkeys_distinct smap.mkeys_set [of "crud_paths (paths s)" loc]
    by (auto simp: paths_ok_def all_locations_def simp del: set_map)
next
  case (app g1 g2)
  from for_block_app_lines [OF app(2)] ok new show ?thesis
    by (auto simp: paths_ok_def all_locations_def)
qed (use ok new in \<open>auto simp: paths_ok_def all_locations_def\<close>)

subsection \<open>The declarations a configuration makes\<close>

text \<open>
  The statements of all \<open>server\<close> blocks that begin with a given word, in order: the
  \<open>location\<close> declarations and the \<open>listen\<close> lines.
\<close>

definition begins :: "string \<Rightarrow> nginx_statement \<Rightarrow> bool" where
  "begins w st \<longleftrightarrow> tokens st \<noteq> [] \<and> hd (tokens st) = w"

definition block_of :: "nginx_statement \<Rightarrow> nginx_statement list" where
  "block_of st = (case child_block st of None \<Rightarrow> [] | Some c \<Rightarrow> c)"

definition server_lines :: "string \<Rightarrow> nginx_config \<Rightarrow> nginx_statement list" where
  "server_lines w config = filter (begins w) (concat (map block_of (filter (begins ''server'') config)))"

definition decl_location :: "nginx_statement \<Rightarrow> string" where
  "decl_location d = tokens d ! 1"

definition decl_handler :: "nginx_statement \<Rightarrow> string" where
  "decl_handler d = tokens d ! 2"

text \<open>The argument of the first line of a block that begins with a word.\<close>

definition block_value :: "string \<Rightarrow> nginx_statement \<Rightarrow> string option" where
  "block_value w d =
     (case filter (begins w) (block_of d) of [] \<Rightarrow> None | l # _ \<Rightarrow> Some (tokens l ! 1))"

lemma server_lines_Nil [simp]: "server_lines w [] = []"
  by (simp add: server_lines_def)

lemma server_lines_Cons:
  "server_lines w (st # c) =
     (if begins ''server'' st then filter (begins w) (block_of st) else []) @ server_lines w c"
  by (simp add: server_lines_def)

lemma begins_nth: "begins w st \<longleftrightarrow> 0 < length (tokens st) \<and> tokens st ! 0 = w"
  by (cases "tokens st") (simp_all add: begins_def)

text \<open>A successful loop over the statements is a successful loop over the declarations.\<close>

lemma for_each_filter:
  assumes "\<And>x s. \<not> P x \<Longrightarrow> body x s = (None, s) \<or> fst (body x s) \<noteq> None"
    and "for_each body xs s = (None, s')"
  shows "for_each body (filter P xs) s = (None, s')"
  using assms(2)
proof (induction xs arbitrary: s)
  case (Cons x xs)
  obtain e s1 where b: "body x s = (e, s1)" by (cases "body x s")
  with Cons.prems have "e = None" by (cases e) auto
  with b Cons assms(1) [of x s] show ?case by auto
qed simp

lemma for_each_server_lines:
  assumes head: "\<And>st s. begins ''server'' st \<Longrightarrow> body st s = for_block st inner s"
    and skip: "\<And>st s. \<not> begins ''server'' st \<Longrightarrow> body st s = (None, s) \<or> fst (body st s) \<noteq> None"
    and skip_inner: "\<And>x s. \<not> begins w x \<Longrightarrow> inner x s = (None, s) \<or> fst (inner x s) \<noteq> None"
    and run: "for_each body config s = (None, s')"
  shows "for_each inner (server_lines w config) s = (None, s')"
  using run
proof (induction config arbitrary: s)
  case (Cons st config)
  obtain e s1 where b: "body st s = (e, s1)" by (cases "body st s")
  have e: "e = None" using Cons.prems b by (cases e) simp_all
  have rest: "for_each body config s1 = (None, s')" using Cons.prems b e by simp
  show ?case
  proof (cases "begins ''server'' st")
    case True
    have fb: "for_block st inner s = (None, s1)" using head [OF True, of s] b e by simp
    then obtain c where c: "child_block st = Some c" by (cases "child_block st") (auto simp: for_block_def)
    with fb have "for_each inner c s = (None, s1)" by (simp add: for_block_def)
    then have "for_each inner (filter (begins w) c) s = (None, s1)"
      by (rule for_each_filter [rotated]) (rule skip_inner)
    with True c Cons.IH [OF rest] show ?thesis
      by (simp add: server_lines_Cons block_of_def for_each_append)
  next
    case False
    then have "s1 = s" using skip [of st s] b e by simp
    with False Cons.IH [OF rest] show ?thesis by (simp add: server_lines_Cons)
  qed
qed simp

subsection \<open>The port that results\<close>

lemma listen_port_range: "0 \<le> listen_port st \<and> listen_port st \<le> 65535"
  by (auto simp: listen_port_def Let_def MINIMUM_VALID_PORT_def MAXIMUM_VALID_PORT_def)

lemma port_statement_listen:
  "begins ''listen'' l \<Longrightarrow> port_statement l port = (None, listen_port l)"
  by (simp add: port_statement_def begins_nth)

lemma for_each_ports:
  "for_each port_statement ls port = (None, p) \<Longrightarrow> \<forall>l \<in> set ls. begins ''listen'' l \<Longrightarrow>
   p = (if ls = [] then port else listen_port (last ls))"
proof (induction ls arbitrary: port)
  case (Cons l ls)
  then have "for_each port_statement ls (listen_port l) = (None, p)" and "\<forall>l \<in> set ls. begins ''listen'' l"
    by (simp_all add: port_statement_listen)
  from Cons.IH [OF this] show ?case by auto
qed simp

lemma getPort_lines:
  assumes "getPort config = Inr p"
  shows "p = (if server_lines ''listen'' config = [] then 80
              else listen_port (last (server_lines ''listen'' config)))"
proof -
  let ?body = "\<lambda>statement port. with_token statement 0
    (\<lambda>t. if t = ''server'' then for_block statement port_statement port else (None, port)) port"
  have "for_each ?body config 80 = (None, p)"
    using assms by (auto simp: getPort_def split: prod.splits option.splits)
  then have "for_each port_statement (server_lines ''listen'' config) 80 = (None, p)"
    by (rule for_each_server_lines [rotated 3])
      (auto simp: begins_nth with_token_def vec_at_def port_statement_def)
  then show ?thesis
    by (rule for_each_ports) (simp add: server_lines_def)
qed

text \<open>
  The port that a list of \<open>listen\<close> lines declares, without the functions of the code: the last line
  counts; its argument is a number if it begins with one, whatever follows the digits; a line without
  a number, or with one that is no port, stands for 80.
\<close>

definition line_number :: "nginx_statement \<Rightarrow> int \<Rightarrow> bool" where
  "line_number l v \<longleftrightarrow> 1 < length (tokens l) \<and> says_int (tokens l ! 1) v"

definition declared_port :: "nginx_statement list \<Rightarrow> int \<Rightarrow> bool" where
  "declared_port ls p \<longleftrightarrow>
     (if ls = [] then p = 80
      else line_number (last ls) p \<and> 0 \<le> p \<and> p \<le> 65535
        \<or> p = 80 \<and> (\<forall>v. line_number (last ls) v \<longrightarrow> v < 0 \<or> 65535 < v))"

lemma listen_port_says:
  "line_number l (listen_port l) \<and> 0 \<le> listen_port l \<and> listen_port l \<le> 65535
    \<or> listen_port l = 80 \<and> (\<forall>v. line_number l v \<longrightarrow> v < 0 \<or> 65535 < v)"
proof (cases "\<exists>v. line_number l v \<and> 0 \<le> v \<and> v \<le> 65535")
  case True
  then obtain v where v: "1 < length (tokens l)" "says_int (tokens l ! 1) v" "0 \<le> v" "v \<le> 65535"
    by (auto simp: line_number_def)
  then have "stoi (tokens l ! 1) = Inr v" by (simp add: stoi_Inr_iff)
  with v show ?thesis
    by (simp add: listen_port_def line_number_def vec_at_def Let_def MINIMUM_VALID_PORT_def MAXIMUM_VALID_PORT_def)
next
  case False
  have "listen_port l = 80"
  proof (rule ccontr)
    assume p: "listen_port l \<noteq> 80"
    then obtain v where "1 < length (tokens l)" "stoi (tokens l ! 1) = Inr v" "0 \<le> v" "v \<le> 65535"
      by (auto simp: listen_port_def vec_at_def Let_def MINIMUM_VALID_PORT_def MAXIMUM_VALID_PORT_def
          split: sum.splits if_splits)
    with False show False by (auto simp: line_number_def stoi_Inr_iff)
  qed
  with False show ?thesis by (auto simp: not_le)
qed

lemma getPort_declared:
  assumes "getPort config = Inr p"
  shows "declared_port (server_lines ''listen'' config) p"
  using listen_port_says [of "last (server_lines ''listen'' config)"]
  unfolding getPort_lines [OF assms] declared_port_def by simp

text \<open>Of the argument \<open>8080abc\<close>, which is no integer, the digits are taken.\<close>

lemma listen_takes_digits:
  "listen_port (NginxConfigStatement [''listen'', ''8080abc''] None) = 8080"
  by code_simp

subsection \<open>The paths that result\<close>

text \<open>What a list of declarations asks for.\<close>

definition locations_of :: "string \<Rightarrow> nginx_statement list \<Rightarrow> string list" where
  "locations_of h ds = map decl_location (filter (\<lambda>d. decl_handler d = h) ds)"

definition declared_path :: "string \<Rightarrow> string \<Rightarrow> nginx_statement list \<Rightarrow> string \<Rightarrow> string option" where
  "declared_path h w ds loc =
     (case find (\<lambda>d. decl_handler d = h \<and> decl_location d = loc) ds of
        None \<Rightarrow> None | Some d \<Rightarrow> block_value w d)"

definition paths_spec :: "nginx_statement list \<Rightarrow> server_paths \<Rightarrow> bool" where
  "paths_spec ds p \<longleftrightarrow>
     echo_paths p = locations_of ''EchoHandler'' ds \<and>
     health_paths p = locations_of ''HealthHandler'' ds \<and>
     sleep_paths p = locations_of ''SleepHandler'' ds \<and>
     app_paths p = locations_of ''AppHandler'' ds \<and>
     (\<forall>loc. map_of (static_paths p) loc = declared_path ''StaticHandler'' ''root'' ds loc) \<and>
     (\<forall>loc. map_of (crud_paths p) loc = declared_path ''CrudHandler'' ''data_path'' ds loc)"

lemma locations_of_snoc:
  "locations_of h (ds @ [d]) = locations_of h ds @ (if decl_handler d = h then [decl_location d] else [])"
  by (simp add: locations_of_def)

lemma find_append:
  "find P (xs @ ys) = (case find P xs of None \<Rightarrow> find P ys | Some x \<Rightarrow> Some x)"
  by (induction xs) auto

lemma find_None_location: "loc \<notin> set (map decl_location ds) \<Longrightarrow>
  find (\<lambda>d. decl_handler d = h \<and> decl_location d = loc) ds = None"
  by (auto simp: find_None_iff)

lemma declared_path_snoc:
  "decl_location d \<notin> set (map decl_location ds) \<Longrightarrow>
   declared_path h w (ds @ [d]) =
     (if decl_handler d = h then (declared_path h w ds)(decl_location d := block_value w d)
      else declared_path h w ds)"
  using find_None_location [of "decl_location d" ds h]
  by (auto simp: declared_path_def find_append fun_eq_iff split: option.splits)

text \<open>The entry a block of path lines makes when it raises nothing.\<close>

lemma path_lines_found:
  "for_each (path_line w loc) ls (True, m) = (None, f, m') \<Longrightarrow> m' = m \<and> filter (begins w) ls = []"
proof (induction ls)
  case (Cons l ls)
  have step: "path_line w loc l (True, m)
      = (if tokens l = [] then (Some Out_of_range, True, m)
         else if begins w l then (Some dup_file, True, m) else (None, True, m))"
    by (auto simp: path_line_def with_token_def vec_at_def begins_nth)
  with Cons.prems have "\<not> begins w l" "for_each (path_line w loc) ls (True, m) = (None, f, m')"
    by (auto split: if_splits)
  with Cons.IH show ?case by simp
qed simp

lemma path_lines_value:
  "for_each (path_line w loc) ls (False, m) = (None, f, m') \<Longrightarrow>
   m' = (case filter (begins w) ls of [] \<Rightarrow> m | l # _ \<Rightarrow> map_set loc (tokens l ! 1) m)"
proof (induction ls)
  case (Cons l ls)
  have step: "path_line w loc l (False, m)
      = (if tokens l = [] then (Some Out_of_range, False, m)
         else if begins w l then
           (if 1 < length (tokens l) then (None, True, map_set loc (tokens l ! 1) m)
            else (Some Out_of_range, False, m))
         else (None, False, m))"
    by (auto simp: path_line_def with_token_def vec_at_def begins_nth)
  show ?case
  proof (cases "begins w l")
    case True
    with step Cons.prems have
      "for_each (path_line w loc) ls (True, map_set loc (tokens l ! 1) m) = (None, f, m')"
      by (auto split: if_splits)
    from path_lines_found [OF this] True show ?thesis by simp
  next
    case False
    with step Cons.prems have "for_each (path_line w loc) ls (False, m) = (None, f, m')"
      by (auto split: if_splits)
    from Cons.IH [OF this] False show ?thesis by simp
  qed
qed simp

lemma path_block_value:
  assumes "for_block d (path_line w loc) (False, m) = (None, f, m')" and "map_ok m"
  shows "map_of m' = (case block_value w d of None \<Rightarrow> map_of m | Some v \<Rightarrow> (map_of m)(loc \<mapsto> v))"
proof -
  from assms(1) obtain c where c: "child_block d = Some c"
    and run: "for_each (path_line w loc) c (False, m) = (None, f, m')"
    by (auto simp: for_block_def split: option.splits)
  from path_lines_value [OF run] c assms(2) show ?thesis
    by (simp add: block_value_def block_of_def smap.mget_set split: list.split)
qed

text \<open>The invariant of the loop over the declarations.\<close>

definition scan_spec :: "nginx_statement list \<Rightarrow> scan \<Rightarrow> bool" where
  "scan_spec ds s \<longleftrightarrow>
     used_locations s = rev (map decl_location ds) \<and> distinct (map decl_location ds) \<and>
     paths_ok (paths s) \<and> set (all_locations (paths s)) \<subseteq> set (map decl_location ds) \<and>
     paths_spec ds (paths s)"

lemma static_entry_free:
  assumes "loc \<notin> set (all_locations p)"
  shows "map_of (static_paths p) loc = None" and "map_of (crud_paths p) loc = None"
  using assms by (auto simp: all_locations_def map_of_eq_None_iff)

lemma location_handler_spec:
  assumes spec: "paths_spec ds (paths s)" and ok: "paths_ok (paths s)"
    and new: "decl_location d \<notin> set (map decl_location ds)"
    and free: "decl_location d \<notin> set (all_locations (paths s))"
    and run: "location_handler (decl_location d) (decl_handler d) d s = (None, s')"
  shows "paths_spec (ds @ [d]) (paths s')"
proof -
  have maps: "map_ok (static_paths (paths s))" "map_ok (crud_paths (paths s))"
    using ok by (simp_all add: paths_ok_def)
  note snoc = locations_of_snoc declared_path_snoc [OF new]
  show ?thesis
    using run
  proof (cases rule: location_handler_cases)
    case (static f m)
    from path_block_value [OF static(2) maps(1)] static_entry_free(1) [OF free] spec static(1,3) show ?thesis
      by (auto simp: paths_spec_def snoc split: option.split)
  next
    case (crud f m)
    from path_block_value [OF crud(2) maps(2)] static_entry_free(2) [OF free] spec crud(1,3) show ?thesis
      by (auto simp: paths_spec_def snoc split: option.split)
  next
    case (app g1 g2)
    from for_block_app_lines [OF app(2)] spec app(1) show ?thesis
      by (simp add: paths_spec_def snoc)
  qed (use spec in \<open>simp_all add: paths_spec_def snoc\<close>)
qed

lemma location_statement_decl:
  assumes "begins ''location'' d" and "location_statement d s = (None, s')"
  shows "2 < length (tokens d) \<and> decl_location d \<notin> set (used_locations s) \<and>
    location_handler (decl_location d) (decl_handler d) d
      (s\<lparr>used_locations := decl_location d # used_locations s\<rparr>) = (None, s')"
  using assms
  by (auto simp: location_statement_def with_token_cases begins_nth decl_location_def
      decl_handler_def split: if_splits)

lemma scan_spec_step:
  assumes spec: "scan_spec ds s" and d: "begins ''location'' d"
    and run: "location_statement d s = (None, s')"
  shows "scan_spec (ds @ [d]) s'"
proof -
  define s1 where "s1 = s\<lparr>used_locations := decl_location d # used_locations s\<rparr>"
  have new: "decl_location d \<notin> set (map decl_location ds)"
    and h: "location_handler (decl_location d) (decl_handler d) d s1 = (None, s')"
    using location_statement_decl [OF d run] spec by (auto simp: scan_spec_def s1_def)
  have free: "decl_location d \<notin> set (all_locations (paths s1))"
    using spec new by (auto simp: scan_spec_def s1_def)
  have ok: "paths_ok (paths s1)" and ps: "paths_spec ds (paths s1)"
    using spec by (simp_all add: scan_spec_def s1_def)
  from location_handler_ok [OF ok free h] location_handler_spec [OF ps ok new free h] spec new
  show ?thesis by (auto simp: scan_spec_def s1_def)
qed

lemma scan_spec_run:
  "scan_spec ds s \<Longrightarrow> \<forall>d \<in> set es. begins ''location'' d \<Longrightarrow>
   for_each location_statement es s = (None, s') \<Longrightarrow> scan_spec (ds @ es) s'"
proof (induction es arbitrary: ds s)
  case (Cons d es)
  obtain e s1 where b: "location_statement d s = (e, s1)" by (cases "location_statement d s")
  have e: "e = None" using Cons.prems(3) b by (cases e) simp_all
  have "scan_spec (ds @ [d]) s1" using scan_spec_step [OF Cons.prems(1)] Cons.prems(2) b e by simp
  from Cons.IH [OF this] Cons.prems b e show ?case by simp
qed simp

lemma setServerPaths_scan:
  assumes "setServerPaths config i = (None, i')"
  shows "scan_spec (server_lines ''location'' config)
    \<lparr>paths = server_paths_ptr i', used_locations = rev (map decl_location (server_lines ''location'' config)),
     key = api_key i', url = chatgpt_url i'\<rparr>"
proof -
  define s0 where "s0 = \<lparr>paths = empty_paths, used_locations = [], key = api_key i, url = chatgpt_url i\<rparr>"
  obtain s' where run: "for_each server_statement config s0 = (None, s')"
    and i': "i' = \<lparr>server_paths_ptr = paths s', api_key = key s', chatgpt_url = url s'\<rparr>"
    using assms by (auto simp: setServerPaths_def s0_def split: prod.splits option.splits)
  have "for_each location_statement (server_lines ''location'' config) s0 = (None, s')"
    by (rule for_each_server_lines [OF _ _ _ run])
      (auto simp: server_statement_def location_statement_def begins_nth with_token_def vec_at_def)
  moreover have "scan_spec [] s0"
    by (simp add: scan_spec_def s0_def empty_paths_def paths_ok_def all_locations_def paths_spec_def
        locations_of_def declared_path_def)
  ultimately have "scan_spec (server_lines ''location'' config) s'"
    using scan_spec_run [of "[]" s0] by (simp add: server_lines_def)
  then show ?thesis by (simp add: scan_spec_def i')
qed

subsection \<open>Configurations that are accepted\<close>

text \<open>
  A block read for one keyword: it exists, its statements have tokens, and at most one begins
  with the keyword, with an argument.
\<close>

definition lines_wf :: "string \<Rightarrow> nginx_statement \<Rightarrow> bool" where
  "lines_wf w d \<longleftrightarrow>
     child_block d \<noteq> None \<and> (\<forall>l \<in> set (block_of d). tokens l \<noteq> []) \<and>
     length (filter (begins w) (block_of d)) \<le> 1 \<and>
     (\<forall>l \<in> set (block_of d). begins w l \<longrightarrow> 1 < length (tokens l))"

definition decl_wf :: "nginx_statement \<Rightarrow> bool" where
  "decl_wf d \<longleftrightarrow>
     2 < length (tokens d) \<and>
     (decl_handler d = ''StaticHandler'' \<longrightarrow> lines_wf ''root'' d) \<and>
     (decl_handler d = ''CrudHandler'' \<longrightarrow> lines_wf ''data_path'' d) \<and>
     (decl_handler d = ''AppHandler'' \<longrightarrow> lines_wf ''api_key'' d \<and> lines_wf ''chatgpt_url'' d)"

definition config_ok :: "nginx_config \<Rightarrow> bool" where
  "config_ok config \<longleftrightarrow>
     (\<forall>st \<in> set config. tokens st \<noteq> [] \<and>
        (begins ''server'' st \<longrightarrow> child_block st \<noteq> None \<and>
           (\<forall>l \<in> set (block_of st). tokens l \<noteq> [] \<and> (begins ''location'' l \<longrightarrow> decl_wf l)))) \<and>
     distinct (map decl_location (server_lines ''location'' config))"

lemma path_lines_run:
  "\<forall>l \<in> set ls. tokens l \<noteq> [] \<Longrightarrow> \<forall>l \<in> set ls. begins w l \<longrightarrow> 1 < length (tokens l) \<Longrightarrow>
   length (filter (begins w) ls) + (if found then 1 else 0) \<le> 1 \<Longrightarrow>
   fst (for_each (path_line w loc) ls (found, m)) = None"
proof (induction ls arbitrary: found m)
  case (Cons l ls)
  show ?case
  proof (cases "begins w l")
    case True
    with Cons.prems have "\<not> found" "path_line w loc l (found, m) = (None, True, map_set loc (tokens l ! 1) m)"
      by (auto simp: path_line_def begins_nth split: if_splits)
    with True Cons.prems Cons.IH [of True] show ?thesis by simp
  next
    case False
    with Cons.prems have "path_line w loc l (found, m) = (None, found, m)"
      by (simp add: path_line_def begins_nth)
    with False Cons.prems Cons.IH [of found] show ?thesis by simp
  qed
qed simp

lemma app_lines_run:
  "\<forall>l \<in> set ls. tokens l \<noteq> [] \<Longrightarrow>
   \<forall>l \<in> set ls. begins ''api_key'' l \<or> begins ''chatgpt_url'' l \<longrightarrow> 1 < length (tokens l) \<Longrightarrow>
   length (filter (begins ''api_key'') ls) + (if f1 then 1 else 0) \<le> 1 \<Longrightarrow>
   length (filter (begins ''chatgpt_url'') ls) + (if f2 then 1 else 0) \<le> 1 \<Longrightarrow>
   fst (for_each app_line ls (f1, f2, s)) = None"
proof (induction ls arbitrary: f1 f2 s)
  case (Cons l ls)
  consider (key) "begins ''api_key'' l" | (url) "begins ''chatgpt_url'' l"
    | (other) "\<not> begins ''api_key'' l \<and> \<not> begins ''chatgpt_url'' l" by blast
  then show ?case
  proof cases
    case key
    then have "\<not> begins ''chatgpt_url'' l" by (simp add: begins_def)
    moreover from key Cons.prems have "\<not> f1"
      "app_line l (f1, f2, s) = (None, True, f2, s\<lparr>key := tokens l ! 1\<rparr>)"
      by (auto simp: app_line_def begins_nth split: if_splits)
    ultimately show ?thesis using key Cons.prems Cons.IH [of True f2] by simp
  next
    case url
    then have "\<not> begins ''api_key'' l" by (simp add: begins_def)
    moreover from url Cons.prems have "\<not> f2"
      "app_line l (f1, f2, s) = (None, f1, True, s\<lparr>url := tokens l ! 1\<rparr>)"
      by (auto simp: app_line_def begins_nth split: if_splits)
    ultimately show ?thesis using url Cons.prems Cons.IH [of f1 True] by simp
  next
    case other
    with Cons.prems have "app_line l (f1, f2, s) = (None, f1, f2, s)"
      by (simp add: app_line_def begins_nth)
    with other Cons.prems Cons.IH [of f1 f2] show ?thesis by simp
  qed
qed simp

lemma lines_wf_block:
  assumes "lines_wf w d"
  shows "fst (for_block d (path_line w loc) (False, m)) = None"
proof -
  from assms obtain c where c: "child_block d = Some c" by (auto simp: lines_wf_def)
  with assms path_lines_run [of c w False loc m] show ?thesis
    by (auto simp: lines_wf_def for_block_def block_of_def)
qed

lemma app_wf_block:
  assumes "lines_wf ''api_key'' d" and "lines_wf ''chatgpt_url'' d"
  shows "fst (for_block d app_line (False, False, s)) = None"
proof -
  from assms obtain c where c: "child_block d = Some c" by (auto simp: lines_wf_def)
  with assms app_lines_run [of c False False s] show ?thesis
    by (auto simp: lines_wf_def for_block_def block_of_def)
qed

lemma location_handler_run:
  assumes "decl_wf d"
  shows "fst (location_handler (decl_location d) (decl_handler d) d s) = None"
proof -
  consider (static) "decl_handler d = ''StaticHandler''" | (crud) "decl_handler d = ''CrudHandler''"
    | (app) "decl_handler d = ''AppHandler''"
    | (other) "decl_handler d \<noteq> ''StaticHandler''" "decl_handler d \<noteq> ''CrudHandler''"
        "decl_handler d \<noteq> ''AppHandler''" by blast
  then show ?thesis
  proof cases
    case static
    with assms lines_wf_block [of "''root''" d "decl_location d" "static_paths (paths s)"] show ?thesis
      by (auto simp: decl_wf_def location_handler_def static_location_def split: prod.split)
  next
    case crud
    with assms lines_wf_block [of "''data_path''" d "decl_location d" "crud_paths (paths s)"] show ?thesis
      by (auto simp: decl_wf_def location_handler_def crud_location_def split: prod.split)
  next
    case app
    with assms app_wf_block [of d] show ?thesis
      by (simp add: decl_wf_def location_handler_def app_location_def Let_def split: prod.split)
        (metis fst_conv)
  next
    case other
    then show ?thesis by (simp add: location_handler_def)
  qed
qed

text \<open>Conversely, what a loop without an exception has seen.\<close>

lemma for_each_each:
  "for_each body xs s = (None, s') \<Longrightarrow> x \<in> set xs \<Longrightarrow> \<exists>t t'. body x t = (None, t')"
proof (induction xs arbitrary: s)
  case (Cons y xs)
  obtain e s1 where b: "body y s = (e, s1)" by (cases "body y s")
  with Cons.prems(1) have "e = None" by (cases e) auto
  with b Cons show ?case by auto
qed simp

lemma path_lines_seen:
  "for_each (path_line w loc) ls (found, m) = (None, r) \<Longrightarrow>
   (\<forall>l \<in> set ls. tokens l \<noteq> [] \<and> (begins w l \<longrightarrow> 1 < length (tokens l))) \<and>
   length (filter (begins w) ls) + (if found then 1 else 0) \<le> 1"
proof (induction ls arbitrary: found m)
  case (Cons l ls)
  obtain e s1 where b: "path_line w loc l (found, m) = (e, s1)" by (cases "path_line w loc l (found, m)")
  with Cons.prems have e: "e = None" and run: "for_each (path_line w loc) ls s1 = (None, r)"
    by (cases e; auto)+
  have t: "tokens l \<noteq> []" using b e by (auto simp: path_line_def with_token_cases split: if_splits)
  show ?case
  proof (cases "begins w l")
    case True
    then have "1 < length (tokens l)" "\<not> found" "\<exists>m'. s1 = (True, m')"
      using b e t by (auto simp: path_line_def begins_nth with_token_cases split: if_splits)
    with Cons.IH [of True] run t True show ?thesis by auto
  next
    case False
    then have "s1 = (found, m)" using b e t by (auto simp: path_line_def begins_nth)
    with Cons.IH [of found m] run t False show ?thesis by auto
  qed
qed simp

lemma app_lines_seen:
  "for_each app_line ls (f1, f2, s) = (None, r) \<Longrightarrow>
   (\<forall>l \<in> set ls. tokens l \<noteq> [] \<and> (begins ''api_key'' l \<or> begins ''chatgpt_url'' l \<longrightarrow> 1 < length (tokens l))) \<and>
   length (filter (begins ''api_key'') ls) + (if f1 then 1 else 0) \<le> 1 \<and>
   length (filter (begins ''chatgpt_url'') ls) + (if f2 then 1 else 0) \<le> 1"
proof (induction ls arbitrary: f1 f2 s)
  case (Cons l ls)
  obtain e s1 where b: "app_line l (f1, f2, s) = (e, s1)" by (cases "app_line l (f1, f2, s)")
  with Cons.prems have e: "e = None" and run: "for_each app_line ls s1 = (None, r)"
    by (cases e; auto)+
  have t: "tokens l \<noteq> []" using b e by (auto simp: app_line_def with_token_cases split: if_splits)
  consider (key) "begins ''api_key'' l" | (url) "begins ''chatgpt_url'' l"
    | (other) "\<not> begins ''api_key'' l" "\<not> begins ''chatgpt_url'' l" by blast
  then show ?case
  proof cases
    case key
    then have "1 < length (tokens l)" "\<not> f1" "\<exists>s'. s1 = (True, f2, s')" "\<not> begins ''chatgpt_url'' l"
      using b e t by (auto simp: app_line_def begins_nth with_token_cases split: if_splits)
    with Cons.IH [of True f2] run t key show ?thesis by auto
  next
    case url
    then have "1 < length (tokens l)" "\<not> f2" "\<exists>s'. s1 = (f1, True, s')" "\<not> begins ''api_key'' l"
      using b e t by (auto simp: app_line_def begins_nth with_token_cases split: if_splits)
    with Cons.IH [of f1 True] run t url show ?thesis by auto
  next
    case other
    then have "s1 = (f1, f2, s)" using b e t by (auto simp: app_line_def begins_nth)
    with Cons.IH [of f1 f2 s] run t other show ?thesis by auto
  qed
qed simp

lemma path_block_seen:
  assumes "for_block d (path_line w loc) (False, m) = (None, r)"
  shows "lines_wf w d"
proof -
  from assms obtain c where "child_block d = Some c" "for_each (path_line w loc) c (False, m) = (None, r)"
    by (auto simp: for_block_def split: option.splits)
  with path_lines_seen [OF this(2)] show ?thesis by (simp add: lines_wf_def block_of_def)
qed

lemma app_block_seen:
  assumes "for_block d app_line (False, False, s) = (None, r)"
  shows "lines_wf ''api_key'' d \<and> lines_wf ''chatgpt_url'' d"
proof -
  from assms obtain c where "child_block d = Some c" "for_each app_line c (False, False, s) = (None, r)"
    by (auto simp: for_block_def split: option.splits)
  with app_lines_seen [OF this(2)] show ?thesis by (simp add: lines_wf_def block_of_def)
qed

lemma location_statement_seen:
  assumes "location_statement l s = (None, s')"
  shows "tokens l \<noteq> [] \<and> (begins ''location'' l \<longrightarrow> decl_wf l)"
proof -
  have t: "tokens l \<noteq> []" using assms by (auto simp: location_statement_def with_token_cases split: if_splits)
  moreover have "decl_wf l" if "begins ''location'' l"
  proof -
    from assms that obtain s1 where len: "2 < length (tokens l)"
      and h: "location_handler (tokens l ! 1) (decl_handler l) l s1 = (None, s')"
      by (auto simp: location_statement_def with_token_cases begins_nth decl_handler_def split: if_splits)
    then show ?thesis
      using path_block_seen [of l "''root''" "tokens l ! 1"] path_block_seen [of l "''data_path''" "tokens l ! 1"]
        app_block_seen [of l]
      by (auto simp: decl_wf_def location_handler_def static_location_def crud_location_def app_location_def Let_def
          split: prod.splits)
  qed
  ultimately show ?thesis by blast
qed

lemma server_statement_seen:
  assumes "server_statement st s = (None, s')"
  shows "tokens st \<noteq> [] \<and> (begins ''server'' st \<longrightarrow> child_block st \<noteq> None \<and>
    (\<forall>l \<in> set (block_of st). tokens l \<noteq> [] \<and> (begins ''location'' l \<longrightarrow> decl_wf l)))"
proof -
  have t: "tokens st \<noteq> []" using assms by (auto simp: server_statement_def with_token_cases split: if_splits)
  moreover have "child_block st \<noteq> None \<and>
      (\<forall>l \<in> set (block_of st). tokens l \<noteq> [] \<and> (begins ''location'' l \<longrightarrow> decl_wf l))" if "begins ''server'' st"
  proof -
    from assms that t obtain c where c: "child_block st = Some c" "for_each location_statement c s = (None, s')"
      by (auto simp: server_statement_def begins_nth for_block_def split: option.splits)
    from for_each_each [OF c(2)] location_statement_seen c(1) show ?thesis by (fastforce simp: block_of_def)
  qed
  ultimately show ?thesis by blast
qed

lemma location_statement_used:
  "location_statement d s = (None, s') \<Longrightarrow> begins ''location'' d \<Longrightarrow> scan_spec ds s \<Longrightarrow>
   used_locations s' = decl_location d # used_locations s"
  using scan_spec_step [of ds s d s'] by (auto simp: scan_spec_def)

text \<open>The loop over the lines of one \<open>server\<close> block, then over the servers.\<close>

lemma location_lines_run:
  "\<forall>l \<in> set ls. tokens l \<noteq> [] \<and> (begins ''location'' l \<longrightarrow> decl_wf l) \<Longrightarrow> scan_spec ds s \<Longrightarrow>
   distinct (map decl_location (ds @ filter (begins ''location'') ls)) \<Longrightarrow>
   \<exists>s'. for_each location_statement ls s = (None, s') \<and>
        scan_spec (ds @ filter (begins ''location'') ls) s'"
proof (induction ls arbitrary: ds s)
  case (Cons l ls)
  show ?case
  proof (cases "begins ''location'' l")
    case True
    have new: "decl_location l \<notin> set (used_locations s)"
      using Cons.prems(2,3) True by (auto simp: scan_spec_def)
    have "fst (location_statement l s) = None"
      using Cons.prems(1) True new location_handler_run [of l]
      by (auto simp: location_statement_def decl_wf_def begins_nth decl_location_def decl_handler_def)
    then obtain s1 where b: "location_statement l s = (None, s1)"
      by (cases "location_statement l s") auto
    have "scan_spec (ds @ [l]) s1" by (rule scan_spec_step [OF Cons.prems(2) True b])
    from Cons.IH [OF _ this] Cons.prems b True show ?thesis by simp
  next
    case False
    with Cons.prems(1) have "location_statement l s = (None, s)"
      by (simp add: location_statement_def begins_nth)
    with False Cons.prems Cons.IH [of ds s] show ?thesis by simp
  qed
qed simp

lemma server_statements_run:
  "\<forall>st \<in> set c. tokens st \<noteq> [] \<and> (begins ''server'' st \<longrightarrow> child_block st \<noteq> None \<and>
      (\<forall>l \<in> set (block_of st). tokens l \<noteq> [] \<and> (begins ''location'' l \<longrightarrow> decl_wf l))) \<Longrightarrow>
   scan_spec ds s \<Longrightarrow> distinct (map decl_location (ds @ server_lines ''location'' c)) \<Longrightarrow>
   \<exists>s'. for_each server_statement c s = (None, s')"
proof (induction c arbitrary: ds s)
  case (Cons st c)
  show ?case
  proof (cases "begins ''server'' st")
    case True
    then obtain b where b: "child_block st = Some b" using Cons.prems(1) by auto
    have "\<exists>s'. for_each location_statement b s = (None, s') \<and>
        scan_spec (ds @ filter (begins ''location'') b) s'"
      using Cons.prems True b
      by (intro location_lines_run) (auto simp: block_of_def server_lines_Cons)
    then obtain s1 where run: "for_each location_statement b s = (None, s1)"
      and spec: "scan_spec (ds @ filter (begins ''location'') b) s1" by blast
    from run True b have "server_statement st s = (None, s1)"
      by (simp add: server_statement_def for_block_def begins_nth)
    with Cons.IH [OF _ spec] Cons.prems True b show ?thesis
      by (simp add: server_lines_Cons block_of_def)
  next
    case False
    with Cons.prems(1) have "server_statement st s = (None, s)"
      by (simp add: server_statement_def begins_nth)
    with False Cons.prems Cons.IH [of ds s] show ?thesis by (simp add: server_lines_Cons)
  qed
qed simp

lemma scan_spec_init:
  "scan_spec [] \<lparr>paths = empty_paths, used_locations = [], key = k, url = u\<rparr>"
  by (simp add: scan_spec_def empty_paths_def paths_ok_def all_locations_def paths_spec_def
      locations_of_def declared_path_def)

subsection \<open>Properties\<close>

text \<open>
  The port. Whenever \<open>getPort\<close> returns, the port is between 0 and 65535, it is 80 when no
  \<open>server\<close> block has a \<open>listen\<close> line, and otherwise what the last \<open>listen\<close> line says.
\<close>

lemma getPort_last_listen:
  assumes "getPort config = Inr p"
  shows "0 \<le> p \<and> p \<le> 65535 \<and>
    p = (if server_lines ''listen'' config = [] then 80
         else listen_port (last (server_lines ''listen'' config)))"
  using getPort_lines [OF assms] listen_port_range by auto

definition demo_config :: nginx_config where
  "demo_config =
     [NginxConfigStatement [''server'']
        (Some [NginxConfigStatement [''listen'', ''80''] None,
               NginxConfigStatement [''location'', ''/echo'', ''EchoHandler''] (Some []),
               NginxConfigStatement [''location'', ''/img'', ''StaticHandler'']
                 (Some [NginxConfigStatement [''root'', ''../img''] None]),
               NginxConfigStatement [''location'', ''/api'', ''CrudHandler'']
                 (Some [NginxConfigStatement [''data_path'', ''../data''] None]),
               NginxConfigStatement [''listen'', ''8080''] None])]"

lemmas port_eval = getPort_def with_token_def for_block_def port_statement_def listen_port_def
  stoi_def scan_number_def strip_sign_def digits_value_def digit_value_def is_digit_def is_space_def
  byte_def MINIMUM_VALID_PORT_def MAXIMUM_VALID_PORT_def

lemma demo_port: "getPort demo_config = Inr 8080"
  by (simp add: demo_config_def port_eval)

text \<open>
  C16: the routing table is what the configuration declares. When \<open>setServerPaths\<close> returns
  normally, the lists of echo, health, sleep and app locations are the declared ones in order,
  and a location is mapped to a directory exactly when a \<open>StaticHandler\<close> (\<open>CrudHandler\<close>)
  declaration for it has a \<open>root\<close> (\<open>data_path\<close>) line, to the argument of that line.
\<close>

theorem setServerPaths_table:
  assumes "setServerPaths config i = (None, i')"
  shows "paths_spec (server_lines ''location'' config) (getServerPaths i')"
  using setServerPaths_scan [OF assms] by (simp add: scan_spec_def getServerPaths_def)

text \<open>
  C25: one location, one handler. When \<open>setServerPaths\<close> returns normally, no location is declared
  twice in the configuration, no location occurs twice in the table, whatever the handlers, and
  the two maps are ordered.
\<close>

theorem setServerPaths_unique:
  assumes "setServerPaths config i = (None, i')"
  shows "distinct (map decl_location (server_lines ''location'' config)) \<and>
    paths_ok (getServerPaths i')"
  using setServerPaths_scan [OF assms] by (simp add: scan_spec_def getServerPaths_def)

text \<open>
  C30: which configurations are accepted, exactly: \<open>setServerPaths\<close> raises nothing if and only if all
  statements it looks at have tokens, the blocks the code reads exist, declarations have their three
  words, keyword lines occur at most once in a block and with their argument, and no location is
  declared twice.
\<close>

theorem setServerPaths_accepts:
  "fst (setServerPaths config i) = None \<longleftrightarrow> config_ok config"
proof
  assume "config_ok config"
  then show "fst (setServerPaths config i) = None"
    using server_statements_run [of config "[]", OF _ scan_spec_init [of "api_key i" "chatgpt_url i"]]
    by (auto simp: config_ok_def setServerPaths_def)
next
  assume "fst (setServerPaths config i) = None"
  then obtain i' where run: "setServerPaths config i = (None, i')" by (metis prod.collapse)
  then obtain s s' where "for_each server_statement config s = (None, s')"
    by (auto simp: setServerPaths_def split: prod.splits option.splits)
  from for_each_each [OF this] server_statement_seen
  have "\<forall>st \<in> set config. tokens st \<noteq> [] \<and> (begins ''server'' st \<longrightarrow> child_block st \<noteq> None \<and>
      (\<forall>l \<in> set (block_of st). tokens l \<noteq> [] \<and> (begins ''location'' l \<longrightarrow> decl_wf l)))"
    by fastforce
  then show "config_ok config"
    using setServerPaths_scan [OF run] by (auto simp: config_ok_def scan_spec_def)
qed

text \<open>
  An exception leaves the routing table alone. Whatever \<open>setServerPaths\<close> raises, the paths
  served are still those of before the call.
\<close>

lemma setServerPaths_error_keeps_paths:
  assumes "setServerPaths config i = (Some e, i')"
  shows "getServerPaths i' = getServerPaths i"
  using assms by (auto simp: setServerPaths_def getServerPaths_def split: prod.splits option.splits)

lemma demo_config_ok: "config_ok demo_config"
  by (simp add: config_ok_def demo_config_def decl_wf_def lines_wf_def decl_handler_def
      decl_location_def server_lines_def begins_def block_of_def)

lemmas paths_eval = setServerPaths_def server_statement_def location_statement_def
  location_handler_def static_location_def crud_location_def app_location_def path_line_def
  app_line_def for_block_def with_token_def vec_at_def empty_paths_def Let_def

definition demo_interpreter :: interpreter where
  "demo_interpreter = snd (setServerPaths demo_config new_interpreter)"

lemma demo_runs: "setServerPaths demo_config new_interpreter = (None, demo_interpreter)"
  unfolding demo_interpreter_def by (simp add: demo_config_def new_interpreter_def paths_eval)

theorem setServerPaths_table_witness:
  "paths_spec (server_lines ''location'' demo_config) (getServerPaths demo_interpreter)"
  by (rule setServerPaths_table [OF demo_runs])

theorem setServerPaths_unique_witness:
  "distinct (map decl_location (server_lines ''location'' demo_config)) \<and>
   paths_ok (getServerPaths demo_interpreter)"
  by (rule setServerPaths_unique [OF demo_runs])

definition duplicate_config :: nginx_config where
  "duplicate_config =
     [NginxConfigStatement [''server'']
        (Some [NginxConfigStatement [''location'', ''/a'', ''EchoHandler''] (Some []),
               NginxConfigStatement [''location'', ''/a'', ''SleepHandler''] (Some [])])]"

lemma duplicate_raises:
  "setServerPaths duplicate_config demo_interpreter = (Some (dup_location ''/a''), demo_interpreter)"
  by (simp add: duplicate_config_def paths_eval)

lemma setServerPaths_error_keeps_paths_witness:
  "getServerPaths (snd (setServerPaths duplicate_config demo_interpreter)) = getServerPaths demo_interpreter"
  using setServerPaths_error_keeps_paths [OF duplicate_raises] by (simp add: duplicate_raises)

text \<open>
  Configurations the parser accepts and the interpreter then dereferences a null
  \<open>child_block_\<close> of: a \<open>server\<close> statement that ends with a semicolon, a static location that does.
\<close>

lemma server_without_block:
  "fst (setServerPaths [NginxConfigStatement [''server''] None] i) = Some null_block"
  "getPort [NginxConfigStatement [''server''] None] = Inl null_block"
  by (simp_all add: paths_eval port_eval)

lemma static_without_block:
  "fst (setServerPaths [NginxConfigStatement [''server'']
     (Some [NginxConfigStatement [''location'', ''/s'', ''StaticHandler''] None])] i) = Some null_block"
  by (simp add: paths_eval)

end
