(* ===== verification/Filesystem.thy ===== *)
theory Filesystem
  imports Dinner_Prelude "HOL-Library.AList"
begin

text \<open>
  The part of \<open>std::filesystem\<close> and of the file streams that the sources use, on a tree of files
  and directories. A path string is resolved component by component from the working directory
  or the root, as the operating system does: an empty component and a dot stay, two dots go up, and
  every component but the last must be a directory. There are no links. Reading and writing can
  be refused per file, so that every failure branch of the code is reachable.
\<close>

subsection \<open>Files and paths\<close>

datatype fnode = Regular string | Directory

type_synonym path = "string list"

record filesystem =
  nodes :: "(path \<times> fnode) list"
  cwd :: path
  unreadable :: "path \<Rightarrow> bool"
  unwritable :: "path \<Rightarrow> bool"
  dir_end :: int \<comment> \<open>what \<open>tellg\<close> answers at the end of a directory opened as a file\<close>

definition node :: "filesystem \<Rightarrow> path \<Rightarrow> fnode option" where
  "node f p = map_of (nodes f) p"

definition is_dir :: "filesystem \<Rightarrow> path \<Rightarrow> bool" where
  "is_dir f p \<longleftrightarrow> node f p = Some Directory"

definition put_node :: "path \<Rightarrow> fnode \<Rightarrow> filesystem \<Rightarrow> filesystem" where
  "put_node p n f = f\<lparr>nodes := AList.update p n (nodes f)\<rparr>"

definition del_node :: "path \<Rightarrow> filesystem \<Rightarrow> filesystem" where
  "del_node p f = f\<lparr>nodes := AList.delete p (nodes f)\<rparr>"

fun node_text :: "fnode \<Rightarrow> string" where
  "node_text (Regular c) = c"
| "node_text Directory = []"

fun split_slash_acc :: "string \<Rightarrow> string \<Rightarrow> string list" where
  "split_slash_acc cur [] = [cur]"
| "split_slash_acc cur (c # s) =
     (if c = CHR ''/'' then cur # split_slash_acc [] s else split_slash_acc (cur @ [c]) s)"

definition split_slash :: "string \<Rightarrow> string list" where
  "split_slash s = split_slash_acc [] s"

fun walk :: "filesystem \<Rightarrow> path \<Rightarrow> string list \<Rightarrow> path option" where
  "walk f cur [] = Some cur"
| "walk f cur (c # cs) =
     (if is_dir f cur then
        (if c = [] \<or> c = ''.'' then walk f cur cs
         else if c = ''..'' then walk f (butlast cur) cs
         else walk f (cur @ [c]) cs)
      else None)"

definition start_dir :: "filesystem \<Rightarrow> string \<Rightarrow> path" where
  "start_dir f s = (if s \<noteq> [] \<and> hd s = CHR ''/'' then [] else cwd f)"

definition locate :: "filesystem \<Rightarrow> string \<Rightarrow> path option" where
  "locate f s = (if s = [] then None else walk f (start_dir f s) (split_slash s))"

subsection \<open>Operations\<close>

definition exists_path :: "filesystem \<Rightarrow> string \<Rightarrow> bool" where
  "exists_path f s = (case locate f s of None \<Rightarrow> False | Some p \<Rightarrow> node f p \<noteq> None)"

text \<open>\<open>std::ifstream\<close>: a directory opens too, and reads as nothing.\<close>

definition open_read :: "filesystem \<Rightarrow> string \<Rightarrow> fnode option" where
  "open_read f s =
     (case locate f s of
        None \<Rightarrow> None
      | Some p \<Rightarrow> (if unreadable f p then None else node f p))"

text \<open>\<open>std::fstream\<close> in its default mode: the file must exist and be readable and writable.\<close>

definition open_read_write :: "filesystem \<Rightarrow> string \<Rightarrow> string option" where
  "open_read_write f s =
     (case locate f s of
        None \<Rightarrow> None
      | Some p \<Rightarrow>
          (case node f p of
             Some (Regular c) \<Rightarrow> (if unreadable f p \<or> unwritable f p then None else Some c)
           | _ \<Rightarrow> None))"

text \<open>
  \<open>std::ofstream\<close>, written with a text and closed: whether it opened, and the result. The
  function says what becomes of the old text (\<open>\<lambda>_. s\<close> to truncate, \<open>\<lambda>old. old @ s\<close> to append).
\<close>

definition write_with :: "(string \<Rightarrow> string) \<Rightarrow> filesystem \<Rightarrow> string \<Rightarrow> bool \<times> filesystem" where
  "write_with g f s =
     (case locate f s of
        None \<Rightarrow> (False, f)
      | Some p \<Rightarrow>
          (if unwritable f p then (False, f)
           else (case node f p of
                   Some Directory \<Rightarrow> (False, f)
                 | Some (Regular c) \<Rightarrow> (True, put_node p (Regular (g c)) f)
                 | None \<Rightarrow> (True, put_node p (Regular (g [])) f))))"

definition write_file :: "filesystem \<Rightarrow> string \<Rightarrow> string \<Rightarrow> bool \<times> filesystem" where
  "write_file f s text = write_with (\<lambda>_. text) f s"

definition append_file :: "filesystem \<Rightarrow> string \<Rightarrow> string \<Rightarrow> bool \<times> filesystem" where
  "append_file f s text = write_with (\<lambda>old. old @ text) f s"

text \<open>\<open>create_directories\<close>: false stands for the \<open>filesystem_error\<close> it throws.\<close>

fun make_dirs :: "filesystem \<Rightarrow> path \<Rightarrow> string list \<Rightarrow> bool \<times> filesystem" where
  "make_dirs f cur [] = (is_dir f cur, f)"
| "make_dirs f cur (c # cs) =
     (if \<not> is_dir f cur then (False, f)
      else if c = [] \<or> c = ''.'' then make_dirs f cur cs
      else if c = ''..'' then make_dirs f (butlast cur) cs
      else (case node f (cur @ [c]) of
              Some Directory \<Rightarrow> make_dirs f (cur @ [c]) cs
            | Some (Regular t) \<Rightarrow> (False, f)
            | None \<Rightarrow>
                (if unwritable f cur then (False, f)
                 else make_dirs (put_node (cur @ [c]) Directory f) (cur @ [c]) cs)))"

definition create_directories :: "filesystem \<Rightarrow> string \<Rightarrow> bool \<times> filesystem" where
  "create_directories f s =
     (if s = [] then (False, f) else make_dirs f (start_dir f s) (split_slash s))"

text \<open>\<open>std::filesystem::remove\<close>; a directory must be empty.\<close>

definition remove_path :: "filesystem \<Rightarrow> string \<Rightarrow> bool result \<times> filesystem" where
  "remove_path f s =
     (case locate f s of
        None \<Rightarrow> (Inr False, f)
      | Some p \<Rightarrow>
          (case node f p of
             None \<Rightarrow> (Inr False, f)
           | Some n \<Rightarrow>
               (if p = [] \<or> unwritable f (butlast p)
                   \<or> (\<exists>q \<in> set (map fst (nodes f)). strict_prefix p q)
                then (Inl Filesystem_error, f)
                else (Inr True, del_node p f))))"

text \<open>\<open>copy_file\<close> with \<open>overwrite_existing\<close>.\<close>

definition copy_file :: "filesystem \<Rightarrow> string \<Rightarrow> string \<Rightarrow> unit result \<times> filesystem" where
  "copy_file f from to =
     (case open_read f from of
        Some (Regular c) \<Rightarrow>
          (if locate f from = locate f to then (Inl Filesystem_error, f)
           else (case write_file f to c of
                   (True, f') \<Rightarrow> (Inr (), f')
                 | (False, f') \<Rightarrow> (Inl Filesystem_error, f')))
      | _ \<Rightarrow> (Inl Filesystem_error, f))"

text \<open>The names of the regular files in a directory; \<open>None\<close> is the \<open>filesystem_error\<close>.\<close>

definition list_directory :: "filesystem \<Rightarrow> string \<Rightarrow> string list option" where
  "list_directory f s =
     (case locate f s of
        None \<Rightarrow> None
      | Some d \<Rightarrow>
          (if is_dir f d \<and> \<not> unreadable f d then
             Some (map last (filter (\<lambda>p. p \<noteq> [] \<and> butlast p = d \<and>
                                      (case node f p of Some (Regular c) \<Rightarrow> True | _ \<Rightarrow> False))
                      (remdups (map fst (nodes f)))))
           else None))"

subsection \<open>Nodes\<close>

lemma node_put [simp]: "node (put_node p n f) = (node f)(p \<mapsto> n)"
  by (rule ext) (simp add: node_def put_node_def update_conv')

lemma node_del [simp]: "node (del_node p f) = (node f)(p := None)"
  by (rule ext) (simp add: node_def del_node_def delete_conv')

lemma is_dir_put: "is_dir (put_node p n f) q \<longleftrightarrow> (if q = p then n = Directory else is_dir f q)"
  by (auto simp: is_dir_def)

lemma is_dir_del: "is_dir (del_node p f) q \<longleftrightarrow> q \<noteq> p \<and> is_dir f q"
  by (auto simp: is_dir_def)

lemma put_node_fields [simp]:
  "cwd (put_node p n f) = cwd f" "unreadable (put_node p n f) = unreadable f"
  "unwritable (put_node p n f) = unwritable f" "dir_end (put_node p n f) = dir_end f"
  by (simp_all add: put_node_def)

lemma del_node_fields [simp]:
  "cwd (del_node p f) = cwd f" "unreadable (del_node p f) = unreadable f"
  "unwritable (del_node p f) = unwritable f" "dir_end (del_node p f) = dir_end f"
  by (simp_all add: del_node_def)

subsection \<open>Resolving paths\<close>

lemma split_slash_acc_append:
  "split_slash_acc cur (a @ CHR ''/'' # b) = split_slash_acc cur a @ split_slash_acc [] b"
  by (induction cur a rule: split_slash_acc.induct) auto

lemma split_slash_append: "split_slash (a @ CHR ''/'' # b) = split_slash a @ split_slash b"
  by (simp add: split_slash_def split_slash_acc_append)

lemma split_slash_acc_plain: "CHR ''/'' \<notin> set c \<Longrightarrow> split_slash_acc cur c = [cur @ c]"
  by (induction c arbitrary: cur) auto

definition plain_name :: "string \<Rightarrow> bool" where
  "plain_name c \<longleftrightarrow> c \<noteq> [] \<and> c \<noteq> ''.'' \<and> c \<noteq> ''..'' \<and> CHR ''/'' \<notin> set c"

lemma split_slash_plain: "plain_name c \<Longrightarrow> split_slash c = [c]"
  by (simp add: plain_name_def split_slash_def split_slash_acc_plain)

lemma walk_append:
  "walk f cur (xs @ ys) = (case walk f cur xs of None \<Rightarrow> None | Some p \<Rightarrow> walk f p ys)"
  by (induction f cur xs rule: walk.induct) auto

lemma walk_plain: "plain_name c \<Longrightarrow> walk f cur [c] = (if is_dir f cur then Some (cur @ [c]) else None)"
  by (auto simp: plain_name_def)

lemma start_dir_append: "a \<noteq> [] \<Longrightarrow> start_dir f (a @ b) = start_dir f a"
  by (simp add: start_dir_def)

lemma locate_append:
  "a \<noteq> [] \<Longrightarrow> locate f (a @ ''/'' @ b)
    = (case locate f a of None \<Rightarrow> None | Some p \<Rightarrow> walk f p (split_slash b))"
  by (simp add: locate_def start_dir_append split_slash_append walk_append)

lemma locate_child:
  "a \<noteq> [] \<Longrightarrow> plain_name c \<Longrightarrow> locate f (a @ ''/'' @ c)
    = (case locate f a of None \<Rightarrow> None | Some p \<Rightarrow> (if is_dir f p then Some (p @ [c]) else None))"
  using locate_append [of a f c]
  by (simp add: split_slash_plain walk_plain del: walk.simps split: option.split)

lemma walk_cong: "(\<And>p. is_dir f' p = is_dir f p) \<Longrightarrow> walk f' cur cs = walk f cur cs"
  by (induction f cur cs rule: walk.induct) auto

lemma locate_cong: "(\<And>p. is_dir f' p = is_dir f p) \<Longrightarrow> cwd f' = cwd f \<Longrightarrow> locate f' s = locate f s"
  using walk_cong [of f' f] by (simp add: locate_def start_dir_def)

lemma walk_mono: "(\<And>p. is_dir f p \<Longrightarrow> is_dir f' p) \<Longrightarrow> walk f cur cs = Some p \<Longrightarrow> walk f' cur cs = Some p"
  by (induction f cur cs rule: walk.induct) (auto split: if_splits)

lemma locate_mono:
  "(\<And>p. is_dir f p \<Longrightarrow> is_dir f' p) \<Longrightarrow> cwd f' = cwd f \<Longrightarrow> locate f s = Some p \<Longrightarrow> locate f' s = Some p"
  using walk_mono [of f f'] by (auto simp: locate_def start_dir_def split: if_splits)

text \<open>Writing a regular file where no directory is changes no resolution.\<close>

lemma locate_put_file:
  "\<not> is_dir f p \<Longrightarrow> locate (put_node p (Regular c) f) s = locate f s"
  by (rule locate_cong) (auto simp: is_dir_put)

lemma locate_del_file: "\<not> is_dir f p \<Longrightarrow> locate (del_node p f) s = locate f s"
  by (rule locate_cong) (auto simp: is_dir_del)

text \<open>\<open>grows f f'\<close>: nothing was lost or changed, and what is new are directories.\<close>

definition grows :: "filesystem \<Rightarrow> filesystem \<Rightarrow> bool" where
  "grows f f' \<longleftrightarrow>
     (\<forall>p. node f' p = node f p \<or> (node f p = None \<and> node f' p = Some Directory)) \<and>
     cwd f' = cwd f \<and> unreadable f' = unreadable f \<and> unwritable f' = unwritable f"

lemma grows_refl [simp]: "grows f f"
  by (simp add: grows_def)

lemma grows_trans: "grows f g \<Longrightarrow> grows g h \<Longrightarrow> grows f h"
  unfolding grows_def by metis

lemma grows_put_dir: "node f p = None \<Longrightarrow> grows f (put_node p Directory f)"
  by (simp add: grows_def)

lemma grows_node: "grows f f' \<Longrightarrow> node f p = Some n \<Longrightarrow> node f' p = Some n"
  unfolding grows_def by (metis option.distinct(1))

lemma grows_file: "grows f f' \<Longrightarrow> node f' p = Some (Regular c) \<longleftrightarrow> node f p = Some (Regular c)"
  unfolding grows_def by (metis fnode.distinct(1) option.inject option.distinct(1))

lemma grows_dir: "grows f f' \<Longrightarrow> is_dir f p \<Longrightarrow> is_dir f' p"
  by (simp add: is_dir_def grows_node)

lemma grows_fields: "grows f f' \<Longrightarrow> cwd f' = cwd f \<and> unreadable f' = unreadable f \<and> unwritable f' = unwritable f"
  by (simp add: grows_def)

lemma grows_locate: "grows f f' \<Longrightarrow> locate f s = Some p \<Longrightarrow> locate f' s = Some p"
  using locate_mono [of f f' s p] grows_dir [of f f'] grows_fields [of f f'] by blast

lemma make_dirs_grows: "grows f (snd (make_dirs f cur cs))"
proof (induction f cur cs rule: make_dirs.induct)
  case (2 f cur c cs)
  then show ?case
    using grows_trans [OF grows_put_dir [of f "cur @ [c]"]]
    by (simp split: option.split fnode.split)
qed simp

lemma make_dirs_True:
  "make_dirs f cur cs = (True, f') \<Longrightarrow> \<exists>p. walk f' cur cs = Some p \<and> is_dir f' p"
proof (induction f cur cs rule: make_dirs.induct)
  case (2 f cur c cs)
  then have cur: "is_dir f cur" by (auto split: if_splits)
  have "grows f f'" using make_dirs_grows [of f cur "c # cs"] "2.prems" by simp
  then have cur': "is_dir f' cur" using cur by (rule grows_dir)
  consider "c = [] \<or> c = ''.''" | "c = ''..''" | "c \<noteq> []" "c \<noteq> ''.''" "c \<noteq> ''..''" by blast
  then show ?case
  proof cases
    case 3
    then show ?thesis
      using 2 cur cur' by (simp split: option.splits fnode.splits if_splits)
  qed (use 2 cur cur' in \<open>auto\<close>)
qed simp

lemma create_directories_grows: "grows f (snd (create_directories f s))"
  by (simp add: create_directories_def make_dirs_grows)

lemma create_directories_True:
  assumes "create_directories f s = (True, f')"
  shows "\<exists>p. locate f' s = Some p \<and> is_dir f' p"
proof -
  have "grows f f'" using create_directories_grows [of f s] assms by simp
  then have "cwd f' = cwd f" by (simp add: grows_fields)
  with assms make_dirs_True [of f "start_dir f s" "split_slash s" f'] show ?thesis
    by (auto simp: create_directories_def locate_def start_dir_def split: if_splits)
qed

text \<open>The last directory of a path whose parent exists.\<close>

lemma create_directories_child:
  assumes "a \<noteq> []" and "locate f a = Some d" and "is_dir f d" and "plain_name c"
    and "node f (d @ [c]) = None" and "\<not> unwritable f d"
  shows "create_directories f (a @ ''/'' @ c) = (True, put_node (d @ [c]) Directory f)"
proof -
  have walk: "walk f cur cs = Some p \<Longrightarrow> is_dir f p \<Longrightarrow>
      make_dirs f cur (cs @ [c]) = make_dirs f p [c]" for cur cs p
  proof (induction f cur cs rule: walk.induct)
    case (2 f cur b cs)
    show ?case
    proof (cases "b = [] \<or> b = ''.'' \<or> b = ''..''")
      case True
      with 2 show ?thesis by (auto split: if_splits)
    next
      case False
      with 2 have "is_dir f cur" and w: "walk f (cur @ [b]) cs = Some p" by (auto split: if_splits)
      have "is_dir f (cur @ [b])"
        using w 2(5) by (cases cs) (auto split: if_splits)
      with False 2 w show ?thesis by (auto simp: is_dir_def)
    qed
  qed simp
  from assms have "walk f (start_dir f a) (split_slash a) = Some d"
    by (simp add: locate_def)
  from walk [OF this assms(3)] assms show ?thesis
    by (simp add: create_directories_def split_slash_append split_slash_plain start_dir_append
        plain_name_def is_dir_put [of "d @ [c]"] is_dir_def [of f])
qed

end
