(* ===== verification/Http.thy ===== *)
theory Http
  imports Logging Config_Interpreter Filesystem
begin

text \<open>
  Requests and responses as the handlers see them, and the state they share. Boost.Beast is not
  modelled: a request is the record of what the code reads from it, and a response records what
  the code puts into it, with the calls to \<open>set\<close> in order and whether \<open>prepare_payload\<close> was
  called. The world holds the files, the log buffer, the interpreter's static members, the time
  spent in \<open>sleep_for\<close> and the mutex of the file manager that serves the current request.
\<close>

subsection \<open>Messages\<close>

datatype verb = Get | Post | Put | Delete | Unknown_verb | Other_verb string

record request =
  req_method :: verb
  method_string :: string
  target :: string
  version :: nat
  header_fields :: "(string \<times> string) list"
  body :: string

datatype status = Ok | Created | No_content | Bad_request | Not_found

fun result_int :: "status \<Rightarrow> nat" where
  "result_int Ok = 200"
| "result_int Created = 201"
| "result_int No_content = 204"
| "result_int Bad_request = 400"
| "result_int Not_found = 404"

datatype http_field = Content_type | Content_length

record response =
  result :: status
  res_version :: nat
  set_calls :: "(http_field \<times> string) list"
  res_body :: string
  prepared :: bool

definition new_response :: "status \<Rightarrow> nat \<Rightarrow> string \<Rightarrow> response" where
  "new_response st v b = \<lparr>result = st, res_version = v, set_calls = [], res_body = b, prepared = False\<rparr>"

definition set_field :: "http_field \<Rightarrow> string \<Rightarrow> response \<Rightarrow> response" where
  "set_field f v r = r\<lparr>set_calls := set_calls r @ [(f, v)]\<rparr>"

definition prepare_payload :: "response \<Rightarrow> response" where
  "prepare_payload r = r\<lparr>prepared := True\<rparr>"

text \<open>
  The response is framed: its length is left to Beast by \<open>prepare_payload\<close>, or given by the
  code, and every length the code gives is the length of the body.
\<close>

definition framed :: "response \<Rightarrow> bool" where
  "framed r \<longleftrightarrow>
     (prepared r \<or> Content_length \<in> fst ` set (set_calls r)) \<and>
     (\<forall>v. (Content_length, v) \<in> set (set_calls r) \<longrightarrow> v = digits_str (length (res_body r)))"

text \<open>
  The block every handler repeats: a body, its content type, its length, and
  \<open>prepare_payload\<close>.
\<close>

definition text_response :: "status \<Rightarrow> string \<Rightarrow> string \<Rightarrow> response" where
  "text_response st ctype b =
     prepare_payload
       (set_field Content_length (digits_str (length b))
         (set_field Content_type ctype (new_response st 11 b)))"

definition CRLF :: string where
  "CRLF = [CHR 0x0D, CHR 0x0A]"

definition QUOTE :: string where
  "QUOTE = [CHR 0x22]"

lemma framed_text_response [simp]: "framed (text_response st ctype b)"
  by (simp add: framed_def text_response_def prepare_payload_def set_field_def new_response_def)

lemma framed_prepared [simp]: "framed (prepare_payload (new_response st v b))"
  by (simp add: framed_def prepare_payload_def new_response_def)

lemma text_response_fields [simp]:
  "result (text_response st ctype b) = st"
  "res_body (text_response st ctype b) = b"
  by (simp_all add: text_response_def prepare_payload_def set_field_def new_response_def)

lemma text_response_inject [simp]:
  "text_response st c b = text_response st' c' b' \<longleftrightarrow> st = st' \<and> c = c' \<and> b = b'"
  by (auto simp: text_response_def prepare_payload_def set_field_def new_response_def)

subsection \<open>The world\<close>

record world =
  files :: filesystem
  logs :: logging_buffer
  interp :: interpreter
  slept_ms :: nat
  entity_mutex :: bool

definition wlog :: "log_severity \<Rightarrow> string \<Rightarrow> world \<Rightarrow> world" where
  "wlog sev msg w = w\<lparr>logs := snd (addToBuffer sev msg (logs w))\<rparr>"

definition wfiles :: "filesystem \<Rightarrow> world \<Rightarrow> world" where
  "wfiles f w = w\<lparr>files := f\<rparr>"

definition wlock :: "bool \<Rightarrow> world \<Rightarrow> world" where
  "wlock b w = w\<lparr>entity_mutex := b\<rparr>"

lemma wlog_frame [simp, frame_simps]:
  "files (wlog sev msg w) = files w" "interp (wlog sev msg w) = interp w"
  "slept_ms (wlog sev msg w) = slept_ms w" "entity_mutex (wlog sev msg w) = entity_mutex w"
  by (simp_all add: wlog_def)

lemma wfiles_frame [simp, frame_simps]:
  "files (wfiles f w) = f" "interp (wfiles f w) = interp w" "logs (wfiles f w) = logs w"
  "slept_ms (wfiles f w) = slept_ms w" "entity_mutex (wfiles f w) = entity_mutex w"
  by (simp_all add: wfiles_def)

lemma wlock_frame [simp, frame_simps]:
  "files (wlock b w) = files w" "interp (wlock b w) = interp w" "logs (wlock b w) = logs w"
  "slept_ms (wlock b w) = slept_ms w" "entity_mutex (wlock b w) = b"
  by (simp_all add: wlock_def)

lemma wlog_pending: "pending (logs (wlog sev msg w)) = pending (logs w) @ [(sev, msg)]"
  by (simp add: wlog_def pending_add)

lemma wlog_ok: "lb_ok (logs w) \<Longrightarrow> lb_ok (logs (wlog sev msg w))"
  by (simp add: wlog_def lb_ok_add)

text \<open>
  What every operation keeps: the configuration is left alone, and the log is only added to.
\<close>

definition keeps :: "world \<Rightarrow> world \<Rightarrow> bool" where
  "keeps w w' \<longleftrightarrow>
     interp w' = interp w \<and> (\<exists>es. logs w' = fold (\<lambda>(sev, msg). lb_add sev msg) es (logs w))"

lemma keeps_refl [simp]: "keeps w w"
  unfolding keeps_def by (intro conjI refl exI [of _ "[]"]) simp

lemma keeps_trans: "keeps u v \<Longrightarrow> keeps v w \<Longrightarrow> keeps u w"
proof -
  assume "keeps u v" and "keeps v w"
  then obtain es fs where "interp v = interp u" "logs v = fold (\<lambda>(sev, msg). lb_add sev msg) es (logs u)"
    "interp w = interp v" "logs w = fold (\<lambda>(sev, msg). lb_add sev msg) fs (logs v)"
    by (auto simp: keeps_def)
  then show ?thesis unfolding keeps_def by (intro conjI exI [of _ "es @ fs"]) simp_all
qed

lemma keeps_wlog_self: "keeps w (wlog sev msg w)"
  unfolding keeps_def by (intro conjI exI [of _ "[(sev, msg)]"]) (simp_all add: wlog_def lb_add_def)

lemma keeps_wlog [simp]: "keeps w w' \<Longrightarrow> keeps w (wlog sev msg w')"
  using keeps_wlog_self keeps_trans by blast

lemma keeps_wfiles [simp]:
  "keeps w (wfiles f w') \<longleftrightarrow> keeps w w'" "keeps (wfiles f w) w' \<longleftrightarrow> keeps w w'"
  by (simp_all add: keeps_def)

lemma keeps_wlock [simp]:
  "keeps w (wlock b w') \<longleftrightarrow> keeps w w'" "keeps (wlock b w) w' \<longleftrightarrow> keeps w w'"
  by (simp_all add: keeps_def)

lemma keeps_interp: "keeps w w' \<Longrightarrow> interp w' = interp w"
  by (simp add: keeps_def)

lemma keeps_log:
  assumes "keeps w w'" and "lb_ok (logs w)"
  shows "lb_ok (logs w') \<and> prefix (pending (logs w)) (pending (logs w'))"
proof -
  obtain es where "logs w' = fold (\<lambda>(sev, msg). lb_add sev msg) es (logs w)"
    using assms(1) by (auto simp: keeps_def)
  then show ?thesis using lbq.inv_adds [OF assms(2)] lbq.content_adds [OF assms(2)] by simp
qed

text \<open>A step that only logs.\<close>

definition same_but_logs :: "world \<Rightarrow> world \<Rightarrow> bool" where
  "same_but_logs w w' \<longleftrightarrow>
     keeps w w' \<and> files w' = files w \<and> interp w' = interp w \<and> slept_ms w' = slept_ms w \<and>
     entity_mutex w' = entity_mutex w"

lemma same_but_logs_refl [simp]: "same_but_logs w w"
  by (simp add: same_but_logs_def)

lemma same_but_logs_wlog [simp]: "same_but_logs w w' \<Longrightarrow> same_but_logs w (wlog sev msg w')"
  by (simp add: same_but_logs_def)

lemma same_but_logs_trans: "same_but_logs u v \<Longrightarrow> same_but_logs v w \<Longrightarrow> same_but_logs u w"
  by (auto simp: same_but_logs_def intro: keeps_trans)

lemma same_but_logs_keeps: "same_but_logs w w' \<Longrightarrow> keeps w w'"
  by (simp add: same_but_logs_def)

end
