(* ===== verification/Crud_File_Manager.thy ===== *)
theory Crud_File_Manager
  imports Http
begin

text \<open>
  The object store of the CRUD handler: \<open>crud_file_manager.h\<close> and \<open>crud_file_manager.cc\<close>. An
  object is the file \<open>data_path/entity_name/entity_id\<close>; the file \<open>data_path/maxEntityIds\<close> holds
  one line \<open>name:id\<close> per entity with the greatest identifier given out. Each operation takes
  the world and returns its result (or the exception that leaves it) and the new world. The
  mutex is locked and unlocked by hand in the code, so its state is part of the world.
\<close>

subsection \<open>Paths\<close>

record crud_path =
  data_path :: string
  entity_name :: string
  entity_id :: string

definition entity_dir :: "crud_path \<Rightarrow> string" where
  "entity_dir path = data_path path @ ''/'' @ entity_name path"

definition object_file :: "crud_path \<Rightarrow> string" where
  "object_file path = data_path path @ ''/'' @ entity_name path @ ''/'' @ entity_id path"

definition max_ids_file :: "crud_path \<Rightarrow> string" where
  "max_ids_file path = data_path path @ ''/maxEntityIds''"

definition temp_file :: string where
  "temp_file = ''temp''"

subsection \<open>Reading, deleting, listing\<close>

definition readObject :: "crud_path \<Rightarrow> world \<Rightarrow> string option \<times> world" where
  "readObject path w =
     (case open_read (files w) (object_file path) of
        None \<Rightarrow> (None, wlog ERROR (''unable to open file '' @ object_file path) w)
      | Some n \<Rightarrow> (Some (node_text n), wlog INFO (''found read success: '' @ object_file path) w))"

definition existsObject :: "crud_path \<Rightarrow> world \<Rightarrow> bool" where
  "existsObject path w = exists_path (files w) (object_file path)"

definition deleteObject :: "crud_path \<Rightarrow> world \<Rightarrow> bool \<times> world" where
  "deleteObject path w =
     (if \<not> existsObject path w
      then (False, wlog ERROR (''file doesn't exist: '' @ object_file path) w)
      else (case remove_path (files w) (object_file path) of
              (Inr b, f) \<Rightarrow> (b, wfiles f w)
            | (Inl e, f) \<Rightarrow> (False, wfiles f w)))"

definition listObjects :: "crud_path \<Rightarrow> world \<Rightarrow> string list \<times> world" where
  "listObjects path w =
     (let dir_path = data_path path @ ''/'' @ entity_name path @ ''/'' in
      case list_directory (files w) dir_path of
        Some names \<Rightarrow> (sort names, w)
      | None \<Rightarrow> ([], wlog ERROR (''Unable to read directory at: '' @ dir_path) w))"

subsection \<open>The identifier counters\<close>

text \<open>The words of the file that begin with the entity's name and a colon.\<close>

definition is_id_line :: "string \<Rightarrow> string \<Rightarrow> bool" where
  "is_id_line name line \<longleftrightarrow> take (length name + 1) line = name @ '':''"

definition ensure_directory :: "log_severity \<Rightarrow> string \<Rightarrow> world \<Rightarrow> world" where
  "ensure_directory failure directory w =
     (if exists_path (files w) directory then w
      else
        (let w1 = wlog INFO (''directory '' @ directory @ '' missing, attempting to create'') w
         in case create_directories (files w1) directory of
              (True, f) \<Rightarrow> wfiles f w1
            | (False, f) \<Rightarrow>
                wlog failure (''error creating directory '' @ directory @ '' for CRUD request'')
                  (wfiles f w1)))"

definition generateEntityId :: "crud_path \<Rightarrow> world \<Rightarrow> string result \<times> world" where
  "generateEntityId path w =
     (if entity_mutex w then (Inl Deadlock, w)
      else
        (let w0 = wlock True w;
             w1 = ensure_directory INFO (data_path path) w0;
             w2 = (if exists_path (files w1) (max_ids_file path) then w1
                   else let w' = wlog INFO ''Max file doesn't exist'' w1
                        in wfiles (snd (write_file (files w') (max_ids_file path) [])) w')
         in case open_read_write (files w2) (max_ids_file path) of
              None \<Rightarrow>
                (Inr ''1'',
                 wlock False
                   (wlog ERROR (''Could not open '' @ max_ids_file path @ '' to get max entity IDs'') w2))
            | Some text \<Rightarrow>
                (case find (is_id_line (entity_name path)) (words_of text) of
                   Some line \<Rightarrow>
                     (case bind_result (substr1 line (length (entity_name path) + 1)) stoull of
                        Inl e \<Rightarrow> (Inl e, wlock False w2)
                      | Inr max_id \<Rightarrow> (Inr (to_string_u64 (max_id + 1)), wlock False w2))
                 | None \<Rightarrow> (Inr ''1'', wlock False w2))))"

text \<open>The lines copied to the temporary file, the entity's own replaced.\<close>

definition id_line :: "string \<Rightarrow> 64 word \<Rightarrow> string" where
  "id_line name max_id = name @ '':'' @ to_string_u64 max_id"

definition rewrite_ids :: "string \<Rightarrow> 64 word \<Rightarrow> string list \<Rightarrow> string list" where
  "rewrite_ids name max_id lines =
     map (\<lambda>line. if is_id_line name line then id_line name max_id else line) lines"

definition unlines :: "string list \<Rightarrow> string" where
  "unlines ls = concat (map (\<lambda>l. l @ [CHR 0x0A]) ls)"

text \<open>
  \<open>writeEntityId\<close>. The \<open>std::fstream\<close> opened when the file is missing creates nothing, because
  its mode is in and out, so there is no step for it. \<open>copy_file\<close> or \<open>remove\<close> may throw, which
  leaves the mutex locked.
\<close>

definition writeEntityId :: "crud_path \<Rightarrow> 64 word \<Rightarrow> world \<Rightarrow> bool result \<times> world" where
  "writeEntityId path max_id w =
     (if entity_mutex w then (Inl Deadlock, w)
      else
        (let w0 = wlock True w;
             w1 = ensure_directory ERROR (data_path path) w0
         in if \<not> exists_path (files w1) (entity_dir path) then
              (case append_file (files w1) (max_ids_file path)
                      ([CHR 0x0A] @ id_line (entity_name path) max_id) of
                 (False, _) \<Rightarrow>
                   (Inr False,
                    wlock False
                      (wlog ERROR (''Could not open '' @ max_ids_file path @ '' to write to it.'') w1))
               | (True, f) \<Rightarrow> (Inr True, wlock False (wfiles f w1)))
            else
              (let filein = open_read (files w1) (max_ids_file path);
                   lines = rewrite_ids (entity_name path) max_id
                             (case filein of None \<Rightarrow> [] | Some n \<Rightarrow> words_of (node_text n))
               in case write_file (files w1) temp_file (if filein = None then [] else unlines lines) of
                    (False, _) \<Rightarrow> (Inr False, wlock False w1)
                  | (True, f) \<Rightarrow>
                      (if filein = None then (Inr False, wlock False (wfiles f w1))
                       else case copy_file f temp_file (max_ids_file path) of
                              (Inl e, f1) \<Rightarrow> (Inl e, wfiles f1 w1)
                            | (Inr _, f1) \<Rightarrow>
                                (case remove_path f1 temp_file of
                                   (Inl e, f2) \<Rightarrow> (Inl e, wfiles f2 w1)
                                 | (Inr _, f2) \<Rightarrow> (Inr True, wlock False (wfiles f2 w1)))))))"

subsection \<open>Writing\<close>

text \<open>The directory of a new entity: its counter line first, then the directory.\<close>

definition new_entity :: "crud_path \<Rightarrow> world \<Rightarrow> unit result \<times> world" where
  "new_entity path w =
     (if exists_path (files w) (entity_dir path) then (Inr (), w)
      else
        (let failed = (\<lambda>w. wlog ERROR (''error creating directory '' @ entity_dir path @ '' for CRUD request'') w);
             w1 = wlog INFO (''directory '' @ entity_dir path @ '' missing, attempting to create'') w
         in case writeEntityId path 1 w1 of
              (Inl Filesystem_error, w2) \<Rightarrow> (Inr (), failed w2)
            | (Inl e, w2) \<Rightarrow> (Inl e, w2)
            | (Inr _, w2) \<Rightarrow>
                (case create_directories (files w2) (entity_dir path) of
                   (True, f) \<Rightarrow> (Inr (), wfiles f w2)
                 | (False, f) \<Rightarrow> (Inr (), failed (wfiles f w2)))))"

text \<open>
  \<open>if (path.entity_id != "" && (stoull(path.entity_id) >= stoull(generateEntityId(path))))
  writeEntityId(path, stoull(path.entity_id))\<close>; the left operand is evaluated first.
\<close>

definition record_id :: "crud_path \<Rightarrow> world \<Rightarrow> unit result \<times> world" where
  "record_id path w =
     (if entity_id path = [] then (Inr (), w)
      else case stoull (entity_id path) of
        Inl e \<Rightarrow> (Inl e, w)
      | Inr this_id \<Rightarrow>
          (case generateEntityId path w of
             (Inl e, w1) \<Rightarrow> (Inl e, w1)
           | (Inr next, w1) \<Rightarrow>
               (case stoull next of
                  Inl e \<Rightarrow> (Inl e, w1)
                | Inr next_id \<Rightarrow>
                    (if this_id \<ge> next_id then
                       (case writeEntityId path this_id w1 of
                          (Inl e, w2) \<Rightarrow> (Inl e, w2)
                        | (Inr _, w2) \<Rightarrow> (Inr (), w2))
                     else (Inr (), w1)))))"

definition writeObject :: "crud_path \<Rightarrow> string \<Rightarrow> world \<Rightarrow> bool result \<times> world" where
  "writeObject path json w =
     (case new_entity path w of
        (Inl e, w1) \<Rightarrow> (Inl e, w1)
      | (Inr _, w1) \<Rightarrow>
          (let w2 = wlog INFO (''creating Entity '' @ entity_name path @ '' at path '' @ object_file path) w1
           in case record_id path w2 of
                (Inl e, w3) \<Rightarrow> (Inl e, w3)
              | (Inr _, w3) \<Rightarrow>
                  (case write_file (files w3) (object_file path) json of
                     (False, _) \<Rightarrow> (Inr False, w3)
                   | (True, f) \<Rightarrow> (Inr True, wlog INFO ''file creation success'' (wfiles f w3)))))"

end
