(* ===== verification/Request_Dispatcher.thy ===== *)
theory Request_Dispatcher
  imports Crud_File_Manager
begin

text \<open>
  Which handler a request goes to: \<open>request_dispatcher.h\<close> and the three path functions of
  \<open>request_dispatcher.cc\<close> (\<open>dispatch_request\<close> is in the theory \<open>Dispatch\<close>). A target is
  normalised, and the longest configured location that is a prefix of it decides. \<open>back()\<close> of the
  empty string, which an empty target leads to, is undefined behaviour.
\<close>

subsection \<open>Request types\<close>

datatype request_type = Static | Echo | None_type | CRUD | Health | Sleep | App | BogusType

fun request_type_tostr :: "request_type \<Rightarrow> string" where
  "request_type_tostr Static = ''Static''"
| "request_type_tostr Echo = ''Echo''"
| "request_type_tostr CRUD = ''CRUD''"
| "request_type_tostr Health = ''Health''"
| "request_type_tostr Sleep = ''Sleep''"
| "request_type_tostr None_type = ''Not Found''"
| "request_type_tostr BogusType = ''BogusType''"
| "request_type_tostr App = ''App''"

text \<open>The enumeration is the key of the registry's \<open>std::map\<close>, so it has an order.\<close>

fun request_type_rank :: "request_type \<Rightarrow> nat" where
  "request_type_rank Static = 0"
| "request_type_rank Echo = 1"
| "request_type_rank None_type = 2"
| "request_type_rank CRUD = 3"
| "request_type_rank Health = 4"
| "request_type_rank Sleep = 5"
| "request_type_rank App = 6"
| "request_type_rank BogusType = 7"

lemma request_type_rank_inj: "request_type_rank s = request_type_rank t \<Longrightarrow> s = t"
  by (cases s; cases t) simp_all

instantiation request_type :: linorder
begin

definition less_eq_request_type :: "request_type \<Rightarrow> request_type \<Rightarrow> bool" where
  "less_eq_request_type s t \<longleftrightarrow> request_type_rank s \<le> request_type_rank t"

definition less_request_type :: "request_type \<Rightarrow> request_type \<Rightarrow> bool" where
  "less_request_type s t \<longleftrightarrow> request_type_rank s < request_type_rank t"

instance
  by intro_classes (auto simp: less_eq_request_type_def less_request_type_def dest: request_type_rank_inj)

end

subsection \<open>Normalising a target\<close>

text \<open>The first loop: a slash that follows a slash is dropped.\<close>

fun collapse_slashes :: "bool \<Rightarrow> string \<Rightarrow> string" where
  "collapse_slashes is_prev_slash [] = []"
| "collapse_slashes is_prev_slash (c # s) =
     (if c = CHR ''/'' \<and> is_prev_slash then collapse_slashes is_prev_slash s
      else c # collapse_slashes (c = CHR ''/'') s)"

text \<open>The second loop: \<open>while (result.back() == '/' && result.length() > 1) result.pop_back()\<close>.\<close>

function pop_slashes :: "string \<Rightarrow> string result" where
  "pop_slashes s =
     (if s = [] then Inl (Undefined_behaviour ''back() of an empty string'')
      else if last s = CHR ''/'' \<and> length s > 1 then pop_slashes (butlast s)
      else Inr s)"
  by pat_completeness auto
termination by (relation "measure length") auto

declare pop_slashes.simps [simp del]

definition normalised_target :: "string \<Rightarrow> string result" where
  "normalised_target s = pop_slashes (collapse_slashes False s)"

subsection \<open>The longest matching location\<close>

record best_match =
  longest_size :: nat
  longest_path :: string
  match_type :: request_type

definition no_match :: best_match where
  "no_match = \<lparr>longest_size = 0, longest_path = [], match_type = None_type\<rparr>"

definition consider_path :: "string \<Rightarrow> request_type \<Rightarrow> string \<Rightarrow> best_match \<Rightarrow> best_match" where
  "consider_path norm request_type path b =
     (if find_from norm path 0 = Some 0 \<and> length path > longest_size b
      then \<lparr>longest_size = length path, longest_path = path, match_type = request_type\<rparr>
      else b)"

definition scan_paths :: "string \<Rightarrow> request_type \<Rightarrow> string list \<Rightarrow> best_match \<Rightarrow> best_match" where
  "scan_paths norm request_type = fold (consider_path norm request_type)"

text \<open>\<open>result.substr(result.find(path) + path.length())\<close>, in the arithmetic of \<open>size_t\<close>.\<close>

definition after_match :: "string \<Rightarrow> string \<Rightarrow> string result" where
  "after_match norm path =
     substr1 norm
       (case find_from norm path 0 of
          Some i \<Rightarrow> i + length path
        | None \<Rightarrow> (2 ^ 64 - 1 + length path) mod 2 ^ 64)"

definition request_match :: "server_paths \<Rightarrow> string \<Rightarrow> best_match" where
  "request_match p norm =
     scan_paths norm App (app_paths p)
      (scan_paths norm Sleep (sleep_paths p)
        (scan_paths norm Health (health_paths p)
          (scan_paths norm Echo (echo_paths p)
            (scan_paths norm CRUD (map fst (crud_paths p))
              (scan_paths norm Static (map fst (static_paths p)) no_match)))))"

definition static_match :: "server_paths \<Rightarrow> string \<Rightarrow> best_match" where
  "static_match p norm =
     scan_paths norm Echo (echo_paths p)
      (scan_paths norm Static (map fst (static_paths p)) no_match)"

definition crud_match :: "server_paths \<Rightarrow> string \<Rightarrow> best_match" where
  "crud_match p norm =
     scan_paths norm CRUD (map fst (crud_paths p))
      (scan_paths norm Echo (echo_paths p)
        (scan_paths norm Static (map fst (static_paths p)) no_match))"

subsection \<open>The three functions\<close>

definition log_all :: "(log_severity \<times> string) list \<Rightarrow> world \<Rightarrow> world" where
  "log_all msgs = fold (\<lambda>(sev, msg). wlog sev msg) msgs"

definition getRequestType :: "request \<Rightarrow> world \<Rightarrow> request_type result \<times> world" where
  "getRequestType request w =
     (let p = getServerPaths (interp w);
          collapsed = collapse_slashes False (target request);
          w1 = log_all
            ([(INFO, ''Paths are: ''),
              (INFO, ''Determining request type. Target is: '' @ target request),
              (INFO, ''Paths are: '')]
             @ map (Pair INFO) (map fst (static_paths p) @ echo_paths p @ map fst (crud_paths p))
             @ replicate (length (target request) - length collapsed)
                 (INFO, ''Found multiple slashes in a row'')) w
      in case pop_slashes collapsed of
           Inl e \<Rightarrow> (Inl e, w1)
         | Inr norm \<Rightarrow>
             (let w2 = log_all (replicate (length collapsed - length norm)
                                  (INFO, ''Found trailing slash'')) w1;
                  b = request_match p norm;
                  found = (\<lambda>t. (Inr t, wlog INFO (''Request is of type '' @ request_type_tostr t) w2))
              in if match_type b = None_type then
                   (Inr None_type,
                    wlog ERROR ''There was no matching path found for the request. 404 Handler should be invoked'' w2)
                 else if match_type b = Static then
                   (case after_match norm (longest_path b) of
                      Inl e \<Rightarrow> (Inl e, w2)
                    | Inr suff \<Rightarrow>
                        (case open_read (files w2) (map_at (static_paths p) (longest_path b) @ suff) of
                           None \<Rightarrow> (Inr None_type,
                                    wlog ERROR ''File not found. 404 Handler should be invoked'' w2)
                         | Some n \<Rightarrow> found Static))
                 else found (match_type b)))"

definition getStaticFilePath :: "request \<Rightarrow> world \<Rightarrow> string result \<times> world" where
  "getStaticFilePath request w =
     (let p = getServerPaths (interp w)
      in case normalised_target (target request) of
           Inl e \<Rightarrow> (Inl e, w)
         | Inr norm \<Rightarrow>
             (let b = static_match p norm
              in if match_type b \<noteq> Static then
                   (Inr [], wlog ERROR ''getStaticFilePath was called for a non-static request'' w)
                 else (case after_match norm (longest_path b) of
                         Inl e \<Rightarrow> (Inl e, w)
                       | Inr suff \<Rightarrow>
                           (let file_path = map_at (static_paths p) (longest_path b) @ suff
                            in (Inr file_path, wlog INFO (''Set file_path_ to '' @ file_path) w)))))"

text \<open>\<open>/name/id\<close> cut at the second slash; the identifier may hold further slashes.\<close>

definition split_entity_path :: "string \<Rightarrow> (string \<times> string) result" where
  "split_entity_path entity_path =
     (case find_from entity_path ''/'' 1 of
        Some split_index \<Rightarrow>
          bind_result (substr entity_path 1 (split_index - 1)) (\<lambda>name.
            bind_result (substr entity_path (split_index + 1) (length entity_path)) (\<lambda>id.
              Inr (name, id)))
      | None \<Rightarrow>
          (if length entity_path > 1
           then bind_result (substr1 entity_path 1) (\<lambda>name. Inr (name, []))
           else Inr ([], [])))"

definition getCrudEntityPath :: "request \<Rightarrow> world \<Rightarrow> crud_path result \<times> world" where
  "getCrudEntityPath request w =
     (let p = getServerPaths (interp w)
      in case normalised_target (target request) of
           Inl e \<Rightarrow> (Inl e, w)
         | Inr norm \<Rightarrow>
             (let b = crud_match p norm
              in if match_type b \<noteq> CRUD then
                   (Inr \<lparr>data_path = [], entity_name = [], entity_id = []\<rparr>,
                    wlog ERROR ''getCrudEntityID was called for a non-CRUD request'' w)
                 else (case bind_result (after_match norm (longest_path b)) split_entity_path of
                         Inl e \<Rightarrow> (Inl e, w)
                       | Inr (name, ident) \<Rightarrow>
                           (Inr \<lparr>data_path = map_at (crud_paths p) (longest_path b),
                                  entity_name = name, entity_id = ident\<rparr>,
                            wlog INFO (''id: '' @ ident) (wlog INFO (''entity: '' @ name) w)))))"

subsection \<open>Normalisation\<close>

text \<open>\<open>no_double s\<close>: no two slashes in a row.\<close>

fun no_double :: "string \<Rightarrow> bool" where
  "no_double [] = True"
| "no_double [c] = True"
| "no_double (c # d # s) = (\<not> (c = CHR ''/'' \<and> d = CHR ''/'') \<and> no_double (d # s))"

lemma no_double_Cons:
  "no_double (c # s) \<longleftrightarrow> \<not> (c = CHR ''/'' \<and> prefix ''/'' s) \<and> no_double s"
  by (cases s) auto

lemma collapse_prev: "collapse_slashes True s = collapse_slashes True (dropWhile (\<lambda>c. c = CHR ''/'') s)"
  by (induction s) auto

lemma collapse_starts: "\<not> prefix ''/'' (collapse_slashes True s)"
  by (induction s) auto

lemma collapse_no_double: "no_double (collapse_slashes b s)"
  by (induction b s rule: collapse_slashes.induct) (auto simp: no_double_Cons collapse_starts)

lemma collapse_id: "no_double s \<Longrightarrow> \<not> (b \<and> prefix ''/'' s) \<Longrightarrow> collapse_slashes b s = s"
  by (induction b s rule: collapse_slashes.induct) (auto simp: no_double_Cons)

lemma collapse_nonempty: "s \<noteq> [] \<Longrightarrow> collapse_slashes False s \<noteq> []"
  by (cases s) auto

lemma no_double_butlast: "no_double s \<Longrightarrow> no_double (butlast s)"
  by (induction s rule: no_double.induct) (auto simp: no_double_Cons)

definition normal_target :: "string \<Rightarrow> bool" where
  "normal_target s \<longleftrightarrow> s \<noteq> [] \<and> no_double s \<and> (last s = CHR ''/'' \<longrightarrow> length s = 1)"

lemma pop_slashes_normal:
  "s \<noteq> [] \<Longrightarrow> no_double s \<Longrightarrow> \<exists>t. pop_slashes s = Inr t \<and> normal_target t"
proof (induction s rule: pop_slashes.induct)
  case (1 s)
  show ?case
  proof (cases "last s = CHR ''/'' \<and> length s > 1")
    case True
    then have "butlast s \<noteq> []" by (cases s rule: rev_cases) auto
    with 1 True show ?thesis by (subst pop_slashes.simps) (simp add: no_double_butlast)
  next
    case False
    have "last s = CHR ''/'' \<longrightarrow> length s = 1"
      using False 1(2) by (cases "length s") auto
    moreover have "pop_slashes s = Inr s"
      unfolding pop_slashes.simps [of s] using False 1(2) by (simp only: if_False)
    ultimately show ?thesis using 1(2,3) by (simp add: normal_target_def)
  qed
qed

lemma pop_slashes_id: "normal_target s \<Longrightarrow> pop_slashes s = Inr s"
  using pop_slashes.simps [of s] by (auto simp: normal_target_def)

lemma normalised_target_cases:
  "s \<noteq> [] \<Longrightarrow> \<exists>t. normalised_target s = Inr t \<and> normal_target t"
  unfolding normalised_target_def
  by (rule pop_slashes_normal) (simp_all add: collapse_nonempty collapse_no_double)

lemma normalised_target_empty: "normalised_target [] = Inl (Undefined_behaviour ''back() of an empty string'')"
  by (simp add: normalised_target_def pop_slashes.simps)

lemma normalised_target_id: "normal_target s \<Longrightarrow> normalised_target s = Inr s"
  using collapse_id [of s False] pop_slashes_id by (simp add: normalised_target_def normal_target_def)

text \<open>The segments of a path: its non-empty components.\<close>

definition segments :: "string \<Rightarrow> string list" where
  "segments s = filter (\<lambda>c. c \<noteq> []) (split_slash s)"

lemma segments_acc_collapse:
  "filter (\<lambda>c. c \<noteq> []) (split_slash_acc cur (collapse_slashes b s))
     = filter (\<lambda>c. c \<noteq> []) (split_slash_acc cur s)" if "b \<Longrightarrow> cur = []"
  using that by (induction b s arbitrary: cur rule: collapse_slashes.induct) auto

lemma segments_collapse: "segments (collapse_slashes False s) = segments s"
  by (simp add: segments_def split_slash_def segments_acc_collapse)

lemma segments_snoc_slash: "segments (s @ ''/'') = segments s"
  using split_slash_append [of s "[]"] by (simp add: segments_def split_slash_def)

lemma segments_pop: "pop_slashes s = Inr t \<Longrightarrow> segments t = segments s"
proof (induction s rule: pop_slashes.induct)
  case (1 s)
  show ?case
  proof (cases "s \<noteq> [] \<and> last s = CHR ''/'' \<and> length s > 1")
    case True
    then have s: "s = butlast s @ ''/''" by (cases s rule: rev_cases) auto
    from 1 True have "segments t = segments (butlast s)"
      by (subst (asm) (2) pop_slashes.simps) simp
    with segments_snoc_slash [of "butlast s"] s show ?thesis by simp
  next
    case False
    with 1(2) show ?thesis by (subst (asm) pop_slashes.simps) (auto split: if_splits)
  qed
qed

subsection \<open>The longest match\<close>

text \<open>The locations in the order \<open>getRequestType\<close> scans them, and the location that wins.\<close>

definition request_candidates :: "server_paths \<Rightarrow> (string \<times> request_type) list" where
  "request_candidates p =
     map (\<lambda>l. (l, Static)) (map fst (static_paths p)) @ map (\<lambda>l. (l, CRUD)) (map fst (crud_paths p))
     @ map (\<lambda>l. (l, Echo)) (echo_paths p) @ map (\<lambda>l. (l, Health)) (health_paths p)
     @ map (\<lambda>l. (l, Sleep)) (sleep_paths p) @ map (\<lambda>l. (l, App)) (app_paths p)"

definition longest_among :: "(string \<times> request_type) set \<Rightarrow> string \<Rightarrow> string \<Rightarrow> request_type \<Rightarrow> bool" where
  "longest_among cs r l t \<longleftrightarrow>
     (l, t) \<in> cs \<and> l \<noteq> [] \<and> prefix l r \<and>
     (\<forall>(l', t') \<in> cs. prefix l' r \<longrightarrow> length l' \<le> length l)"

definition routed :: "server_paths \<Rightarrow> string \<Rightarrow> string \<Rightarrow> request_type \<Rightarrow> bool" where
  "routed p = longest_among (set (request_candidates p))"

definition scan_all :: "string \<Rightarrow> (string \<times> request_type) list \<Rightarrow> best_match \<Rightarrow> best_match" where
  "scan_all r = fold (\<lambda>(l, t). consider_path r t l)"

lemma scan_paths_all: "scan_paths r t ls = scan_all r (map (\<lambda>l. (l, t)) ls)"
  by (simp add: scan_paths_def scan_all_def fold_map comp_def fun_eq_iff)

lemma scan_all_append: "scan_all r (xs @ ys) b = scan_all r ys (scan_all r xs b)"
  by (simp add: scan_all_def)

lemma request_match_all: "request_match p r = scan_all r (request_candidates p) no_match"
  by (simp add: request_match_def request_candidates_def scan_paths_all scan_all_append)

definition static_candidates :: "server_paths \<Rightarrow> (string \<times> request_type) list" where
  "static_candidates p =
     map (\<lambda>l. (l, Static)) (map fst (static_paths p)) @ map (\<lambda>l. (l, Echo)) (echo_paths p)"

definition crud_candidates :: "server_paths \<Rightarrow> (string \<times> request_type) list" where
  "crud_candidates p = static_candidates p @ map (\<lambda>l. (l, CRUD)) (map fst (crud_paths p))"

lemma static_match_all: "static_match p r = scan_all r (static_candidates p) no_match"
  by (simp add: static_match_def static_candidates_def scan_paths_all scan_all_append)

lemma crud_match_all: "crud_match p r = scan_all r (crud_candidates p) no_match"
  by (simp add: crud_match_def crud_candidates_def static_candidates_def scan_paths_all scan_all_append)

text \<open>The scan finds a longest candidate, or there is none.\<close>

definition found_in :: "string \<Rightarrow> (string \<times> request_type) set \<Rightarrow> best_match \<Rightarrow> bool" where
  "found_in r cs b \<longleftrightarrow>
     (b = no_match \<and> (\<forall>(l, t) \<in> cs. l \<noteq> [] \<longrightarrow> \<not> prefix l r)) \<or>
     (longest_among cs r (longest_path b) (match_type b) \<and> longest_size b = length (longest_path b))"

lemma scan_all_found: "found_in r (set cs) (scan_all r cs no_match)"
proof (induction cs rule: rev_induct)
  case Nil
  then show ?case by (simp add: scan_all_def found_in_def)
next
  case (snoc c cs)
  obtain l t where c: "c = (l, t)" by (cases c)
  let ?b = "scan_all r cs no_match"
  have step: "scan_all r (cs @ [c]) no_match = consider_path r t l ?b"
    by (simp add: scan_all_def c)
  show ?case
  proof (cases "prefix l r \<and> length l > longest_size ?b")
    case True
    then have "consider_path r t l ?b = \<lparr>longest_size = length l, longest_path = l, match_type = t\<rparr>"
      by (simp add: consider_path_def)
    moreover have "length l' \<le> length l" if "(l', t') \<in> set cs" "prefix l' r" for l' t'
      using snoc.IH that True
      unfolding found_in_def longest_among_def no_match_def by (cases "l' = []") force+
    ultimately show ?thesis
      using True unfolding step by (auto simp: found_in_def longest_among_def c)
  next
    case False
    then have "consider_path r t l ?b = ?b" by (auto simp: consider_path_def)
    with snoc.IH False show ?thesis
      unfolding step by (auto simp: found_in_def longest_among_def c no_match_def)
  qed
qed

lemma longest_unique:
  assumes "distinct (map fst cs)" and "longest_among (set cs) r l t" and "longest_among (set cs) r l' t'"
  shows "l = l' \<and> t = t'"
proof -
  have "length l = length l'" and "prefix l r" "prefix l' r"
    using assms(2,3) unfolding longest_among_def by (auto intro: le_antisym)
  then have "l = l'" by (metis prefix_length_prefix prefix_order.antisym order_refl)
  with assms show ?thesis
    unfolding longest_among_def by (auto dest: eq_key_imp_eq_value)
qed

lemma scan_all_longest:
  assumes "distinct (map fst cs)" and "longest_among (set cs) r l t"
  shows "scan_all r cs no_match = \<lparr>longest_size = length l, longest_path = l, match_type = t\<rparr>"
proof -
  let ?b = "scan_all r cs no_match"
  have "longest_among (set cs) r (longest_path ?b) (match_type ?b) \<and> longest_size ?b = length (longest_path ?b)"
    using scan_all_found [of r cs] assms(2) unfolding found_in_def longest_among_def by auto
  with longest_unique [OF assms(1,2), of "longest_path ?b" "match_type ?b"] show ?thesis
    by (intro best_match.equality) simp_all
qed

lemma scan_all_none:
  assumes "\<nexists>l t. longest_among (set cs) r l t"
  shows "scan_all r cs no_match = no_match"
  using scan_all_found [of r cs] assms unfolding found_in_def by blast

lemma longest_subset:
  "longest_among cs r l t \<Longrightarrow> (l, t) \<in> ds \<Longrightarrow> ds \<subseteq> cs \<Longrightarrow> longest_among ds r l t"
  unfolding longest_among_def by blast

lemma distinct_candidates:
  assumes "paths_ok p"
  shows "distinct (map fst (request_candidates p))" "distinct (map fst (static_candidates p))"
    "distinct (map fst (crud_candidates p))"
  using assms by (auto simp: paths_ok_def all_locations_def request_candidates_def static_candidates_def
      crud_candidates_def comp_def simp del: set_map)

lemma candidates_subset:
  "set (static_candidates p) \<subseteq> set (request_candidates p)"
  "set (crud_candidates p) \<subseteq> set (request_candidates p)"
  by (auto simp: request_candidates_def static_candidates_def crud_candidates_def)

lemma candidate_not_None: "(l, t) \<in> set (request_candidates p) \<Longrightarrow> t \<noteq> None_type"
  by (auto simp: request_candidates_def)

lemma after_match_prefix: "prefix l r \<Longrightarrow> after_match r l = Inr (drop (length l) r)"
  by (simp add: after_match_def find_from_prefix substr1_def prefix_length_le not_less)

subsection \<open>What the three functions answer\<close>

lemma log_all_frame [simp, frame_simps]:
  "files (log_all ms w) = files w" "interp (log_all ms w) = interp w"
  "slept_ms (log_all ms w) = slept_ms w" "entity_mutex (log_all ms w) = entity_mutex w"
  unfolding log_all_def by (induction ms arbitrary: w) auto

lemma same_but_logs_log_all [simp]: "same_but_logs w w' \<Longrightarrow> same_but_logs w (log_all ms w')"
  unfolding log_all_def by (induction ms arbitrary: w') auto

lemma getRequestType_same: "same_but_logs w (snd (getRequestType req w))"
  by (simp add: getRequestType_def Let_def split: sum.split option.split)

lemma getStaticFilePath_same: "same_but_logs w (snd (getStaticFilePath req w))"
  by (simp add: getStaticFilePath_def Let_def split: sum.split)

lemma getCrudEntityPath_same: "same_but_logs w (snd (getCrudEntityPath req w))"
  by (simp add: getCrudEntityPath_def Let_def split: sum.split)

text \<open>A static location serves only a file that opens.\<close>

definition static_file :: "server_paths \<Rightarrow> string \<Rightarrow> string \<Rightarrow> string" where
  "static_file p l r = map_at (static_paths p) l @ drop (length l) r"

definition served_type :: "filesystem \<Rightarrow> server_paths \<Rightarrow> string \<Rightarrow> string \<Rightarrow> request_type \<Rightarrow> request_type" where
  "served_type f p r l t =
     (if t = Static \<and> open_read f (static_file p l r) = None then None_type else t)"

lemma getRequestType_routed:
  assumes "paths_ok (getServerPaths (interp w))" and "normalised_target (target req) = Inr r"
    and "routed (getServerPaths (interp w)) r l t"
  shows "fst (getRequestType req w) = Inr (served_type (files w) (getServerPaths (interp w)) r l t)"
proof -
  let ?p = "getServerPaths (interp w)"
  have b: "request_match ?p r = \<lparr>longest_size = length l, longest_path = l, match_type = t\<rparr>"
    using scan_all_longest [OF distinct_candidates(1) [OF assms(1)]] assms(3)
    by (simp add: request_match_all routed_def)
  have "t \<noteq> None_type" and "prefix l r"
    using assms(3) candidate_not_None unfolding routed_def longest_among_def by blast+
  moreover have "pop_slashes (collapse_slashes False (target req)) = Inr r"
    using assms(2) by (simp add: normalised_target_def)
  ultimately show ?thesis
    using b unfolding getRequestType_def Let_def
    by (auto simp: after_match_prefix served_type_def static_file_def split: option.split)
qed

lemma getRequestType_not_routed:
  assumes "normalised_target (target req) = Inr r"
    and "\<nexists>l t. routed (getServerPaths (interp w)) r l t"
  shows "fst (getRequestType req w) = Inr None_type"
proof -
  let ?p = "getServerPaths (interp w)"
  have b: "request_match ?p r = no_match"
    using scan_all_none assms(2) by (simp add: request_match_all routed_def)
  have "pop_slashes (collapse_slashes False (target req)) = Inr r"
    using assms(1) by (simp add: normalised_target_def)
  with b show ?thesis
    unfolding getRequestType_def Let_def by (simp add: no_match_def)
qed

lemma getRequestType_UB:
  "target req = [] \<Longrightarrow> fst (getRequestType req w) = Inl (Undefined_behaviour ''back() of an empty string'')"
  unfolding getRequestType_def Let_def by (simp add: pop_slashes.simps)

lemma getRequestType_total:
  assumes "paths_ok (getServerPaths (interp w))" and "target req \<noteq> []"
  obtains r t where "normalised_target (target req) = Inr r" "fst (getRequestType req w) = Inr t"
    "t = None_type \<or> (\<exists>l. routed (getServerPaths (interp w)) r l t \<and> served_type (files w) (getServerPaths (interp w)) r l t = t)"
proof -
  obtain r where r: "normalised_target (target req) = Inr r"
    using normalised_target_cases [OF assms(2)] by blast
  show ?thesis
  proof (cases "\<exists>l t. routed (getServerPaths (interp w)) r l t")
    case True
    then obtain l t where lt: "routed (getServerPaths (interp w)) r l t" by blast
    let ?t = "served_type (files w) (getServerPaths (interp w)) r l t"
    have "?t = None_type \<or> ?t = t" by (simp add: served_type_def)
    with lt have "?t = None_type \<or> (\<exists>l. routed (getServerPaths (interp w)) r l ?t \<and>
        served_type (files w) (getServerPaths (interp w)) r l ?t = ?t)" by metis
    then show ?thesis by (rule that [OF r getRequestType_routed [OF assms(1) r lt]])
  next
    case False
    with getRequestType_not_routed [OF r False] that [OF r] show ?thesis by blast
  qed
qed

lemma getRequestType_is:
  assumes "paths_ok (getServerPaths (interp w))" and "target req \<noteq> []"
    and "fst (getRequestType req w) = Inr t" and "t \<noteq> None_type"
  shows "\<exists>r l. normalised_target (target req) = Inr r \<and> routed (getServerPaths (interp w)) r l t \<and>
    served_type (files w) (getServerPaths (interp w)) r l t = t"
  by (rule getRequestType_total [OF assms(1,2)]) (use assms(3,4) in auto)

lemma getStaticFilePath_routed:
  assumes "paths_ok (getServerPaths (interp w))" and "normalised_target (target req) = Inr r"
    and "routed (getServerPaths (interp w)) r l Static"
  shows "fst (getStaticFilePath req w) = Inr (static_file (getServerPaths (interp w)) l r)"
proof -
  let ?p = "getServerPaths (interp w)"
  have in_all: "(l, Static) \<in> set (static_candidates ?p)" and pre: "prefix l r"
    using assms(3) unfolding routed_def longest_among_def
    by (auto simp: request_candidates_def static_candidates_def)
  have "longest_among (set (static_candidates ?p)) r l Static"
    using longest_subset [OF _ in_all candidates_subset(1)] assms(3) by (simp add: routed_def)
  from scan_all_longest [OF distinct_candidates(2) [OF assms(1)] this]
  have "static_match ?p r = \<lparr>longest_size = length l, longest_path = l, match_type = Static\<rparr>"
    by (simp add: static_match_all)
  then show ?thesis
    using assms(2) pre unfolding getStaticFilePath_def Let_def
    by (simp add: after_match_prefix static_file_def)
qed

lemma getCrudEntityPath_routed:
  assumes "paths_ok (getServerPaths (interp w))" and "normalised_target (target req) = Inr r"
    and "routed (getServerPaths (interp w)) r l CRUD"
  shows "fst (getCrudEntityPath req w) =
    bind_result (split_entity_path (drop (length l) r))
      (\<lambda>(name, ident). Inr \<lparr>data_path = map_at (crud_paths (getServerPaths (interp w))) l,
                             entity_name = name, entity_id = ident\<rparr>)"
proof -
  let ?p = "getServerPaths (interp w)"
  have in_all: "(l, CRUD) \<in> set (crud_candidates ?p)" and pre: "prefix l r"
    using assms(3) unfolding routed_def longest_among_def
    by (auto simp: request_candidates_def static_candidates_def crud_candidates_def)
  have "longest_among (set (crud_candidates ?p)) r l CRUD"
    using longest_subset [OF _ in_all candidates_subset(2)] assms(3) by (simp add: routed_def)
  from scan_all_longest [OF distinct_candidates(3) [OF assms(1)] this]
  have "crud_match ?p r = \<lparr>longest_size = length l, longest_path = l, match_type = CRUD\<rparr>"
    by (simp add: crud_match_all)
  then show ?thesis
    using assms(2) pre unfolding getCrudEntityPath_def Let_def
    by (simp add: after_match_prefix bind_result_def split: sum.split prod.split)
qed

text \<open>Entity and identifier of a path below a CRUD location.\<close>

lemma find_slash_after: "CHR ''/'' \<notin> set a \<Longrightarrow> find_sub ''/'' (a @ CHR ''/'' # b) = Some (length a)"
  by (induction a) auto

lemma find_slash_none: "CHR ''/'' \<notin> set a \<Longrightarrow> find_sub ''/'' a = None"
  by (induction a) auto

lemma split_entity_object:
  "CHR ''/'' \<notin> set name \<Longrightarrow> split_entity_path (c # name @ CHR ''/'' # ident) = Inr (name, ident)"
  using find_slash_after [of name ident]
  by (simp add: split_entity_path_def find_from_def substr_def)

lemma split_entity_only:
  "CHR ''/'' \<notin> set name \<Longrightarrow> name \<noteq> [] \<Longrightarrow> split_entity_path (c # name) = Inr (name, [])"
  using find_slash_none [of name] by (simp add: split_entity_path_def find_from_def substr1_def)

lemma split_entity_none: "split_entity_path [] = Inr ([], [])" "split_entity_path [c] = Inr ([], [])"
  by (simp_all add: split_entity_path_def find_from_def)

lemma split_entity_total: "\<exists>name ident. split_entity_path s = Inr (name, ident) \<and> CHR ''/'' \<notin> set name"
proof (cases s)
  case Nil
  then show ?thesis by (simp add: split_entity_none)
next
  case (Cons c t)
  show ?thesis
  proof (cases "CHR ''/'' \<in> set t")
    case True
    then obtain a b where t: "t = a @ CHR ''/'' # b" and a: "CHR ''/'' \<notin> set a"
      using split_list_first by metis
    then show ?thesis using split_entity_object [OF a] Cons by simp
  next
    case False
    then show ?thesis
      using split_entity_only [of t c] split_entity_none(2) Cons by (cases "t = []") simp_all
  qed
qed

text \<open>
  A configuration used in the examples: a static, a CRUD, and an echo location, one of them a
  prefix of another.
\<close>

definition sample_paths :: server_paths where
  "sample_paths = \<lparr>echo_paths = [''/static/echo''], static_paths = [(''/static'', ''data'')],
     crud_paths = [(''/api'', ''crud'')], health_paths = [''/health''], sleep_paths = [''/sleep''],
     app_paths = [''/'']\<rparr>"

definition sample_files :: filesystem where
  "sample_files = \<lparr>nodes = [([], Directory), ([''data''], Directory),
       ([''data'', ''a.txt''], Regular ''hello'')],
     cwd = [], unreadable = (\<lambda>_. False), unwritable = (\<lambda>_. False), dir_end = - 1\<rparr>"

definition sample_world :: world where
  "sample_world = \<lparr>files = sample_files, logs = new_LoggingBuffer [] [],
     interp = \<lparr>server_paths_ptr = sample_paths, api_key = [], chatgpt_url = []\<rparr>,
     slept_ms = 0, entity_mutex = False\<rparr>"

definition get_request :: "string \<Rightarrow> request" where
  "get_request t = \<lparr>req_method = Get, method_string = ''GET'', target = t, version = 11,
     header_fields = [], body = []\<rparr>"

lemma sample_paths_ok: "paths_ok sample_paths"
  by (simp add: paths_ok_def sample_paths_def all_locations_def map_ok_def)

subsection \<open>Properties\<close>

text \<open>
  C29: Normalising a target fails exactly on the empty one, where the code takes \<open>back()\<close> of an
  empty string. Any other target gives a text with no two slashes in a row and no trailing
  slash (except the root), with the same segments, and normalising again changes nothing.
\<close>

theorem normalised_target_correct:
  "case normalised_target s of
     Inl e \<Rightarrow> s = [] \<and> e = Undefined_behaviour ''back() of an empty string''
   | Inr t \<Rightarrow> s \<noteq> [] \<and> normal_target t \<and> segments t = segments s \<and> normalised_target t = Inr t"
proof (cases "s = []")
  case True
  then show ?thesis by (simp add: normalised_target_empty)
next
  case False
  then obtain t where t: "normalised_target s = Inr t" "normal_target t"
    using normalised_target_cases by blast
  then have "pop_slashes (collapse_slashes False s) = Inr t" by (simp add: normalised_target_def)
  then have "segments t = segments s" using segments_pop segments_collapse by metis
  with t False show ?thesis by (simp add: normalised_target_id)
qed

text \<open>
  C13: On paths that \<open>setServerPaths\<close> accepts, the request type is that of the one longest
  location that is a prefix of the normalised target; a static location whose file does not
  open, or no location at all, gives \<open>None\<close>. The order of the six scans does not matter.
\<close>

theorem getRequestType_longest:
  assumes "paths_ok (getServerPaths (interp w))" and "normalised_target (target req) = Inr r"
  shows "if \<exists>l t. routed (getServerPaths (interp w)) r l t
    then \<exists>!(l, t). routed (getServerPaths (interp w)) r l t \<and>
           fst (getRequestType req w) =
             Inr (served_type (files w) (getServerPaths (interp w)) r l t)
    else fst (getRequestType req w) = Inr None_type"
proof -
  let ?p = "getServerPaths (interp w)"
  have unique: "l = l' \<and> t = t'" if "routed ?p r l t" "routed ?p r l' t'" for l t l' t'
    using longest_unique [OF distinct_candidates(1) [OF assms(1)]] that by (simp add: routed_def)
  show ?thesis
  proof (cases "\<exists>l t. routed ?p r l t")
    case True
    then obtain l t where lt: "routed ?p r l t" by blast
    then have "\<exists>!(l, t). routed ?p r l t \<and>
        fst (getRequestType req w) = Inr (served_type (files w) ?p r l t)"
      using getRequestType_routed [OF assms lt] unique
      by (intro ex1I [of _ "(l, t)"]) auto
    with True show ?thesis by simp
  next
    case False
    with getRequestType_not_routed [OF assms(2) False] show ?thesis by simp
  qed
qed

theorem getRequestType_longest_witness:
  "if \<exists>l t. routed (getServerPaths (interp sample_world)) ''/static/a.txt'' l t
    then \<exists>!(l, t). routed (getServerPaths (interp sample_world)) ''/static/a.txt'' l t \<and>
           fst (getRequestType (get_request ''//static//a.txt/'') sample_world) =
             Inr (served_type (files sample_world) (getServerPaths (interp sample_world)) ''/static/a.txt'' l t)
    else fst (getRequestType (get_request ''//static//a.txt/'') sample_world) = Inr None_type"
proof (rule getRequestType_longest)
  show "paths_ok (getServerPaths (interp sample_world))"
    by (simp add: sample_world_def getServerPaths_def sample_paths_ok)
  have "normalised_target ''//static//a.txt/'' = Inr ''/static/a.txt''" by code_simp
  then show "normalised_target (target (get_request ''//static//a.txt/'')) = Inr ''/static/a.txt''"
    by (simp add: get_request_def)
qed

text \<open>
  C26: A request that \<open>getRequestType\<close> calls static is one \<open>getStaticFilePath\<close> also finds
  static, and the path it answers is the path of the file that was found to open.
\<close>

theorem static_request_has_file:
  assumes "paths_ok (getServerPaths (interp w))" and "target req \<noteq> []"
    and "fst (getRequestType req w) = Inr Static"
  shows "\<exists>path n. fst (getStaticFilePath req w) = Inr path \<and> open_read (files w) path = Some n"
proof -
  let ?p = "getServerPaths (interp w)"
  obtain r l where r: "normalised_target (target req) = Inr r" and l: "routed ?p r l Static"
    and s: "served_type (files w) ?p r l Static = Static"
    using getRequestType_is [OF assms] by auto
  from s have "open_read (files w) (static_file ?p l r) \<noteq> None"
    by (auto simp: served_type_def split: if_splits)
  with getStaticFilePath_routed [OF assms(1) r l] show ?thesis by auto
qed

theorem static_request_has_file_witness:
  "\<exists>path n. fst (getStaticFilePath (get_request ''/static/a.txt'') sample_world) = Inr path \<and>
     open_read (files sample_world) path = Some n"
proof (rule static_request_has_file)
  show "paths_ok (getServerPaths (interp sample_world))"
    by (simp add: sample_world_def getServerPaths_def sample_paths_ok)
  show "target (get_request ''/static/a.txt'') \<noteq> []" by (simp add: get_request_def)
  show "fst (getRequestType (get_request ''/static/a.txt'') sample_world) = Inr Static"
    by code_simp
qed

text \<open>
  C28: A request that \<open>getRequestType\<close> calls a CRUD request, for a target \<open>location/name/id\<close> with
  no slash in the name, is one for which \<open>getCrudEntityPath\<close> answers the location's data path,
  that name and that identifier.
\<close>

theorem crud_request_path:
  assumes "paths_ok (getServerPaths (interp w))"
    and "normalised_target (target req) = Inr (l @ ''/'' @ name @ ''/'' @ ident)"
    and "routed (getServerPaths (interp w)) (l @ ''/'' @ name @ ''/'' @ ident) l CRUD"
    and "CHR ''/'' \<notin> set name"
  shows "fst (getRequestType req w) = Inr CRUD \<and>
    fst (getCrudEntityPath req w) =
      Inr \<lparr>data_path = map_at (crud_paths (getServerPaths (interp w))) l,
           entity_name = name, entity_id = ident\<rparr>"
  using getRequestType_routed [OF assms(1-3)] getCrudEntityPath_routed [OF assms(1-3)]
    split_entity_object [OF assms(4), of "CHR ''/''" ident]
  by (simp_all add: served_type_def)

theorem crud_request_path_witness:
  "fst (getRequestType (get_request ''/api/Shoes/7'') sample_world) = Inr CRUD \<and>
   fst (getCrudEntityPath (get_request ''/api/Shoes/7'') sample_world) =
     Inr \<lparr>data_path = ''crud'', entity_name = ''Shoes'', entity_id = ''7''\<rparr>"
proof -
  let ?p = "getServerPaths (interp sample_world)" and ?r = "''/api'' @ ''/'' @ ''Shoes'' @ ''/'' @ ''7''"
  have p: "?p = sample_paths" by (simp add: sample_world_def getServerPaths_def)
  have ok: "paths_ok ?p" by (simp add: p sample_paths_ok)
  have "normalised_target ''/api/Shoes/7'' = Inr ''/api/Shoes/7''" by code_simp
  then have n: "normalised_target (target (get_request ''/api/Shoes/7'')) = Inr ?r"
    by (simp add: get_request_def)
  have r: "routed ?p ?r ''/api'' CRUD"
    by (simp add: p routed_def longest_among_def request_candidates_def sample_paths_def)
  have s: "CHR ''/'' \<notin> set ''Shoes''" by simp
  have "map_at (crud_paths ?p) ''/api'' = ''crud''" by (simp add: p sample_paths_def map_at_def)
  with crud_request_path [OF ok n r s] show ?thesis by simp
qed

text \<open>A target that is empty reaches \<open>back()\<close> of the empty string before anything checks it.\<close>

lemma empty_target_undefined:
  "fst (getRequestType (get_request []) w) = Inl (Undefined_behaviour ''back() of an empty string'')"
  by (rule getRequestType_UB) (simp add: get_request_def)

text \<open>Prefixes are not cut at segments: \<open>/apiary\<close> is a request for \<open>/api\<close>, for the entity \<open>ry\<close>.\<close>

lemma prefix_ignores_segments:
  "fst (getRequestType (get_request ''/apiary'') sample_world) = Inr CRUD"
  "fst (getCrudEntityPath (get_request ''/apiary'') sample_world) =
     Inr \<lparr>data_path = ''crud'', entity_name = ''ry'', entity_id = []\<rparr>"
  by code_simp+

end
