(* ===== verification/Declared_Routes.thy ===== *)
theory Declared_Routes
  imports Request_Dispatcher
begin

text \<open>
  From the location lines of a configuration to the candidates the dispatcher scans: which
  requests a declaration serves, as a reader of the configuration file understands it. This is
  the specification the routing of the running server is compared with.
\<close>

definition declared_type :: "nginx_statement \<Rightarrow> request_type option" where
  "declared_type d =
     (if decl_handler d = ''EchoHandler'' then Some Echo
      else if decl_handler d = ''HealthHandler'' then Some Health
      else if decl_handler d = ''SleepHandler'' then Some Sleep
      else if decl_handler d = ''AppHandler'' then Some App
      else if decl_handler d = ''StaticHandler'' \<and> block_value ''root'' d \<noteq> None then Some Static
      else if decl_handler d = ''CrudHandler'' \<and> block_value ''data_path'' d \<noteq> None then Some CRUD
      else None)"

text \<open>The declaration with the longest location that the target begins with.\<close>

definition declared_route :: "nginx_statement list \<Rightarrow> string \<Rightarrow> nginx_statement \<Rightarrow> bool" where
  "declared_route ds r d \<longleftrightarrow>
     d \<in> set ds \<and> declared_type d \<noteq> None \<and> decl_location d \<noteq> [] \<and> prefix (decl_location d) r \<and>
     (\<forall>d' \<in> set ds. declared_type d' \<noteq> None \<longrightarrow> prefix (decl_location d') r \<longrightarrow>
        length (decl_location d') \<le> length (decl_location d))"

lemma declared_type_iff:
  "declared_type d = Some t \<longleftrightarrow>
     (case t of
        Echo \<Rightarrow> decl_handler d = ''EchoHandler''
      | Health \<Rightarrow> decl_handler d = ''HealthHandler''
      | Sleep \<Rightarrow> decl_handler d = ''SleepHandler''
      | App \<Rightarrow> decl_handler d = ''AppHandler''
      | Static \<Rightarrow> decl_handler d = ''StaticHandler'' \<and> block_value ''root'' d \<noteq> None
      | CRUD \<Rightarrow> decl_handler d = ''CrudHandler'' \<and> block_value ''data_path'' d \<noteq> None
      | _ \<Rightarrow> False)"
  by (cases t) (auto simp: declared_type_def)

lemma find_distinct:
  assumes "distinct (map f ds)" and "d \<in> set ds" and "P d"
  shows "find (\<lambda>x. P x \<and> f x = f d) ds = Some d"
  using assms by (induction ds) (auto simp: image_iff)

lemma declared_path_of:
  assumes "distinct (map decl_location ds)" and "d \<in> set ds" and "decl_handler d = h"
  shows "declared_path h w ds (decl_location d) = block_value w d"
  using find_distinct [of decl_location ds d "\<lambda>x. decl_handler x = h"] assms by (simp add: declared_path_def)

lemma declared_path_Some:
  "declared_path h w ds l = Some v \<Longrightarrow>
    \<exists>d \<in> set ds. decl_handler d = h \<and> decl_location d = l \<and> block_value w d = Some v"
  by (auto simp: declared_path_def find_Some_iff split: option.splits)

lemma map_keys:
  assumes "distinct (map decl_location ds)" and "\<And>loc. map_of m loc = declared_path h w ds loc"
  shows "set (map fst m) = {decl_location d | d. d \<in> set ds \<and> decl_handler d = h \<and> block_value w d \<noteq> None}"
proof -
  have "set (map fst m) = dom (declared_path h w ds)"
    using dom_map_of_conv_image_fst [of m] ext [of "map_of m" "declared_path h w ds", OF assms(2)] by simp
  also have "\<dots> = {decl_location d | d. d \<in> set ds \<and> decl_handler d = h \<and> block_value w d \<noteq> None}"
    using declared_path_of [OF assms(1)] declared_path_Some by fastforce
  finally show ?thesis .
qed

lemma declared_candidates:
  assumes "paths_spec ds p" and "distinct (map decl_location ds)"
  shows "set (request_candidates p) = {(decl_location d, t) | d t. d \<in> set ds \<and> declared_type d = Some t}"
proof -
  have s: "set (map fst (static_paths p)) =
      {decl_location d | d. d \<in> set ds \<and> decl_handler d = ''StaticHandler'' \<and> block_value ''root'' d \<noteq> None}"
    using assms by (intro map_keys) (auto simp: paths_spec_def)
  have c: "set (map fst (crud_paths p)) =
      {decl_location d | d. d \<in> set ds \<and> decl_handler d = ''CrudHandler'' \<and> block_value ''data_path'' d \<noteq> None}"
    using assms by (intro map_keys) (auto simp: paths_spec_def)
  have l: "set (locations_of h ds) = {decl_location d | d. d \<in> set ds \<and> decl_handler d = h}" for h
    by (auto simp: locations_of_def)
  have im: "(\<lambda>l. (l, t)) ` {decl_location d | d. Q d} = {(decl_location d, t) | d. Q d}" for t :: request_type and Q
    by auto
  have "set (request_candidates p) =
      (\<lambda>l. (l, Static)) ` set (map fst (static_paths p)) \<union> (\<lambda>l. (l, CRUD)) ` set (map fst (crud_paths p))
      \<union> (\<lambda>l. (l, Echo)) ` set (locations_of ''EchoHandler'' ds) \<union> (\<lambda>l. (l, Health)) ` set (locations_of ''HealthHandler'' ds)
      \<union> (\<lambda>l. (l, Sleep)) ` set (locations_of ''SleepHandler'' ds) \<union> (\<lambda>l. (l, App)) ` set (locations_of ''AppHandler'' ds)" (is "_ = ?all")
    using assms(1) unfolding request_candidates_def paths_spec_def by (simp add: Un_assoc image_image)
  also have "\<dots> = {(decl_location d, t) | d t. d \<in> set ds \<and> declared_type d = Some t}"
  proof (intro set_eqI iffI)
    fix x :: "string \<times> request_type"
    assume "x \<in> {(decl_location d, t) | d t. d \<in> set ds \<and> declared_type d = Some t}"
    then obtain d t where x: "x = (decl_location d, t)" "d \<in> set ds" "declared_type d = Some t" by blast
    then show "x \<in> ?all" unfolding s c l im by (cases t) (auto simp: declared_type_iff)
  next
    fix x assume "x \<in> ?all"
    then show "x \<in> {(decl_location d, t) | d t. d \<in> set ds \<and> declared_type d = Some t}"
      unfolding s c l im by (elim UnE; force simp: declared_type_iff)
  qed
  finally show ?thesis .
qed

lemma declared_routed:
  assumes "paths_spec ds p" and "distinct (map decl_location ds)" and "declared_route ds r d"
    and "declared_type d = Some t"
  shows "routed p r (decl_location d) t"
  using assms(3,4) unfolding routed_def longest_among_def declared_candidates [OF assms(1,2)] declared_route_def
  by auto

lemma declared_unrouted:
  assumes "paths_spec ds p" and "distinct (map decl_location ds)" and "\<nexists>d. declared_route ds r d"
  shows "\<nexists>l t. routed p r l t"
proof
  assume "\<exists>l t. routed p r l t"
  then obtain l t where "longest_among (set (request_candidates p)) r l t" by (auto simp: routed_def)
  then have l: "(l, t) \<in> {(decl_location d, t) | d t. d \<in> set ds \<and> declared_type d = Some t}"
      "l \<noteq> []" "prefix l r"
    and longest: "\<And>l' t'. (l', t') \<in> {(decl_location d, t) | d t. d \<in> set ds \<and> declared_type d = Some t} \<Longrightarrow>
      prefix l' r \<Longrightarrow> length l' \<le> length l"
    unfolding longest_among_def declared_candidates [OF assms(1,2)] by blast+
  from l(1) obtain d where d: "d \<in> set ds" "declared_type d = Some t" "l = decl_location d" by blast
  have "length (decl_location d') \<le> length l"
    if "d' \<in> set ds" "declared_type d' = Some t'" "prefix (decl_location d') r" for d' t'
    by (rule longest [OF _ that(3), of t']) (use that(1,2) in blast)
  with d l(2,3) have "declared_route ds r d" by (auto simp: declared_route_def)
  with assms(3) show False by blast
qed

text \<open>The type the dispatcher answers, in terms of the declarations alone.\<close>

definition declared_answer :: "filesystem \<Rightarrow> string \<Rightarrow> nginx_statement \<Rightarrow> request_type" where
  "declared_answer f r d =
     (if declared_type d = Some Static \<and>
         open_read f (the (block_value ''root'' d) @ drop (length (decl_location d)) r) = None
      then None_type else the (declared_type d))"

lemma served_type_declared:
  assumes "paths_spec ds p" and "distinct (map decl_location ds)" and "declared_route ds r d"
    and "declared_type d = Some t"
  shows "served_type f p r (decl_location d) t = declared_answer f r d"
proof (cases "t = Static")
  case True
  with assms(4) have h: "decl_handler d = ''StaticHandler''" "block_value ''root'' d \<noteq> None"
    by (auto simp: declared_type_def split: if_splits)
  then have "map_of (static_paths p) (decl_location d) = block_value ''root'' d"
    using assms(1,3) declared_path_of [OF assms(2)] by (auto simp: paths_spec_def declared_route_def)
  with h(2) have "static_file p (decl_location d) r = the (block_value ''root'' d) @ drop (length (decl_location d)) r"
    by (auto simp: static_file_def map_at_def)
  then show ?thesis using True assms(4) by (simp add: served_type_def declared_answer_def)
qed (use assms(4) in \<open>simp add: served_type_def declared_answer_def\<close>)

lemma getRequestType_declared:
  assumes "paths_spec ds (getServerPaths (interp w))" and "distinct (map decl_location ds)"
    and "paths_ok (getServerPaths (interp w))" and "normalised_target (target req) = Inr r"
  shows "declared_route ds r d \<Longrightarrow> fst (getRequestType req w) = Inr (declared_answer (files w) r d)"
    and "\<nexists>d. declared_route ds r d \<Longrightarrow> fst (getRequestType req w) = Inr None_type"
proof -
  show "fst (getRequestType req w) = Inr (declared_answer (files w) r d)" if d: "declared_route ds r d"
  proof -
    from d obtain t where t: "declared_type d = Some t" by (auto simp: declared_route_def)
    from getRequestType_routed [OF assms(3,4) declared_routed [OF assms(1,2) d t]]
    show ?thesis by (simp add: served_type_declared [OF assms(1,2) d t])
  qed
  show "fst (getRequestType req w) = Inr None_type" if "\<nexists>d. declared_route ds r d"
    using getRequestType_not_routed [OF assms(4) declared_unrouted [OF assms(1,2) that]] .
qed

end
