(* ===== verification/Crud_Store.thy ===== *)
theory Crud_Store
  imports Crud_File_Manager
begin

text \<open>
  What the operations of \<open>CrudFileManager\<close> do to the files, in the environment the server is
  meant to run in: the data directory exists, files can be read and written, and the temporary
  file of \<open>writeEntityId\<close> lies outside the data directory. The counter file is read through
  \<open>id_in\<close>; \<open>entity_inv\<close> ties the counter of an entity to the identifiers in its directory.
\<close>

subsection \<open>The environment\<close>

definition temp_path :: "filesystem \<Rightarrow> path" where
  "temp_path f = cwd f @ [''temp'']"

abbreviation max_name :: string where
  "max_name \<equiv> ''maxEntityIds''"

definition fs_tree :: "filesystem \<Rightarrow> bool" where
  "fs_tree f \<longleftrightarrow> (\<forall>p c. node f (p @ [c]) \<noteq> None \<longrightarrow> is_dir f p)"

definition store_env :: "string \<Rightarrow> path \<Rightarrow> filesystem \<Rightarrow> bool" where
  "store_env dp D f \<longleftrightarrow>
     dp \<noteq> [] \<and> locate f dp = Some D \<and> is_dir f D \<and> is_dir f (cwd f) \<and> fs_tree f \<and>
     (\<forall>p. \<not> unreadable f p \<and> \<not> unwritable f p) \<and>
     \<not> prefix D (temp_path f) \<and> \<not> is_dir f (temp_path f) \<and> \<not> is_dir f (D @ [max_name])"

definition entity_ok :: "string \<Rightarrow> bool" where
  "entity_ok n \<longleftrightarrow> plain_name n \<and> no_space n \<and> CHR '':'' \<notin> set n \<and> n \<noteq> max_name"

lemma fs_tree_prefix:
  "fs_tree f \<Longrightarrow> node f q \<noteq> None \<Longrightarrow> strict_prefix p q \<Longrightarrow> is_dir f p"
proof (induction q rule: rev_induct)
  case (snoc c q)
  then have d: "is_dir f q" unfolding fs_tree_def by blast
  from snoc.prems(3) have "prefix p (q @ [c])" and "p \<noteq> q @ [c]"
    unfolding strict_prefix_def by blast+
  then have pre: "prefix p q" by auto
  show ?case
  proof (cases "p = q")
    case False
    with pre have "strict_prefix p q" by (simp add: strict_prefix_def)
    moreover have "node f q \<noteq> None" using d by (simp add: is_dir_def)
    ultimately show ?thesis using snoc by blast
  qed (use d in simp)
qed simp

lemma node_keys: "q \<in> set (map fst (nodes f)) \<longleftrightarrow> node f q \<noteq> None"
  by (simp add: node_def map_of_eq_None_iff)

lemma fs_tree_put:
  assumes t: "fs_tree f" and d: "is_dir f p" and n: "\<not> is_dir f (p @ [c])"
  shows "fs_tree (put_node (p @ [c]) n f)"
  unfolding fs_tree_def
proof (intro allI impI)
  fix q a
  assume q: "node (put_node (p @ [c]) n f) (q @ [a]) \<noteq> None"
  have "q = p \<Longrightarrow> is_dir (put_node (p @ [c]) n f) q" using d by (simp add: is_dir_put)
  moreover have "is_dir (put_node (p @ [c]) n f) q" if "q \<noteq> p"
  proof -
    have "node f (q @ [a]) \<noteq> None" using q that by simp
    then have "is_dir f q" using t unfolding fs_tree_def by blast
    with n show ?thesis by (auto simp: is_dir_put)
  qed
  ultimately show "is_dir (put_node (p @ [c]) n f) q" by blast
qed

lemma fs_tree_del: "fs_tree f \<Longrightarrow> \<not> is_dir f p \<Longrightarrow> fs_tree (del_node p f)"
  unfolding fs_tree_def by (auto simp: is_dir_del split: if_splits)

lemma plain_max [simp]: "plain_name max_name"
  by (simp add: plain_name_def)

lemma plain_temp [simp]: "plain_name ''temp''"
  by (simp add: plain_name_def)

lemma entity_plain: "entity_ok n \<Longrightarrow> plain_name n"
  by (simp add: entity_ok_def)

lemma store_envD:
  assumes "store_env dp D f"
  shows "dp \<noteq> []" "locate f dp = Some D" "is_dir f D" "is_dir f (cwd f)" "fs_tree f"
    "\<not> unreadable f p" "\<not> unwritable f p" "\<not> prefix D (temp_path f)" "\<not> is_dir f (temp_path f)"
    "\<not> is_dir f (D @ [max_name])"
  using assms by (simp_all add: store_env_def)

lemma temp_outside: "store_env dp D f \<Longrightarrow> D @ xs \<noteq> temp_path f" "store_env dp D f \<Longrightarrow> temp_path f \<noteq> D @ xs"
  using store_envD(8) by (metis prefixI)+

lemma locate_max: "store_env dp D f \<Longrightarrow> locate f (dp @ ''/maxEntityIds'') = Some (D @ [max_name])"
  using locate_child [of dp max_name f] by (simp add: store_envD)

lemma locate_entity:
  "store_env dp D f \<Longrightarrow> entity_ok n \<Longrightarrow> locate f (dp @ ''/'' @ n) = Some (D @ [n])"
  using locate_child [of dp n f] by (simp add: store_envD entity_plain)

lemma locate_object:
  assumes "store_env dp D f" and "entity_ok n" and "plain_name i"
  shows "locate f (dp @ ''/'' @ n @ ''/'' @ i) = (if is_dir f (D @ [n]) then Some (D @ [n, i]) else None)"
  using locate_child [of "dp @ ''/'' @ n" i f] locate_entity [OF assms(1,2)] assms(3)
  by (simp add: store_envD)

lemma locate_temp: "store_env dp D f \<Longrightarrow> locate f ''temp'' = Some (temp_path f)"
  using walk_plain [OF plain_temp, of f "cwd f"] split_slash_plain [OF plain_temp]
  by (simp add: locate_def start_dir_def temp_path_def store_envD del: walk.simps)

text \<open>Writing a file in an existing directory keeps the environment.\<close>

lemma store_env_put:
  assumes env: "store_env dp D f" and "is_dir f p" and "\<not> is_dir f (p @ [c])"
  shows "store_env dp D (put_node (p @ [c]) (Regular t) f)"
  using store_envD [OF env] assms(2,3) fs_tree_put [of f p c]
  by (auto simp: store_env_def locate_put_file is_dir_put temp_path_def)

lemma store_env_put_child:
  assumes env: "store_env dp D f" and "is_dir f (D @ xs)" and "\<not> is_dir f (D @ xs @ [c])"
  shows "store_env dp D (put_node (D @ xs @ [c]) (Regular t) f)"
  using store_env_put [OF env, of "D @ xs" c] assms by simp

lemma store_env_del:
  assumes env: "store_env dp D f" and "\<not> is_dir f p"
  shows "store_env dp D (del_node p f)"
  using store_envD [OF env] assms(2) fs_tree_del [of f p]
  by (auto simp: store_env_def locate_del_file is_dir_del temp_path_def)

lemma store_env_put_dir:
  assumes env: "store_env dp D f" and n: "entity_ok n" and none: "node f (D @ [n]) = None"
  shows "store_env dp D (put_node (D @ [n]) Directory f)"
proof -
  have g: "grows f (put_node (D @ [n]) Directory f)" using none by (rule grows_put_dir)
  have "\<not> is_dir f (D @ [n])" using none by (simp add: is_dir_def)
  then have "fs_tree (put_node (D @ [n]) Directory f)"
    using fs_tree_put store_envD [OF env] by blast
  moreover have "cwd f @ [''temp''] \<noteq> D @ [n]"
    using temp_outside(2) [OF env, of "[n]"] by (simp add: temp_path_def)
  moreover have "max_name \<noteq> n" and "cwd f \<noteq> D @ [n]"
    using n store_envD(8) [OF env] by (auto simp: entity_ok_def temp_path_def)
  ultimately show ?thesis using store_envD [OF env] n
    by (simp add: store_env_def grows_locate [OF g] is_dir_put temp_path_def entity_ok_def)
qed

subsection \<open>The counter file\<close>

definition max_text :: "path \<Rightarrow> filesystem \<Rightarrow> string" where
  "max_text D f = (case node f (D @ [max_name]) of Some n \<Rightarrow> node_text n | None \<Rightarrow> [])"

definition id_in :: "string \<Rightarrow> string list \<Rightarrow> 64 word result option" where
  "id_in n ls =
     (case find (is_id_line n) ls of
        None \<Rightarrow> None
      | Some line \<Rightarrow> Some (bind_result (substr1 line (length n + 1)) stoull))"

definition id_at :: "path \<Rightarrow> filesystem \<Rightarrow> string \<Rightarrow> 64 word result option" where
  "id_at D f n = id_in n (words_of (max_text D f))"

lemma is_id_line_own [simp]: "is_id_line n (id_line n v)"
  by (simp add: is_id_line_def id_line_def)

lemma is_id_line_other:
  assumes "CHR '':'' \<notin> set n" and "CHR '':'' \<notin> set m" and "is_id_line m l" and "is_id_line n l"
  shows "m = n"
proof -
  from assms(3,4) have "prefix (m @ '':'') l" "prefix (n @ '':'') l"
    unfolding is_id_line_def by (metis take_is_prefix)+
  then have "prefix (m @ '':'') (n @ '':'') \<or> prefix (n @ '':'') (m @ '':'')"
    using prefix_same_cases by blast
  then show ?thesis
    using assms(1,2) by (auto simp: prefix_def append_eq_append_conv2 append_eq_Cons_conv Cons_eq_append_conv)
qed

lemma id_of_own_line: "bind_result (substr1 (id_line n v) (length n + 1)) stoull = Inr v"
  by (simp add: id_line_def substr1_def)

lemma id_in_Nil [simp]: "id_in n [] = None"
  by (simp add: id_in_def)

lemma id_in_snoc_own:
  "id_in n (ls @ [id_line n v]) = (case id_in n ls of None \<Rightarrow> Some (Inr v) | Some r \<Rightarrow> Some r)"
  using id_of_own_line [of n v] by (simp add: id_in_def find_append split: option.split)

lemma id_in_snoc_other:
  "CHR '':'' \<notin> set n \<Longrightarrow> CHR '':'' \<notin> set m \<Longrightarrow> m \<noteq> n \<Longrightarrow> id_in m (ls @ [id_line n v]) = id_in m ls"
  using is_id_line_other [of n m "id_line n v"]
  by (auto simp: id_in_def find_append split: option.split)

lemma id_in_rewrite_own:
  "id_in n (rewrite_ids n v ls) = (if id_in n ls = None then None else Some (Inr v))"
  using id_of_own_line [of n v]
  by (induction ls) (auto simp: id_in_def rewrite_ids_def split: option.splits)

lemma id_in_rewrite_other:
  "CHR '':'' \<notin> set n \<Longrightarrow> CHR '':'' \<notin> set m \<Longrightarrow> m \<noteq> n \<Longrightarrow> id_in m (rewrite_ids n v ls) = id_in m ls"
proof (induction ls)
  case (Cons l ls)
  then have "is_id_line m l \<Longrightarrow> \<not> is_id_line n l" and "\<not> is_id_line m (id_line n v)"
    using is_id_line_other [of n m] is_id_line_own [of n v] by blast+
  with Cons show ?case by (auto simp: id_in_def rewrite_ids_def split: option.splits)
qed (simp add: rewrite_ids_def)

lemma no_space_id_line: "no_space n \<Longrightarrow> no_space (id_line n v)"
  using no_space_append [of "'':''" "to_string_u64 v"]
  by (simp add: id_line_def no_space_def [of "'':''"] is_space_def byte_def del: no_space_append)
    (simp add: id_line_def)

lemma id_line_nonempty [simp]: "id_line n v \<noteq> []"
  by (simp add: id_line_def)

lemma words_of_rewritten:
  "no_space n \<Longrightarrow> words_of (unlines (rewrite_ids n v (words_of t))) = rewrite_ids n v (words_of t)"
  unfolding unlines_def
  by (rule words_of_lines) (auto simp: rewrite_ids_def no_space_id_line dest: words_of_no_space)

lemma words_of_appended:
  "no_space n \<Longrightarrow> words_of (t @ [CHR 0x0A] @ id_line n v) = words_of t @ [id_line n v]"
  using words_of_append_space [of "CHR 0x0A" t "id_line n v"]
    words_of_last_word [OF no_space_id_line id_line_nonempty, of n v]
  by (simp add: is_space_def byte_def)

subsection \<open>What each operation does to the files\<close>

lemma max_text_put_other: "q \<noteq> D @ [max_name] \<Longrightarrow> max_text D (put_node q n f) = max_text D f"
  by (simp add: max_text_def)

lemma max_text_put_max [simp]: "max_text D (put_node (D @ [max_name]) (Regular t) f) = t"
  by (simp add: max_text_def)

definition touch_max :: "path \<Rightarrow> filesystem \<Rightarrow> filesystem" where
  "touch_max D f =
     (if node f (D @ [max_name]) = None then put_node (D @ [max_name]) (Regular []) f else f)"

lemma touch_max_node: "q \<noteq> D @ [max_name] \<Longrightarrow> node (touch_max D f) q = node f q"
  by (simp add: touch_max_def)

lemma touch_max_is_dir: "\<not> is_dir f (D @ [max_name]) \<Longrightarrow> is_dir (touch_max D f) q = is_dir f q"
  by (auto simp: touch_max_def is_dir_put)

lemma touch_max_text [simp]: "max_text D (touch_max D f) = max_text D f"
  by (simp add: touch_max_def) (simp add: max_text_def)

lemma touch_max_made: "node (touch_max D f) (D @ [max_name]) \<noteq> None"
  by (simp add: touch_max_def)

lemma touch_max_env: "store_env dp D f \<Longrightarrow> store_env dp D (touch_max D f)"
  using store_env_put [of dp D f D max_name "[]"] store_envD [of dp D f] by (simp add: touch_max_def)

lemma store_exists_max: "store_env dp D f \<Longrightarrow> exists_path f (dp @ ''/maxEntityIds'') \<longleftrightarrow> node f (D @ [max_name]) \<noteq> None"
  by (simp add: exists_path_def locate_max [simplified])

lemma store_exists_dir: "store_env dp D f \<Longrightarrow> exists_path f dp"
  using store_envD [of dp D f] by (simp add: exists_path_def is_dir_def)

lemma store_exists_entity:
  "store_env dp D f \<Longrightarrow> entity_ok n \<Longrightarrow> exists_path f (dp @ ''/'' @ n) \<longleftrightarrow> node f (D @ [n]) \<noteq> None"
  using locate_entity [of dp D f n] by (simp add: exists_path_def)

lemma max_file_text:
  assumes "store_env dp D f" and "node f (D @ [max_name]) \<noteq> None"
  shows "node f (D @ [max_name]) = Some (Regular (max_text D f))"
  using assms store_envD(10) [OF assms(1)] unfolding is_dir_def max_text_def
  by (cases "node f (D @ [max_name])"; cases "the (node f (D @ [max_name]))") auto

lemma generateEntityId_effect:
  assumes env: "store_env dp D (files w)" and m: "\<not> entity_mutex w"
    and p: "data_path p = dp" "entity_name p = n"
  shows "\<exists>w'. generateEntityId p w =
      (case id_at D (files w) n of
         None \<Rightarrow> Inr ''1'' | Some r \<Rightarrow> bind_result r (\<lambda>v. Inr (to_string_u64 (v + 1))), w')
    \<and> same_but_logs (wfiles (touch_max D (files w)) w) w'"
proof -
  let ?f = "files w"
  define w2 where "w2 = (if exists_path ?f (max_ids_file p) then wlock True w
      else wfiles (snd (write_file ?f (max_ids_file p) [])) (wlog INFO ''Max file doesn't exist'' (wlock True w)))"
  have loc: "locate ?f (max_ids_file p) = Some (D @ [max_name])"
    using locate_max [OF env] p by (simp add: max_ids_file_def)
  have ex: "exists_path ?f (max_ids_file p) \<longleftrightarrow> node ?f (D @ [max_name]) \<noteq> None"
    by (simp add: exists_path_def loc)
  have f2: "files w2 = touch_max D ?f"
    by (simp add: w2_def ex touch_max_def write_file_def write_with_def loc store_envD [OF env])
  have w2: "keeps w w2" "interp w2 = interp w" "slept_ms w2 = slept_ms w" by (simp_all add: w2_def)
  note env2 = touch_max_env [OF env]
  have n2: "node (files w2) (D @ [max_name]) = Some (Regular (max_text D ?f))"
    using max_file_text [OF env2 touch_max_made] f2 by simp
  have open2: "open_read_write (files w2) (max_ids_file p) = Some (max_text D ?f)"
    using locate_max [OF env2] n2 p store_envD [OF env2]
    by (simp add: open_read_write_def max_ids_file_def f2)
  have ens: "ensure_directory INFO dp (wlock True w) = wlock True w"
    using store_exists_dir [OF env] by (simp add: ensure_directory_def)
  have gen: "generateEntityId p w =
      (case find (is_id_line n) (words_of (max_text D ?f)) of
         Some line \<Rightarrow>
           (case bind_result (substr1 line (length n + 1)) stoull of
              Inl e \<Rightarrow> (Inl e, wlock False w2)
            | Inr max_id \<Rightarrow> (Inr (to_string_u64 (max_id + 1)), wlock False w2))
       | None \<Rightarrow> (Inr ''1'', wlock False w2))"
    unfolding generateEntityId_def Let_def p ens wlog_frame wlock_frame
    using m open2 unfolding w2_def by simp
  have same: "same_but_logs (wfiles (touch_max D ?f) w) (wlock False w2)"
    using m w2 f2 by (simp add: same_but_logs_def)
  show ?thesis
    unfolding gen using same
    by (auto simp: id_at_def id_in_def split: option.split sum.split)
qed

text \<open>\<open>writeEntityId\<close> in its two uses: a new entity, and an entity that has a directory.\<close>

lemma writeEntityId_new:
  assumes env: "store_env dp D (files w)" and m: "\<not> entity_mutex w" and n: "entity_ok n"
    and p: "data_path p = dp" "entity_name p = n" and none: "node (files w) (D @ [n]) = None"
  shows "writeEntityId p v w =
      (Inr True, wfiles (put_node (D @ [max_name])
         (Regular (max_text D (files w) @ [CHR 0x0A] @ id_line n v)) (files w)) w)"
proof -
  let ?f = "files w" and ?line = "[CHR 0x0A] @ id_line n v"
  have loc: "locate ?f (max_ids_file p) = Some (D @ [max_name])"
    using locate_max [OF env] p by (simp add: max_ids_file_def)
  have ens: "ensure_directory ERROR dp (wlock True w) = wlock True w"
    using store_exists_dir [OF env] by (simp add: ensure_directory_def)
  have ex: "\<not> exists_path ?f (entity_dir p)"
    using store_exists_entity [OF env n] none p by (simp add: entity_dir_def)
  have app: "append_file ?f (max_ids_file p) ?line =
      (True, put_node (D @ [max_name]) (Regular (max_text D ?f @ ?line)) ?f)"
  proof (cases "node ?f (D @ [max_name]) = None")
    case True
    then show ?thesis
      using store_envD [OF env] by (simp add: append_file_def write_with_def loc max_text_def)
  next
    case False
    then show ?thesis
      using max_file_text [OF env False] store_envD [OF env]
      by (simp add: append_file_def write_with_def loc)
  qed
  have lock: "wlock False (wfiles g (wlock True w)) = wfiles g w" for g
    using m by (simp add: wlock_def wfiles_def)
  show ?thesis
    unfolding writeEntityId_def Let_def p ens wlock_frame
    using m ex app p lock by simp
qed

definition rewritten :: "path \<Rightarrow> filesystem \<Rightarrow> string \<Rightarrow> 64 word \<Rightarrow> filesystem" where
  "rewritten D f n v =
     del_node (temp_path f)
       (put_node (D @ [max_name])
         (Regular (unlines (rewrite_ids n v (words_of (max_text D f)))))
         (put_node (temp_path f) (Regular (unlines (rewrite_ids n v (words_of (max_text D f))))) f))"

lemma temp_max_distinct: "store_env dp D f \<Longrightarrow> temp_path f \<noteq> D @ [max_name]"
  using temp_outside(2) [of dp D f "[max_name]"] by simp

lemma rewritten_node:
  "store_env dp D f \<Longrightarrow> node (rewritten D f n v) = (node f)
     (D @ [max_name] \<mapsto> Regular (unlines (rewrite_ids n v (words_of (max_text D f)))), temp_path f := None)"
  using temp_max_distinct [of dp D f] by (auto simp: rewritten_def fun_eq_iff)

lemma rewritten_env:
  assumes env: "store_env dp D f"
  shows "store_env dp D (rewritten D f n v)"
proof -
  let ?t = "unlines (rewrite_ids n v (words_of (max_text D f)))"
  let ?f1 = "put_node (temp_path f) (Regular ?t) f"
  let ?f2 = "put_node (D @ [max_name]) (Regular ?t) ?f1"
  have e1: "store_env dp D ?f1"
    using store_env_put [OF env, of "cwd f" "''temp''" ?t] store_envD [OF env] by (simp add: temp_path_def)
  have "store_env dp D ?f2"
    using store_env_put [OF e1, of D max_name ?t] store_envD [OF e1] by simp
  then show ?thesis
    unfolding rewritten_def using store_env_del [of dp D ?f2 "temp_path f"] store_envD(9) [OF env]
    by (simp add: is_dir_put)
qed

lemma writeEntityId_rewrite:
  assumes env: "store_env dp D (files w)" and m: "\<not> entity_mutex w" and n: "entity_ok n"
    and p: "data_path p = dp" "entity_name p = n" and dir: "is_dir (files w) (D @ [n])"
    and max: "node (files w) (D @ [max_name]) \<noteq> None"
  shows "writeEntityId p v w = (Inr True, wfiles (rewritten D (files w) n v) w)"
proof -
  let ?f = "files w"
  let ?t = "unlines (rewrite_ids n v (words_of (max_text D ?f)))"
  let ?f1 = "put_node (temp_path ?f) (Regular ?t) ?f"
  let ?f2 = "put_node (D @ [max_name]) (Regular ?t) ?f1"
  note envs = store_envD [OF env]
  have loc: "locate ?f (max_ids_file p) = Some (D @ [max_name])"
    using locate_max [OF env] p by (simp add: max_ids_file_def)
  have ens: "ensure_directory ERROR dp (wlock True w) = wlock True w"
    using store_exists_dir [OF env] by (simp add: ensure_directory_def)
  have ex: "exists_path ?f (entity_dir p)"
    using store_exists_entity [OF env n] dir p by (simp add: entity_dir_def is_dir_def)
  have rd: "open_read ?f (max_ids_file p) = Some (Regular (max_text D ?f))"
    using max_file_text [OF env max] envs by (simp add: open_read_def loc)
  have wr: "write_file ?f temp_file ?t = (True, ?f1)"
    using envs locate_temp [OF env]
    by (auto simp: write_file_def write_with_def temp_file_def is_dir_def split: option.split fnode.split)
  have notdir: "\<not> is_dir ?f (temp_path ?f)" "\<not> is_dir ?f1 (D @ [max_name])"
    using envs by (simp_all add: is_dir_put)
  have loc1: "locate ?f1 s = locate ?f s" and loc2: "locate ?f2 s = locate ?f s" for s
    using notdir by (simp_all add: locate_put_file)
  note distinct = temp_max_distinct [OF env] temp_max_distinct [OF env, symmetric]
  have n1: "node ?f1 (D @ [max_name]) = Some (Regular (max_text D ?f))"
    using distinct max_file_text [OF env max] by simp
  have cp: "copy_file ?f1 temp_file (max_ids_file p) = (Inr (), ?f2)"
    using n1 distinct envs locate_temp [OF env]
    by (simp add: copy_file_def open_read_def write_file_def write_with_def loc1 loc temp_file_def)
  have "\<not> (\<exists>q \<in> set (map fst (nodes ?f2)). strict_prefix (temp_path ?f) q)"
  proof
    assume "\<exists>q \<in> set (map fst (nodes ?f2)). strict_prefix (temp_path ?f) q"
    then obtain q where k: "q \<in> set (map fst (nodes ?f2))" and q2: "strict_prefix (temp_path ?f) q"
      by blast
    have q: "node ?f2 q \<noteq> None" "strict_prefix (temp_path ?f) q"
      using k [unfolded node_keys] q2 by blast+
    have "q \<noteq> temp_path ?f" using q(2) by auto
    with q(1) have "q = D @ [max_name] \<or> node ?f q \<noteq> None" by (auto split: if_splits)
    then have "node ?f q \<noteq> None" using max by auto
    with q(2) envs fs_tree_prefix show False by blast
  qed
  then have rm: "remove_path ?f2 temp_file = (Inr True, rewritten D ?f n v)"
    using envs locate_temp [OF env] distinct
    by (simp add: remove_path_def loc2 temp_file_def rewritten_def)
      (simp add: temp_path_def)
  have lock: "wlock False (wfiles g (wlock True w)) = wfiles g w" for g
    using m by (simp add: wlock_def wfiles_def)
  show ?thesis
    unfolding writeEntityId_def Let_def p ens wlock_frame
    using m ex rd wr cp rm lock by (simp add: p)
qed

end
