(* ===== verification/Crud_Contract.thy ===== *)
theory Crud_Contract
  imports Crud_Store
begin

text \<open>
  The contract of the object store. \<open>abs_store\<close> reads the files of a data directory as a map from
  entity names to their counter and their objects; \<open>store_inv\<close> is the invariant under which
  that reading is meant. Each operation of \<open>CrudFileManager\<close> is shown to compute, on the files,
  what a one-line operation computes on the map.
\<close>

subsection \<open>The abstract store\<close>

record entity =
  counter :: "64 word"
  objects :: "string \<Rightarrow> string option"

type_synonym store = "string \<Rightarrow> entity option"

definition entity_objects :: "path \<Rightarrow> filesystem \<Rightarrow> string \<Rightarrow> string \<Rightarrow> string option" where
  "entity_objects D f n =
     (\<lambda>i. case node f (D @ [n, i]) of Some (Regular t) \<Rightarrow> Some t | _ \<Rightarrow> None)"

definition entity_counter :: "path \<Rightarrow> filesystem \<Rightarrow> string \<Rightarrow> 64 word" where
  "entity_counter D f n = (case id_at D f n of Some (Inr v) \<Rightarrow> v | _ \<Rightarrow> 0)"

definition abs_store :: "path \<Rightarrow> filesystem \<Rightarrow> store" where
  "abs_store D f = (\<lambda>n. if entity_ok n \<and> is_dir f (D @ [n])
     then Some \<lparr>counter = entity_counter D f n, objects = entity_objects D f n\<rparr> else None)"

text \<open>
  An entity without a directory has no counter line; an entity with one has a counter that is
  not the last 64-bit number, and every entry of its directory is a file whose name reads as a
  number up to the counter.
\<close>

definition entity_inv :: "path \<Rightarrow> filesystem \<Rightarrow> string \<Rightarrow> bool" where
  "entity_inv D f n \<longleftrightarrow>
     (if is_dir f (D @ [n]) then
        (\<exists>v. id_at D f n = Some (Inr v) \<and> v \<noteq> - 1 \<and>
          (\<forall>i x. node f (D @ [n, i]) = Some x \<longrightarrow>
             x \<noteq> Directory \<and> plain_name i \<and> (\<exists>k. stoull i = Inr k \<and> k \<le> v)))
      else node f (D @ [n]) = None \<and> id_at D f n = None)"

definition store_inv :: "string \<Rightarrow> path \<Rightarrow> filesystem \<Rightarrow> bool" where
  "store_inv dp D f \<longleftrightarrow> store_env dp D f \<and> (\<forall>n. entity_ok n \<longrightarrow> entity_inv D f n)"

definition lookup_object :: "string \<Rightarrow> string \<Rightarrow> store \<Rightarrow> string option" where
  "lookup_object n i S = Option.bind (S n) (\<lambda>e. objects e i)"

definition insert_object :: "string \<Rightarrow> string \<Rightarrow> 64 word \<Rightarrow> string \<Rightarrow> store \<Rightarrow> store" where
  "insert_object n i k t S =
     (let e = (case S n of None \<Rightarrow> \<lparr>counter = 1, objects = Map.empty\<rparr> | Some e \<Rightarrow> e)
      in S(n \<mapsto> \<lparr>counter = max (counter e) k, objects = (objects e)(i \<mapsto> t)\<rparr>))"

definition remove_object :: "string \<Rightarrow> string \<Rightarrow> store \<Rightarrow> store" where
  "remove_object n i S =
     (case S n of None \<Rightarrow> S | Some e \<Rightarrow> S(n \<mapsto> e\<lparr>objects := (objects e)(i := None)\<rparr>))"

definition next_id :: "string \<Rightarrow> store \<Rightarrow> string" where
  "next_id n S = (case S n of None \<Rightarrow> ''1'' | Some e \<Rightarrow> to_string_u64 (counter e + 1))"

lemma lookup_insert: "lookup_object m j (insert_object n i k t S)
    = (if m = n \<and> j = i then Some t else lookup_object m j S)"
  by (auto simp: lookup_object_def insert_object_def Let_def split: option.split)

lemma lookup_remove: "lookup_object m j (remove_object n i S)
    = (if m = n \<and> j = i then None else lookup_object m j S)"
  by (auto simp: lookup_object_def remove_object_def split: option.split)

subsection \<open>The invariant, opened\<close>

lemma store_inv_env: "store_inv dp D f \<Longrightarrow> store_env dp D f"
  by (simp add: store_inv_def)

lemma store_inv_entity: "store_inv dp D f \<Longrightarrow> entity_ok n \<Longrightarrow> entity_inv D f n"
  by (simp add: store_inv_def)

lemma entity_dirD:
  assumes "entity_inv D f n" and "is_dir f (D @ [n])"
  obtains v where "id_at D f n = Some (Inr v)" and "v \<noteq> - 1"
    and "\<And>i x. node f (D @ [n, i]) = Some x \<Longrightarrow>
           x \<noteq> Directory \<and> plain_name i \<and> (\<exists>k. stoull i = Inr k \<and> k \<le> v)"
  using assms unfolding entity_inv_def by (auto split: if_splits)

lemma entity_no_dirD:
  "entity_inv D f n \<Longrightarrow> \<not> is_dir f (D @ [n]) \<Longrightarrow> node f (D @ [n]) = None \<and> id_at D f n = None"
  by (simp add: entity_inv_def)

lemma id_at_max_exists: "id_at D f n \<noteq> None \<Longrightarrow> node f (D @ [max_name]) \<noteq> None"
  by (rule notI) (simp add: id_at_def max_text_def)

lemma touch_max_present: "node f (D @ [max_name]) \<noteq> None \<Longrightarrow> touch_max D f = f"
  by (cases "node f (D @ [max_name])") (simp_all add: touch_max_def)

lemma word_less_succ:
  assumes "v \<noteq> - 1"
  shows "v + 1 \<le> k \<longleftrightarrow> v < (k :: 64 word)"
proof (cases "unat v + 1 < 2 ^ 64")
  case True
  then have "unat (v + 1) = unat v + 1"
    using unat_add_lem [of v 1] by simp
  then show ?thesis by (simp add: word_le_nat_alt word_less_nat_alt Suc_le_eq)
next
  case False
  moreover have "unat v < 2 ^ 64" using unsigned_less [of v, where 'a = nat] by simp
  ultimately have u: "unat v = 2 ^ 64 - 1" by simp
  have "v = of_nat (unat v)" by simp
  also have "\<dots> = - 1" unfolding u by simp
  finally have "v = - 1" .
  with assms show ?thesis by simp
qed

lemma stoull_one [simp]: "stoull ''1'' = Inr 1"
  by (simp add: stoull_def scan_number_def strip_sign_def is_space_def is_digit_def byte_def
      digits_value_def digit_value_def Let_def)

subsection \<open>Recording an identifier\<close>

lemma id_at_rewritten_own:
  assumes "store_env dp D f" and "entity_ok n" and "id_at D f n = Some r"
  shows "id_at D (rewritten D f n k) n = Some (Inr k)"
proof -
  have "max_text D (rewritten D f n k) = unlines (rewrite_ids n k (words_of (max_text D f)))"
    using temp_max_distinct [OF assms(1)] by (simp add: max_text_def rewritten_node [OF assms(1)])
  then show ?thesis
    using assms(2,3) by (simp add: id_at_def words_of_rewritten entity_ok_def id_in_rewrite_own)
qed

lemma id_at_rewritten_other:
  assumes "store_env dp D f" and "entity_ok n" and "CHR '':'' \<notin> set m" and "m \<noteq> n"
  shows "id_at D (rewritten D f n k) m = id_at D f m"
proof -
  have "max_text D (rewritten D f n k) = unlines (rewrite_ids n k (words_of (max_text D f)))"
    using temp_max_distinct [OF assms(1)] by (simp add: max_text_def rewritten_node [OF assms(1)])
  then show ?thesis
    using assms by (simp add: id_at_def words_of_rewritten entity_ok_def id_in_rewrite_other)
qed

lemma record_id_effect:
  assumes env: "store_env dp D (files w)" and m: "\<not> entity_mutex w" and n: "entity_ok n"
    and p: "data_path p = dp" "entity_name p = n" and i: "entity_id p \<noteq> []" "stoull (entity_id p) = Inr k"
    and dir: "is_dir (files w) (D @ [n])" and v: "id_at D (files w) n = Some (Inr v)" "v \<noteq> - 1"
  shows "\<exists>w'. record_id p w = (Inr (), w')
      \<and> same_but_logs (wfiles (if v < k then rewritten D (files w) n k else files w) w) w'"
proof -
  have mx: "node (files w) (D @ [max_name]) \<noteq> None" using v(1) id_at_max_exists by fastforce
  from generateEntityId_effect [OF env m p] v(1) touch_max_present [OF mx]
  obtain w1 where g: "generateEntityId p w = (Inr (to_string_u64 (v + 1)), w1)"
    and same: "same_but_logs (wfiles (files w) w) w1" by auto
  have w1: "keeps w w1" "files w1 = files w" "\<not> entity_mutex w1" "interp w1 = interp w" "slept_ms w1 = slept_ms w"
    using same m by (simp_all add: same_but_logs_def)
  have wr: "writeEntityId p k w1 = (Inr True, wfiles (rewritten D (files w) n k) w1)"
    using writeEntityId_rewrite [of dp D w1 n p k] w1 env n p dir mx by simp
  show ?thesis
    using i g wr w1 word_less_succ [OF v(2), of k] m
    by (simp add: record_id_def same_but_logs_def)
qed

subsection \<open>Writing an object\<close>

text \<open>What \<open>new_entity\<close> leaves: a directory and a counter, the entity's own or 1.\<close>

text \<open>The counter file and the directory of a new entity.\<close>

lemma new_entity_ids:
  assumes n: "entity_ok n" and noid: "id_at D f n = None"
    and f2: "f2 = put_node (D @ [n]) Directory
      (put_node (D @ [max_name]) (Regular (max_text D f @ [CHR 0x0A] @ id_line n 1)) f)"
  shows "id_at D f2 n = Some (Inr 1)"
    and "\<forall>j. CHR '':'' \<notin> set j \<longrightarrow> j \<noteq> n \<longrightarrow> id_at D f2 j = id_at D f j"
proof -
  have nm: "n \<noteq> max_name" and nn: "no_space n" "CHR '':'' \<notin> set n"
    using n by (simp_all add: entity_ok_def)
  have txt2: "max_text D f2 = max_text D f @ [CHR 0x0A] @ id_line n 1"
    using nm by (simp add: max_text_def f2)
  have id: "id_at D f2 j = id_in j (words_of (max_text D f) @ [id_line n 1])" for j
    unfolding id_at_def txt2 words_of_appended [OF nn(1)] ..
  show "id_at D f2 n = Some (Inr 1)"
    unfolding id id_in_snoc_own using noid by (simp add: id_at_def)
  show "\<forall>j. CHR '':'' \<notin> set j \<longrightarrow> j \<noteq> n \<longrightarrow> id_at D f2 j = id_at D f j"
    unfolding id using id_in_snoc_other [OF nn(2)] by (simp add: id_at_def)
qed

text \<open>
  The files after an entity's directory was made sure of: its counter is in the counter file,
  and no other entry and no other counter has changed.
\<close>

definition entity_made :: "string \<Rightarrow> path \<Rightarrow> string \<Rightarrow> 64 word \<Rightarrow> filesystem \<Rightarrow> filesystem \<Rightarrow> bool" where
  "entity_made dp D n v f f' \<longleftrightarrow>
     store_env dp D f' \<and> id_at D f' n = Some (Inr v) \<and> v \<noteq> - 1 \<and>
     (\<forall>q. q \<noteq> D @ [max_name] \<longrightarrow> node f' q = ((node f)(D @ [n] \<mapsto> Directory)) q) \<and>
     (\<forall>j. CHR '':'' \<notin> set j \<longrightarrow> j \<noteq> n \<longrightarrow> id_at D f' j = id_at D f j) \<and>
     temp_path f' = temp_path f"

lemma new_entity_created:
  assumes env: "store_env dp D (files w)" and m: "\<not> entity_mutex w" and n: "entity_ok n"
    and p: "data_path p = dp" "entity_name p = n" and inv: "entity_inv D (files w) n"
    and False: "\<not> is_dir (files w) (D @ [n])"
  shows "\<exists>w' v. new_entity p w = (Inr (), w') \<and> same_but_logs (wfiles (files w') w) w'
      \<and> v = (case abs_store D (files w) n of None \<Rightarrow> 1 | Some e \<Rightarrow> counter e)
      \<and> entity_made dp D n v (files w) (files w')"
proof -
  let ?f = "files w"
  let ?f1 = "put_node (D @ [max_name]) (Regular (max_text D ?f @ [CHR 0x0A] @ id_line n 1)) ?f"
  let ?f2 = "put_node (D @ [n]) Directory ?f1"
  from entity_no_dirD [OF inv False]
  have none: "node ?f (D @ [n]) = None" and noid: "id_at D ?f n = None" by simp_all
  have nm: "n \<noteq> max_name" and nn: "no_space n" "CHR '':'' \<notin> set n" "plain_name n"
    using n by (simp_all add: entity_ok_def)
  define w1 where "w1 = wlog INFO (''directory '' @ entity_dir p @ '' missing, attempting to create'') w"
  have w1: "files w1 = ?f" "\<not> entity_mutex w1" using m by (simp_all add: w1_def)
  have wr: "writeEntityId p 1 w1 = (Inr True, wfiles ?f1 w1)"
    using writeEntityId_new [of dp D w1 n p 1] env w1 n p none by simp
  have env1: "store_env dp D ?f1"
    using store_env_put [OF env, of D max_name] store_envD [OF env] by blast
  have none1: "node ?f1 (D @ [n]) = None" using none nm by simp
  have env2: "store_env dp D ?f2"
    using store_env_put_dir [OF env1 n none1] .
  have cr: "create_directories ?f1 (entity_dir p) = (True, ?f2)"
    using create_directories_child [of dp ?f1 D n] store_envD [OF env1] nn none1 p
    by (simp add: entity_dir_def)
  have ex: "\<not> exists_path ?f (entity_dir p)"
    using store_exists_entity [OF env n] none p by (simp add: entity_dir_def)
  have new: "new_entity p w = (Inr (), wfiles ?f2 (wfiles ?f1 w1))"
    using ex wr cr by (simp add: new_entity_def w1_def Let_def)
  note own = new_entity_ids(1) [OF n noid refl] and other = new_entity_ids(2) [OF n noid refl]
  define w' where "w' = wfiles ?f2 (wfiles ?f1 w1)"
  have fw': "?f2 = files w'" by (simp add: w'_def)
  have new': "new_entity p w = (Inr (), w')" using new by (simp add: w'_def)
  have same: "same_but_logs (wfiles (files w') w) w'"
    by (simp add: same_but_logs_def w'_def w1_def)
  have one: "(1 :: 64 word) = (case abs_store D ?f n of None \<Rightarrow> 1 | Some e \<Rightarrow> counter e)"
    using False by (simp add: abs_store_def)
  have nodes: "\<forall>q. q \<noteq> D @ [max_name] \<longrightarrow> node ?f2 q = ((node ?f)(D @ [n] \<mapsto> Directory)) q"
    by simp
  have temp: "temp_path ?f2 = temp_path ?f" by (simp add: temp_path_def)
  have "entity_made dp D n 1 ?f ?f2"
    unfolding entity_made_def using env2 own nodes other temp by simp
  with new' same one show ?thesis
    unfolding fw' by (intro exI [of _ w'] exI [of _ 1] conjI)
qed

lemma new_entity_effect:
  assumes env: "store_env dp D (files w)" and m: "\<not> entity_mutex w" and n: "entity_ok n"
    and p: "data_path p = dp" "entity_name p = n" and inv: "entity_inv D (files w) n"
  shows "\<exists>w' v. new_entity p w = (Inr (), w') \<and> same_but_logs (wfiles (files w') w) w'
      \<and> v = (case abs_store D (files w) n of None \<Rightarrow> 1 | Some e \<Rightarrow> counter e)
      \<and> entity_made dp D n v (files w) (files w')"
proof (cases "is_dir (files w) (D @ [n])")
  case True
  obtain v where v: "id_at D (files w) n = Some (Inr v)" "v \<noteq> - 1"
    using inv True unfolding entity_inv_def by auto
  have "exists_path (files w) (entity_dir p)"
    using store_exists_entity [OF env n] True p by (simp add: entity_dir_def is_dir_def)
  then have new: "new_entity p w = (Inr (), w)" by (simp add: new_entity_def)
  have "entity_made dp D n v (files w) (files w)"
    unfolding entity_made_def using env v True by (simp add: is_dir_def)
  moreover have "v = (case abs_store D (files w) n of None \<Rightarrow> 1 | Some e \<Rightarrow> counter e)"
    using True n v by (simp add: abs_store_def entity_counter_def)
  ultimately show ?thesis
    using new by (intro exI [of _ w] exI [of _ v] conjI) (simp_all add: same_but_logs_def)
qed (rule new_entity_created [OF env m n p inv])

text \<open>Writing the file of an object whose entity has its directory.\<close>

lemma object_put:
  assumes env: "store_env dp D f" and n: "entity_ok n" and i: "plain_name i" and d: "is_dir f (D @ [n])"
    and obj: "node f (D @ [n, i]) \<noteq> Some Directory"
    and p: "data_path p = dp" "entity_name p = n" "entity_id p = i"
  shows "write_file f (object_file p) t = (True, put_node (D @ [n, i]) (Regular t) f)"
    and "store_env dp D (put_node (D @ [n, i]) (Regular t) f)"
    and "id_at D (put_node (D @ [n, i]) (Regular t) f) j = id_at D f j"
proof -
  have "locate f (object_file p) = Some (D @ [n, i])"
    using locate_object [OF env n i] d p by (simp add: object_file_def)
  then show "write_file f (object_file p) t = (True, put_node (D @ [n, i]) (Regular t) f)"
    using obj store_envD [OF env]
    by (auto simp: write_file_def write_with_def split: option.split fnode.split)
  show "store_env dp D (put_node (D @ [n, i]) (Regular t) f)"
    using store_env_put_child [OF env, of "[n]" i t] d obj by (simp add: is_dir_def)
  show "id_at D (put_node (D @ [n, i]) (Regular t) f) j = id_at D f j"
    by (simp add: id_at_def max_text_put_other)
qed

text \<open>
  \<open>writeObject\<close> as a whole: the object's file holds the text, the entity has its directory, its
  counter is at least the identifier, other entities keep their counters, and no other entry of
  the file system changes except the counter file and the temporary file.
\<close>

lemma writeObject_effect:
  assumes env: "store_env dp D (files w)" and m: "\<not> entity_mutex w" and n: "entity_ok n"
    and p: "data_path p = dp" "entity_name p = n" "entity_id p = i"
    and inv: "entity_inv D (files w) n"
    and i: "plain_name i" "stoull i = Inr k"
    and ndir: "node (files w) (D @ [n, i]) \<noteq> Some Directory"
    and v: "v = (case abs_store D (files w) n of None \<Rightarrow> 1 | Some e \<Rightarrow> counter e)"
  shows "\<exists>w'. writeObject p t w = (Inr True, w') \<and> same_but_logs (wfiles (files w') w) w'
      \<and> store_env dp D (files w') \<and> id_at D (files w') n = Some (Inr (max v k))
      \<and> (\<forall>q. q \<noteq> D @ [max_name] \<longrightarrow> q \<noteq> temp_path (files w) \<longrightarrow>
            node (files w') q = ((node (files w))(D @ [n] \<mapsto> Directory, D @ [n, i] \<mapsto> Regular t)) q)
      \<and> (\<forall>j. CHR '':'' \<notin> set j \<longrightarrow> j \<noteq> n \<longrightarrow> id_at D (files w') j = id_at D (files w) j)
      \<and> temp_path (files w') = temp_path (files w)
      \<and> (v < k \<longrightarrow> node (files w') (temp_path (files w)) = None)"
proof -
  let ?f = "files w"
  have nm: "n \<noteq> max_name" using n by (simp add: entity_ok_def)
  obtain w1 where w1: "new_entity p w = (Inr (), w1)" "same_but_logs (wfiles (files w1) w) w1"
      "store_env dp D (files w1)" "id_at D (files w1) n = Some (Inr v)" "v \<noteq> - 1"
      "temp_path (files w1) = temp_path ?f"
    and nodes1: "\<And>q. q \<noteq> D @ [max_name] \<Longrightarrow> node (files w1) q = ((node ?f)(D @ [n] \<mapsto> Directory)) q"
    and ids1: "\<And>j. CHR '':'' \<notin> set j \<Longrightarrow> j \<noteq> n \<Longrightarrow> id_at D (files w1) j = id_at D ?f j"
    using new_entity_effect [OF env m n p(1,2) inv] unfolding v entity_made_def by blast
  let ?f1 = "files w1"
  define w2 where "w2 = wlog INFO (''creating Entity '' @ entity_name p @ '' at path '' @ object_file p) w1"
  have f2: "files w2 = ?f1" and m2: "\<not> entity_mutex w2"
    using w1(2) m by (simp_all add: w2_def same_but_logs_def)
  have dir1: "is_dir ?f1 (D @ [n])"
    using nodes1 [of "D @ [n]"] nm by (simp add: is_dir_def)
  define f3 where "f3 = (if v < k then rewritten D ?f1 n k else ?f1)"
  have "i \<noteq> []" using i(1) by (simp add: plain_name_def)
  then obtain w3 where w3: "record_id p w2 = (Inr (), w3)" "same_but_logs (wfiles f3 w2) w3"
    using record_id_effect [of dp D w2 n p k v] w1(3-5) f2 m2 n p i dir1 unfolding f3_def f2 by auto
  have fw3: "files w3 = f3" using w3(2) by (simp add: same_but_logs_def)
  have env3: "store_env dp D f3"
    using w1(3) rewritten_env [OF w1(3)] by (simp add: f3_def)
  have id3: "id_at D f3 n = Some (Inr (max v k))"
    using w1(3,4) id_at_rewritten_own [OF w1(3) n w1(4)] by (auto simp: f3_def max_def)
  have ids3: "id_at D f3 j = id_at D ?f j" if "CHR '':'' \<notin> set j" "j \<noteq> n" for j
    using id_at_rewritten_other [OF w1(3) n that] ids1 [OF that] by (simp add: f3_def)
  note temp1 = w1(6)
  have nodes3: "node f3 q = ((node ?f)(D @ [n] \<mapsto> Directory)) q"
    if "q \<noteq> D @ [max_name]" "q \<noteq> temp_path ?f" for q
  proof -
    have "node f3 q = node ?f1 q" using that temp1 by (simp add: f3_def rewritten_node [OF w1(3)])
    then show ?thesis unfolding nodes1 [OF that(1)] .
  qed
  have dir3: "is_dir f3 (D @ [n])"
    using nodes3 [of "D @ [n]"] nm temp_outside [OF env, of "[n]"] by (simp add: is_dir_def)
  have obj3: "node f3 (D @ [n, i]) \<noteq> Some Directory"
    using nodes3 [of "D @ [n, i]"] ndir temp_outside [OF env, of "[n, i]"] by simp
  let ?f4 = "put_node (D @ [n, i]) (Regular t) f3"
  note put = object_put [OF env3 n i(1) dir3 obj3 p]
  have temp4: "temp_path ?f4 = temp_path ?f"
    using temp1 by (simp add: f3_def rewritten_def temp_path_def)
  have wo: "writeObject p t w = (Inr True, wlog INFO ''file creation success'' (wfiles ?f4 w3))"
    using w1(1) w3(1) put(1) fw3 by (simp add: writeObject_def w2_def Let_def)
  define w' where "w' = wlog INFO ''file creation success'' (wfiles ?f4 w3)"
  have fw': "?f4 = files w'" by (simp add: w'_def)
  have same: "same_but_logs (wfiles (files w') w) w'"
  proof -
    have "keeps w w2" using w1(2) by (simp add: same_but_logs_def w2_def)
    moreover have "keeps w2 w3" using w3(2) by (simp add: same_but_logs_def)
    ultimately have "keeps w w3" by (rule keeps_trans)
    then show ?thesis using w1(2) w3(2) by (simp add: same_but_logs_def w2_def w'_def)
  qed
  have nodes: "\<forall>q. q \<noteq> D @ [max_name] \<longrightarrow> q \<noteq> temp_path ?f \<longrightarrow>
      node ?f4 q = ((node ?f)(D @ [n] \<mapsto> Directory, D @ [n, i] \<mapsto> Regular t)) q"
    using nodes3 by simp
  have own: "id_at D ?f4 n = Some (Inr (max v k))" using put(3) id3 by simp
  have others: "\<forall>j. CHR '':'' \<notin> set j \<longrightarrow> j \<noteq> n \<longrightarrow> id_at D ?f4 j = id_at D ?f j"
    using put(3) ids3 by simp
  have gone: "v < k \<longrightarrow> node ?f4 (temp_path ?f) = None"
    using temp1 temp_outside [OF env, of "[n, i]"] by (simp add: f3_def rewritten_node [OF w1(3)])
  from wo same nodes own others put(2) [of t] temp4 gone show ?thesis
    unfolding w'_def [symmetric] unfolding fw' by (intro exI [of _ w'] conjI)
qed

subsection \<open>The invariant is kept, and the map is what the files say\<close>

lemma entity_dir_distinct: "m \<noteq> max_name \<Longrightarrow> store_env dp D f \<Longrightarrow>
    D @ [m] \<noteq> D @ [max_name] \<and> D @ [m] \<noteq> temp_path f \<and> D @ [m, i] \<noteq> D @ [max_name] \<and> D @ [m, i] \<noteq> temp_path f"
  using temp_outside(1) [of dp D f "[m]"] temp_outside(1) [of dp D f "[m, i]"] by simp

lemma entity_inv_cong:
  assumes "is_dir f' (D @ [m]) = is_dir f (D @ [m])" and "node f (D @ [m]) = None \<Longrightarrow> node f' (D @ [m]) = None"
    and "\<And>i. node f' (D @ [m, i]) = node f (D @ [m, i])" and "id_at D f' m = id_at D f m"
    and "entity_inv D f m"
  shows "entity_inv D f' m"
  using assms by (simp add: entity_inv_def)

lemma abs_store_cong:
  assumes "is_dir f' (D @ [m]) = is_dir f (D @ [m])"
    and "\<And>i. node f' (D @ [m, i]) = node f (D @ [m, i])" and "id_at D f' m = id_at D f m"
  shows "abs_store D f' m = abs_store D f m"
  using assms by (simp add: abs_store_def entity_counter_def entity_objects_def)

lemma stored_not_directory: "entity_inv D f n \<Longrightarrow> is_dir f (D @ [n]) \<Longrightarrow> node f (D @ [n, i]) \<noteq> Some Directory"
  unfolding entity_inv_def by auto

lemma inv_not_directory:
  assumes "store_inv dp D f" and "entity_ok n"
  shows "node f (D @ [n, i]) \<noteq> Some Directory"
proof (cases "is_dir f (D @ [n])")
  case True
  with stored_not_directory store_inv_entity [OF assms] show ?thesis by blast
next
  case False
  have "fs_tree f" using store_inv_env [OF assms(1)] by (rule store_envD)
  then have "node f ((D @ [n]) @ [i]) = None" using False unfolding fs_tree_def by blast
  then show ?thesis by simp
qed

text \<open>The effect of a write, as a relation between the files before and after.\<close>

definition counter_or_1 :: "string \<Rightarrow> store \<Rightarrow> 64 word" where
  "counter_or_1 n S = (case S n of None \<Rightarrow> 1 | Some e \<Rightarrow> counter e)"

definition wrote ::
  "string \<Rightarrow> path \<Rightarrow> string \<Rightarrow> string \<Rightarrow> 64 word \<Rightarrow> string \<Rightarrow> filesystem \<Rightarrow> filesystem \<Rightarrow> bool" where
  "wrote dp D n i k t f f' \<longleftrightarrow>
     store_env dp D f' \<and> id_at D f' n = Some (Inr (max (counter_or_1 n (abs_store D f)) k)) \<and>
     (\<forall>q. q \<noteq> D @ [max_name] \<longrightarrow> q \<noteq> temp_path f \<longrightarrow>
        node f' q = ((node f)(D @ [n] \<mapsto> Directory, D @ [n, i] \<mapsto> Regular t)) q) \<and>
     (\<forall>j. CHR '':'' \<notin> set j \<longrightarrow> j \<noteq> n \<longrightarrow> id_at D f' j = id_at D f j) \<and>
     temp_path f' = temp_path f \<and>
     (counter_or_1 n (abs_store D f) < k \<longrightarrow> node f' (temp_path f) = None)"

lemma writeObject_wrote:
  assumes inv: "store_inv dp D (files w)" and "\<not> entity_mutex w" and n: "entity_ok n"
    and "data_path p = dp" "entity_name p = n" "entity_id p = i"
    and "plain_name i" "stoull i = Inr k"
  shows "\<exists>w'. writeObject p t w = (Inr True, w') \<and> same_but_logs (wfiles (files w') w) w'
      \<and> wrote dp D n i k t (files w) (files w')"
  using writeObject_effect [OF store_inv_env [OF inv] assms(2) n assms(4-6) store_inv_entity [OF inv n]
      assms(7,8) inv_not_directory [OF inv n] refl, of t]
  unfolding wrote_def counter_or_1_def by blast

lemma wrote_nodes:
  assumes "wrote dp D n i k t f f'" and "store_inv dp D f" and "entity_ok m"
  shows "node f' (D @ [m]) = (if m = n then Some Directory else node f (D @ [m]))"
    and "node f' (D @ [m, j]) = (if m = n \<and> j = i then Some (Regular t) else node f (D @ [m, j]))"
proof -
  have "D @ [m] \<noteq> D @ [max_name] \<and> D @ [m] \<noteq> temp_path f \<and> D @ [m, j] \<noteq> D @ [max_name] \<and> D @ [m, j] \<noteq> temp_path f"
    using assms(3) entity_dir_distinct [OF _ store_inv_env [OF assms(2)], of m j]
    by (simp add: entity_ok_def)
  moreover from assms(1) have nodes: "\<And>q. q \<noteq> D @ [max_name] \<Longrightarrow> q \<noteq> temp_path f \<Longrightarrow>
        node f' q = ((node f)(D @ [n] \<mapsto> Directory, D @ [n, i] \<mapsto> Regular t)) q"
    unfolding wrote_def by blast
  ultimately show "node f' (D @ [m]) = (if m = n then Some Directory else node f (D @ [m]))"
    and "node f' (D @ [m, j]) = (if m = n \<and> j = i then Some (Regular t) else node f (D @ [m, j]))"
    using nodes [of "D @ [m]"] nodes [of "D @ [m, j]"] by simp_all
qed

lemma wrote_id:
  assumes "wrote dp D n i k t f f'" and "entity_ok m"
  shows "id_at D f' m = (if m = n then Some (Inr (max (counter_or_1 n (abs_store D f)) k)) else id_at D f m)"
  using assms unfolding wrote_def entity_ok_def by simp

lemma abs_store_Some:
  assumes "store_inv dp D f" and "abs_store D f n = Some e"
  shows "entity_ok n" "is_dir f (D @ [n])" "id_at D f n = Some (Inr (counter e))" "counter e \<noteq> - 1"
    "objects e = entity_objects D f n"
    "node f (D @ [n, i]) = Some x \<Longrightarrow> x \<noteq> Directory \<and> plain_name i \<and> (\<exists>k. stoull i = Inr k \<and> k \<le> counter e)"
proof -
  from assms(2) show n: "entity_ok n" and d: "is_dir f (D @ [n])"
    and "objects e = entity_objects D f n"
    by (auto simp: abs_store_def split: if_splits)
  from n d assms(2) have c: "counter e = entity_counter D f n"
    by (auto simp: abs_store_def)
  have inv: "entity_inv D f n" using store_inv_entity [OF assms(1) n] .
  then obtain v where "id_at D f n = Some (Inr v)" "v \<noteq> - 1"
    and "\<forall>i x. node f (D @ [n, i]) = Some x \<longrightarrow>
             x \<noteq> Directory \<and> plain_name i \<and> (\<exists>k. stoull i = Inr k \<and> k \<le> v)"
    unfolding entity_inv_def using d by auto
  moreover from this(1) have "counter e = v" by (simp add: c entity_counter_def)
  ultimately show "id_at D f n = Some (Inr (counter e))" "counter e \<noteq> - 1"
    "node f (D @ [n, i]) = Some x \<Longrightarrow> x \<noteq> Directory \<and> plain_name i \<and> (\<exists>k. stoull i = Inr k \<and> k \<le> counter e)"
    by simp_all
qed

lemma abs_store_None:
  assumes "store_inv dp D f" and "entity_ok n" and "abs_store D f n = None"
  shows "\<not> is_dir f (D @ [n])" "node f (D @ [n]) = None" "id_at D f n = None" "node f (D @ [n, i]) = None"
proof -
  from assms(2,3) show d: "\<not> is_dir f (D @ [n])" by (simp add: abs_store_def split: if_splits)
  from entity_no_dirD [OF store_inv_entity [OF assms(1,2)] d]
  show "node f (D @ [n]) = None" "id_at D f n = None" by simp_all
  have "fs_tree f" using store_inv_env [OF assms(1)] by (rule store_envD)
  then have "node f ((D @ [n]) @ [i]) = None" using d unfolding fs_tree_def by blast
  then show "node f (D @ [n, i]) = None" by simp
qed

lemma counter_or_1_not_max: "store_inv dp D f \<Longrightarrow> counter_or_1 n (abs_store D f) \<noteq> - 1"
  using abs_store_Some(4) [of dp D f n] by (auto simp: counter_or_1_def split: option.split)

lemma wrote_inv:
  assumes wr: "wrote dp D n i k t f f'" and inv: "store_inv dp D f" and n: "entity_ok n"
    and i: "plain_name i" "stoull i = Inr k" and k: "k \<noteq> - 1"
  shows "store_inv dp D f'"
  unfolding store_inv_def
proof (intro conjI allI impI)
  show "store_env dp D f'" using wr by (simp add: wrote_def)
  fix m assume m: "entity_ok m"
  note nodes = wrote_nodes [OF wr inv m] and id = wrote_id [OF wr m]
  show "entity_inv D f' m"
  proof (cases "m = n")
    case False
    then show ?thesis
      using store_inv_entity [OF inv m] nodes id by (intro entity_inv_cong [of f' D m f]) (simp_all add: is_dir_def)
  next
    case True
    define v where "v = counter_or_1 n (abs_store D f)"
    have v: "v \<noteq> - 1" using counter_or_1_not_max [OF inv] by (simp add: v_def)
    have old: "x \<noteq> Directory \<and> plain_name j \<and> (\<exists>k. stoull j = Inr k \<and> k \<le> v)"
      if "node f (D @ [n, j]) = Some x" for j x
    proof (cases "abs_store D f n")
      case None
      with abs_store_None(4) [OF inv n] that show ?thesis by simp
    next
      case (Some e)
      with abs_store_Some(6) [OF inv Some that] show ?thesis by (simp add: v_def counter_or_1_def)
    qed
    have "x \<noteq> Directory \<and> plain_name j \<and> (\<exists>k'. stoull j = Inr k' \<and> k' \<le> max v k)"
      if "node f' (D @ [m, j]) = Some x" for j x
    proof (cases "j = i")
      case True
      with that nodes(2) [of i] \<open>m = n\<close> i show ?thesis by simp
    next
      case False
      with that nodes(2) [of j] \<open>m = n\<close> old [of j x] show ?thesis by (auto simp: le_max_iff_disj)
    qed
    moreover have "max v k \<noteq> - 1" using v k by (simp add: max_def)
    moreover have "id_at D f' m = Some (Inr (max v k))" using id True by (simp add: v_def)
    moreover have "is_dir f' (D @ [m])" using nodes(1) True by (simp add: is_dir_def)
    ultimately show ?thesis unfolding entity_inv_def by auto
  qed
qed

lemma wrote_abs:
  assumes wr: "wrote dp D n i k t f f'" and inv: "store_inv dp D f" and n: "entity_ok n"
  shows "abs_store D f' = insert_object n i k t (abs_store D f)"
proof
  fix m
  show "abs_store D f' m = insert_object n i k t (abs_store D f) m"
  proof (cases "m = n \<or> \<not> entity_ok m")
    case False
    then have m: "entity_ok m" and mn: "m \<noteq> n" by simp_all
    have "abs_store D f' m = abs_store D f m"
      using wrote_nodes [OF wr inv m] wrote_id [OF wr m] mn
      by (intro abs_store_cong) (simp_all add: is_dir_def)
    with mn show ?thesis by (simp add: insert_object_def Let_def)
  next
    case True
    show ?thesis
    proof (cases "m = n")
      case False
      with True have "\<not> entity_ok m" by simp
      then show ?thesis using False by (simp add: insert_object_def Let_def abs_store_def)
    next
      case mn: True
      note nodes = wrote_nodes [OF wr inv n] and id = wrote_id [OF wr n]
      have d: "is_dir f' (D @ [n])" using nodes(1) by (simp add: is_dir_def)
      have objs: "entity_objects D f' n = (entity_objects D f n)(i \<mapsto> t)"
        using nodes(2) by (auto simp: entity_objects_def fun_eq_iff)
      have cnt: "entity_counter D f' n = max (counter_or_1 n (abs_store D f)) k"
        using id by (simp add: entity_counter_def)
      have none: "entity_objects D f n = Map.empty" if "abs_store D f n = None"
        using abs_store_None(4) [OF inv n that] by (auto simp: entity_objects_def fun_eq_iff)
      have new: "abs_store D f' n = Some \<lparr>counter = max (counter_or_1 n (abs_store D f)) k,
          objects = (entity_objects D f n)(i \<mapsto> t)\<rparr>"
        using n d by (simp add: abs_store_def objs cnt)
      show ?thesis
      proof (cases "abs_store D f n")
        case None
        with new none [OF None] mn show ?thesis by (simp add: insert_object_def counter_or_1_def)
      next
        case (Some e)
        with new mn abs_store_Some(5) [OF inv Some] show ?thesis
          by (simp add: insert_object_def counter_or_1_def)
      qed
    qed
  qed
qed

subsection \<open>The other operations\<close>

lemma object_located:
  assumes "store_inv dp D f" and "entity_ok n" and "plain_name i"
    and "data_path p = dp" "entity_name p = n" "entity_id p = i"
  shows "locate f (object_file p) = (if is_dir f (D @ [n]) then Some (D @ [n, i]) else None)"
  using locate_object [OF store_inv_env [OF assms(1)] assms(2,3)] assms(4-6)
  by (simp add: object_file_def)

lemma lookup_node:
  assumes "store_inv dp D f" and "entity_ok n"
  shows "lookup_object n i (abs_store D f) =
    (if is_dir f (D @ [n]) then map_option node_text (node f (D @ [n, i])) else None)"
proof (cases "node f (D @ [n, i])")
  case None
  then show ?thesis
    using assms(2) by (simp add: lookup_object_def abs_store_def entity_objects_def)
next
  case (Some x)
  with inv_not_directory [OF assms] show ?thesis
    using assms(2) by (cases x) (simp_all add: lookup_object_def abs_store_def entity_objects_def)
qed

lemma read_refines:
  assumes "store_inv dp D (files w)" and "entity_ok n" and "plain_name i"
    and "data_path p = dp" "entity_name p = n" "entity_id p = i"
  shows "fst (readObject p w) = lookup_object n i (abs_store D (files w))"
    and "same_but_logs w (snd (readObject p w))"
  using object_located [OF assms] lookup_node [OF assms(1,2), of i] store_envD(6) [OF store_inv_env [OF assms(1)]]
  by (auto simp: readObject_def open_read_def split: option.split)

lemma exists_refines:
  assumes "store_inv dp D (files w)" and "entity_ok n" and "plain_name i"
    and "data_path p = dp" "entity_name p = n" "entity_id p = i"
  shows "existsObject p w \<longleftrightarrow> lookup_object n i (abs_store D (files w)) \<noteq> None"
  using object_located [OF assms] lookup_node [OF assms(1,2), of i]
  by (auto simp: existsObject_def exists_path_def split: option.split)

text \<open>Deleting an object removes its file and nothing else.\<close>

lemma delete_effect:
  assumes inv: "store_inv dp D (files w)" and n: "entity_ok n" and i: "plain_name i"
    and p: "data_path p = dp" "entity_name p = n" "entity_id p = i"
    and x: "is_dir (files w) (D @ [n])" "node (files w) (D @ [n, i]) = Some (Regular t)"
  shows "deleteObject p w = (True, wfiles (del_node (D @ [n, i]) (files w)) w)"
proof -
  let ?f = "files w" and ?q = "D @ [n, i]"
  note env = store_inv_env [OF inv]
  have loc: "locate ?f (object_file p) = Some ?q"
    using object_located [OF inv n i p] x by simp
  have "\<not> (\<exists>q \<in> set (map fst (nodes ?f)). strict_prefix ?q q)"
  proof
    assume "\<exists>q \<in> set (map fst (nodes ?f)). strict_prefix ?q q"
    then obtain q where k: "q \<in> set (map fst (nodes ?f))" and q: "strict_prefix ?q q" by blast
    from fs_tree_prefix [OF store_envD(5) [OF env] k [unfolded node_keys] q] x
    show False by (simp add: is_dir_def)
  qed
  then have rm: "remove_path ?f (object_file p) = (Inr True, del_node ?q ?f)"
    using loc x store_envD(7) [OF env] by (simp add: remove_path_def)
  have "existsObject p w" using loc x by (simp add: existsObject_def exists_path_def)
  with rm show ?thesis by (simp add: deleteObject_def)
qed

lemma deleted_inv:
  assumes inv: "store_inv dp D f" and n: "entity_ok n" and x: "node f (D @ [n, i]) = Some (Regular t)"
  shows "store_inv dp D (del_node (D @ [n, i]) f)"
    and "abs_store D (del_node (D @ [n, i]) f) = remove_object n i (abs_store D f)"
proof -
  let ?q = "D @ [n, i]"
  let ?f = "del_node ?q f"
  have env: "store_env dp D ?f"
    using store_env_del [OF store_inv_env [OF inv], of ?q] x by (simp add: is_dir_def)
  have id: "id_at D ?f m = id_at D f m" for m by (simp add: id_at_def max_text_def)
  have dirs: "is_dir ?f (D @ [m]) = is_dir f (D @ [m])" for m by (simp add: is_dir_del)
  have "entity_inv D ?f m" if "entity_ok m" for m
    using store_inv_entity [OF inv that] unfolding entity_inv_def id dirs
    by (simp split: if_splits) metis
  with env show "store_inv dp D ?f" by (simp add: store_inv_def)
  show "abs_store D ?f = remove_object n i (abs_store D f)"
  proof
    fix m
    have objs: "entity_objects D ?f j = (if j = n then (entity_objects D f j)(i := None) else entity_objects D f j)" for j
      by (auto simp: entity_objects_def fun_eq_iff)
    show "abs_store D ?f m = remove_object n i (abs_store D f) m"
      unfolding remove_object_def
      by (cases "entity_ok n \<and> is_dir f (D @ [n])")
        (auto simp: abs_store_def dirs id objs entity_counter_def)
  qed
qed

lemma remove_absent: "lookup_object n i S = None \<Longrightarrow> remove_object n i S = S"
  by (auto simp: lookup_object_def remove_object_def fun_eq_iff split: option.split)

lemma delete_refines:
  assumes inv: "store_inv dp D (files w)" and n: "entity_ok n" and i: "plain_name i"
    and p: "data_path p = dp" "entity_name p = n" "entity_id p = i"
  shows "\<exists>w'. deleteObject p w = (lookup_object n i (abs_store D (files w)) \<noteq> None, w')
      \<and> same_but_logs (wfiles (files w') w) w' \<and> store_inv dp D (files w')
      \<and> abs_store D (files w') = remove_object n i (abs_store D (files w))"
proof (cases "lookup_object n i (abs_store D (files w))")
  case None
  then have "\<not> existsObject p w" using exists_refines [OF assms] by simp
  then show ?thesis
    using None inv by (simp add: deleteObject_def remove_absent same_but_logs_def)
next
  case (Some s)
  with lookup_node [OF inv n, of i] inv_not_directory [OF inv n, of i]
  obtain t where d: "is_dir (files w) (D @ [n])" and t: "node (files w) (D @ [n, i]) = Some (Regular t)"
    by (cases "node (files w) (D @ [n, i])"; cases "the (node (files w) (D @ [n, i]))")
      (auto split: if_splits)
  show ?thesis
    using delete_effect [OF assms d t] deleted_inv [OF inv n t] Some by (simp add: same_but_logs_def)
qed

lemma generate_refines:
  assumes inv: "store_inv dp D (files w)" and m: "\<not> entity_mutex w" and n: "entity_ok n"
    and p: "data_path p = dp" "entity_name p = n"
  shows "\<exists>w'. generateEntityId p w = (Inr (next_id n (abs_store D (files w))), w')
      \<and> same_but_logs (wfiles (files w') w) w' \<and> store_inv dp D (files w')
      \<and> abs_store D (files w') = abs_store D (files w)"
proof -
  let ?f = "files w"
  note env = store_inv_env [OF inv]
  obtain w' where g: "generateEntityId p w =
      (case id_at D ?f n of None \<Rightarrow> Inr ''1'' | Some r \<Rightarrow> bind_result r (\<lambda>v. Inr (to_string_u64 (v + 1))), w')"
    and same: "same_but_logs (wfiles (touch_max D ?f) w) w'"
    using generateEntityId_effect [OF env m p] by blast
  have f': "files w' = touch_max D ?f" using same by (simp add: same_but_logs_def)
  have r: "fst (generateEntityId p w) = Inr (next_id n (abs_store D ?f))"
  proof (cases "abs_store D ?f n")
    case None
    with abs_store_None(3) [OF inv n] g show ?thesis by (simp add: next_id_def)
  next
    case (Some e)
    with abs_store_Some(3) [OF inv Some] g show ?thesis by (simp add: next_id_def)
  qed
  have dirs: "is_dir (touch_max D ?f) q = is_dir ?f q" for q
    using touch_max_is_dir store_envD(10) [OF env] by blast
  have id: "id_at D (touch_max D ?f) j = id_at D ?f j" for j by (simp add: id_at_def)
  have nodes: "node (touch_max D ?f) (D @ [j, k]) = node ?f (D @ [j, k])" for j k
    by (simp add: touch_max_node)
  have "entity_inv D (touch_max D ?f) j" if "entity_ok j" for j
    by (rule entity_inv_cong [OF dirs _ nodes id store_inv_entity [OF inv that]])
      (use that in \<open>simp add: touch_max_node entity_ok_def\<close>)
  then have "store_inv dp D (files w')" using touch_max_env [OF env] f' by (simp add: store_inv_def)
  moreover have "abs_store D (files w') = abs_store D ?f"
    unfolding f' by (rule ext, rule abs_store_cong [OF dirs nodes id])
  moreover have "same_but_logs (wfiles (files w') w) w'" using same f' by simp
  moreover have "generateEntityId p w = (Inr (next_id n (abs_store D ?f)), w')"
    using g r by (simp add: prod_eq_iff)
  ultimately show ?thesis by blast
qed

text \<open>A listing is the sorted list of the identifiers that have an object.\<close>

lemma list_refines:
  assumes inv: "store_inv dp D (files w)" and n: "entity_ok n"
    and p: "data_path p = dp" "entity_name p = n"
  shows "same_but_logs w (snd (listObjects p w))" and "sorted (fst (listObjects p w))"
    and "distinct (fst (listObjects p w))"
    and "set (fst (listObjects p w)) = {i. lookup_object n i (abs_store D (files w)) \<noteq> None}"
proof -
  let ?f = "files w" and ?d = "D @ [n]" and ?s = "dp @ ''/'' @ n @ ''/''"
  note env = store_inv_env [OF inv]
  have "locate ?f (dp @ ''/'' @ n) = Some ?d" using locate_entity [OF env n] .
  then have loc: "locate ?f ?s = (if is_dir ?f ?d then Some ?d else None)"
    using locate_append [of "dp @ ''/'' @ n" ?f "[]"] by (simp add: split_slash_def)
  let ?regular = "\<lambda>q. case node ?f q of Some (Regular c) \<Rightarrow> True | _ \<Rightarrow> False"
  define ps where "ps = filter (\<lambda>q. q \<noteq> [] \<and> butlast q = ?d \<and> ?regular q) (remdups (map fst (nodes ?f)))"
  have l: "list_directory ?f ?s = (if is_dir ?f ?d then Some (map last ps) else None)"
    unfolding list_directory_def loc ps_def using store_envD(6) [OF env] by simp
  have shape: "q = ?d @ [last q]" if "q \<in> set ps" for q
    using that append_butlast_last_id [of q] by (auto simp: ps_def)
  have "inj_on last (set ps)"
    by (rule inj_onI) (metis shape)
  then have d: "distinct (map last ps)" by (simp add: distinct_map ps_def)
  have sp: "set (map last ps) = {i. ?regular (?d @ [i])}"
  proof
    show "set (map last ps) \<subseteq> {i. ?regular (?d @ [i])}"
    proof
      fix i assume "i \<in> set (map last ps)"
      then obtain q where q: "q \<in> set ps" "i = last q" by auto
      then have "q = ?d @ [i]" using shape by simp
      moreover have "?regular q" using q(1) by (simp add: ps_def)
      ultimately show "i \<in> {i. ?regular (?d @ [i])}" by simp
    qed
    show "{i. ?regular (?d @ [i])} \<subseteq> set (map last ps)"
    proof
      fix i assume "i \<in> {i. ?regular (?d @ [i])}"
      then have r: "?regular (?d @ [i])" by simp
      then have "?d @ [i] \<in> set (map fst (nodes ?f))" unfolding node_keys by (auto split: option.splits)
      with r have "?d @ [i] \<in> set ps" by (simp add: ps_def butlast_append)
      then show "i \<in> set (map last ps)" by force
    qed
  qed
  have look: "lookup_object n i (abs_store D ?f) \<noteq> None \<longleftrightarrow> is_dir ?f ?d \<and> ?regular (?d @ [i])" for i
    using n by (simp add: lookup_object_def abs_store_def entity_objects_def split: option.split fnode.split)
  show "same_but_logs w (snd (listObjects p w))" "sorted (fst (listObjects p w))"
    "distinct (fst (listObjects p w))"
    "set (fst (listObjects p w)) = {i. lookup_object n i (abs_store D ?f) \<noteq> None}"
    using d sp l unfolding listObjects_def p look by (simp_all add: Let_def)
qed

subsection \<open>Fresh identifiers\<close>

lemma stored_id_below:
  assumes "store_inv dp D f" and "lookup_object n i (abs_store D f) \<noteq> None"
  obtains e k where "abs_store D f n = Some e" "stoull i = Inr k" "k \<le> counter e"
proof -
  from assms(2) obtain e where e: "abs_store D f n = Some e" and o: "objects e i \<noteq> None"
    by (auto simp: lookup_object_def bind_eq_Some_conv)
  from o abs_store_Some(5) [OF assms(1) e] have "node f (D @ [n, i]) \<noteq> None"
    by (cases "node f (D @ [n, i])") (auto simp: entity_objects_def)
  then obtain x where "node f (D @ [n, i]) = Some x" by blast
  from abs_store_Some(6) [OF assms(1) e this] that e show ?thesis by blast
qed

lemma next_id_number: "stoull (next_id n S) = Inr (case S n of None \<Rightarrow> 1 | Some e \<Rightarrow> counter e + 1)"
  by (simp add: next_id_def split: option.split)

lemma next_id_fresh:
  assumes inv: "store_inv dp D f"
  shows "lookup_object n (next_id n (abs_store D f)) (abs_store D f) = None"
proof (rule ccontr)
  assume "lookup_object n (next_id n (abs_store D f)) (abs_store D f) \<noteq> None"
  then obtain e k where e: "abs_store D f n = Some e"
    and k: "stoull (next_id n (abs_store D f)) = Inr k" "k \<le> counter e"
    using stored_id_below [OF inv] by blast
  from k(1) e have "k = counter e + 1" by (simp add: next_id_number)
  with k(2) have "counter e + 1 \<le> counter e" by simp
  with word_less_succ [OF abs_store_Some(4) [OF inv e], of "counter e"] show False by simp
qed

lemma next_id_plain: "plain_name (next_id n S)"
proof -
  have "plain_name (to_string_u64 v)" for v
  proof -
    have digit: "is_digit c \<Longrightarrow> c \<noteq> CHR ''.'' \<and> c \<noteq> CHR ''/''" for c
      by (auto simp: is_digit_def byte_def)
    have "CHR ''/'' \<notin> set (to_string_u64 v)" "CHR ''.'' \<notin> set (to_string_u64 v)"
      using to_string_u64_digits [of _ v] digit by blast+
    then show ?thesis by (auto simp: plain_name_def)
  qed
  from this [of "counter _ + 1"] show ?thesis
    by (auto simp: next_id_def split: option.split) (simp add: plain_name_def)
qed

lemma next_id_write:
  assumes "\<And>e. S n = Some e \<Longrightarrow> counter e \<noteq> - 1" and "stoull (next_id n S) = Inr k"
  shows "counter_or_1 n (insert_object n i k t S) = k"
proof (cases "S n")
  case None
  with assms(2) show ?thesis by (simp add: counter_or_1_def insert_object_def next_id_def)
next
  case (Some e)
  with assms(2) have k: "k = counter e + 1" by (simp add: next_id_def)
  have "counter e < k" using word_less_succ [OF assms(1) [OF Some], of k] k by simp
  with Some k show ?thesis by (simp add: counter_or_1_def insert_object_def max_def)
qed

end
