(* ===== verification/Crud_Handler.thy ===== *)
theory Crud_Handler
  imports Crud_Contract Request_Dispatcher
begin

text \<open>
  The CRUD handler: \<open>crud_handler.h\<close> and \<open>crud_handler.cc\<close>. The handler holds a pointer to a
  \<open>CrudFileManager\<close> whose operations are virtual, so it is modelled over a record of them, and
  the locale \<open>object_store\<close> is the contract it relies on: a map from entity names to counters and
  objects. \<open>CrudFileManager\<close> itself is shown to be such a store.
\<close>

subsection \<open>The file manager as a record of operations\<close>

record file_manager =
  fm_read :: "crud_path \<Rightarrow> world \<Rightarrow> string option \<times> world"
  fm_write :: "crud_path \<Rightarrow> string \<Rightarrow> world \<Rightarrow> bool result \<times> world"
  fm_delete :: "crud_path \<Rightarrow> world \<Rightarrow> bool \<times> world"
  fm_exists :: "crud_path \<Rightarrow> world \<Rightarrow> bool"
  fm_list :: "crud_path \<Rightarrow> world \<Rightarrow> string list \<times> world"
  fm_generate :: "crud_path \<Rightarrow> world \<Rightarrow> string result \<times> world"

definition CrudFileManager :: file_manager where
  "CrudFileManager = \<lparr>fm_read = readObject, fm_write = writeObject, fm_delete = deleteObject,
     fm_exists = existsObject, fm_list = listObjects, fm_generate = generateEntityId\<rparr>"

subsection \<open>The handler\<close>

definition bad_request_body :: string where
  "bad_request_body = ''400 Bad Request '' @ CRLF @ CRLF"

definition bad_request :: response where
  "bad_request = text_response Bad_request ''text/plain'' bad_request_body"

definition id_json :: "string \<Rightarrow> string" where
  "id_json ident = ''{ '' @ QUOTE @ ''id'' @ QUOTE @ '': '' @ QUOTE @ ident @ QUOTE @ '' }''"

definition handle_post :: "file_manager \<Rightarrow> crud_path \<Rightarrow> request \<Rightarrow> world \<Rightarrow> response result \<times> world" where
  "handle_post fm path req w =
     (if entity_id path \<noteq> []
      then (Inr bad_request,
            wlog ERROR ''Invalid CRUD POST request. Request may not contain Entity ID'' w)
      else (case fm_generate fm path w of
              (Inl e, w1) \<Rightarrow> (Inl e, w1)
            | (Inr new_id, w1) \<Rightarrow>
                (case stoull new_id of
                   Inl e \<Rightarrow> (Inl e, w1)
                 | Inr v \<Rightarrow>
                     (let path' = path\<lparr>entity_id := to_string_u64 v\<rparr>;
                          w2 = wlog INFO (''POST request body: '' @ body req) w1
                      in case fm_write fm path' (body req) w2 of
                           (Inl e, w3) \<Rightarrow> (Inl e, w3)
                         | (Inr _, w3) \<Rightarrow>
                             (Inr (text_response Created ''text/plain'' (id_json new_id)), w3)))))"

text \<open>The body of a listing, written by the loop over the indices.\<close>

definition list_body :: "string list \<Rightarrow> string" where
  "list_body file_names_list =
     ''['' @ concat (map (\<lambda>i. file_names_list ! i @
                        (if i < length file_names_list - 1 then '', '' else []))
                  [0..<length file_names_list]) @ '']''"

definition handle_list :: "file_manager \<Rightarrow> crud_path \<Rightarrow> request \<Rightarrow> world \<Rightarrow> response result \<times> world" where
  "handle_list fm path req w =
     (if entity_name path = []
      then (Inr bad_request,
            wlog ERROR ''Invalid CRUD GET request. Request must contain Entity Name'' w)
      else (let (file_names_list, w1) = fm_list fm path w
            in (Inr (text_response Ok ''application/json'' (list_body file_names_list)), w1)))"

definition handle_get :: "file_manager \<Rightarrow> crud_path \<Rightarrow> request \<Rightarrow> world \<Rightarrow> response result \<times> world" where
  "handle_get fm path req w =
     (if entity_id path = [] then handle_list fm path req w
      else (case fm_read fm path w of
              (None, w1) \<Rightarrow>
                (Inr (text_response Not_found ''text/plain'' (''404 Not Found'' @ CRLF @ CRLF)),
                 wlog ERROR ''Error reading requested file.'' w1)
            | (Some file_contents, w1) \<Rightarrow>
                (Inr (text_response Ok ''application/json'' file_contents), w1)))"

definition handle_put :: "file_manager \<Rightarrow> crud_path \<Rightarrow> request \<Rightarrow> world \<Rightarrow> response result \<times> world" where
  "handle_put fm path req w =
     (if entity_name path = [] \<or> entity_id path = []
      then (Inr bad_request,
            wlog ERROR ''Invalid CRUD POST request. Request must contain Entity Name and Entity ID'' w)
      else (let w1 = wlog INFO (''PUT request body: '' @ body req) w;
                entity_exists = fm_exists fm path w1
            in case fm_write fm path (body req) w1 of
                 (Inl e, w2) \<Rightarrow> (Inl e, w2)
               | (Inr _, w2) \<Rightarrow>
                   (if \<not> entity_exists
                    then (Inr (text_response Created ''text/plain'' (id_json (entity_id path))), w2)
                    else (Inr (text_response Ok ''text/plain'' ''Successful update.''), w2))))"

definition handle_del :: "file_manager \<Rightarrow> crud_path \<Rightarrow> request \<Rightarrow> world \<Rightarrow> response result \<times> world" where
  "handle_del fm path req w =
     (if entity_name path = [] \<or> entity_id path = []
      then (Inr bad_request,
            wlog ERROR ''Invalid CRUD DELETE request. Request must contain Entity Name and Entity ID'' w)
      else (let (object_existed, w1) = fm_delete fm path w
            in if object_existed
               then (Inr (text_response Ok ''text/plain'' ''Successful delete.''), w1)
               else (Inr (text_response No_content ''text/plain'' []), w1)))"

definition bad_method_body :: string where
  "bad_method_body = ''400 Bad Request'' @ CRLF @ ''Request method must be one of POST/GET/PUT/DELETE '' @ CRLF @ CRLF"

definition no_entity_body :: string where
  "no_entity_body = ''400 Bad Request'' @ CRLF @ ''Request must contain Entity name '' @ CRLF @ CRLF"

definition crud_handle_request :: "file_manager \<Rightarrow> request \<Rightarrow> world \<Rightarrow> response result \<times> world" where
  "crud_handle_request fm req w =
     (case getCrudEntityPath req w of
        (Inl e, w1) \<Rightarrow> (Inl e, w1)
      | (Inr path, w1) \<Rightarrow>
          (if req_method req \<noteq> Get \<and> req_method req \<noteq> Post \<and> req_method req \<noteq> Put \<and> req_method req \<noteq> Delete
           then (Inr (text_response Bad_request ''text/plain'' bad_method_body),
                 wlog ERROR ''Invalid CRUD request method. Must be one of POST/GET/PUT/DELETE'' w1)
           else if entity_name path = []
           then (Inr (text_response Bad_request ''text/plain'' no_entity_body),
                 wlog ERROR ''Invalid CRUD request. Missing Entity name'' w1)
           else if req_method req = Post then handle_post fm path req w1
           else if req_method req = Get then handle_get fm path req w1
           else if req_method req = Put then handle_put fm path req w1
           else handle_del fm path req w1))"

text \<open>
  \<open>CrudHandlerFactory::create\<close> makes a handler with a file manager of its own, whose mutex starts
  unlocked.
\<close>

definition crud_handler :: "request \<Rightarrow> world \<Rightarrow> response result \<times> world" where
  "crud_handler req w = crud_handle_request CrudFileManager req (wlock False w)"

subsection \<open>Listing\<close>

fun comma_list :: "string list \<Rightarrow> string" where
  "comma_list [] = []"
| "comma_list [x] = x"
| "comma_list (x # y # xs) = x @ '', '' @ comma_list (y # xs)"

lemma comma_list_indices:
  "concat (map (\<lambda>i. xs ! i @ (if i < length xs - 1 then '', '' else [])) [0..<length xs]) = comma_list xs"
proof (induction xs rule: comma_list.induct)
  case (3 x y xs)
  have "[0..<length (x # y # xs)] = 0 # map Suc [0..<length (y # xs)]"
    by (simp add: map_Suc_upt upt_conv_Cons del: upt_Suc)
  with 3 show ?case by (simp add: comp_def del: upt_Suc)
qed simp_all

lemma list_body_comma: "list_body xs = ''['' @ comma_list xs @ '']''"
  unfolding list_body_def comma_list_indices ..

subsection \<open>What the requests mean\<close>

text \<open>
  The five requests on a store, the response and the store after each. \<open>op_ok\<close>: the names are
  plain, an identifier that is written is a number, and no number used is the last of 64 bits.
\<close>

datatype crud_op =
    Create_op string string
  | Update_op string string string
  | Retrieve_op string string
  | Delete_op string string
  | List_op string

fun spec_response :: "crud_op \<Rightarrow> store \<Rightarrow> response" where
  "spec_response (Create_op n t) S = text_response Created ''text/plain'' (id_json (next_id n S))"
| "spec_response (Update_op n i t) S =
     (if lookup_object n i S = None then text_response Created ''text/plain'' (id_json i)
      else text_response Ok ''text/plain'' ''Successful update.'')"
| "spec_response (Retrieve_op n i) S =
     (case lookup_object n i S of
        None \<Rightarrow> text_response Not_found ''text/plain'' (''404 Not Found'' @ CRLF @ CRLF)
      | Some t \<Rightarrow> text_response Ok ''application/json'' t)"
| "spec_response (Delete_op n i) S =
     (if lookup_object n i S \<noteq> None then text_response Ok ''text/plain'' ''Successful delete.''
      else text_response No_content ''text/plain'' [])"
| "spec_response (List_op n) S =
     text_response Ok ''application/json''
       (''['' @ comma_list (sorted_list_of_set {i. lookup_object n i S \<noteq> None}) @ '']'')"

definition next_number :: "string \<Rightarrow> store \<Rightarrow> 64 word" where
  "next_number n S = (case S n of None \<Rightarrow> 1 | Some e \<Rightarrow> counter e + 1)"

fun spec_store :: "crud_op \<Rightarrow> store \<Rightarrow> store" where
  "spec_store (Create_op n t) S = insert_object n (next_id n S) (next_number n S) t S"
| "spec_store (Update_op n i t) S =
     (case stoull i of Inr k \<Rightarrow> insert_object n i k t S | Inl e \<Rightarrow> S)"
| "spec_store (Delete_op n i) S = remove_object n i S"
| "spec_store (Retrieve_op n i) S = S"
| "spec_store (List_op n) S = S"

fun op_ok :: "crud_op \<Rightarrow> store \<Rightarrow> bool" where
  "op_ok (Create_op n t) S \<longleftrightarrow> entity_ok n \<and> next_number n S \<noteq> - 1"
| "op_ok (Update_op n i t) S \<longleftrightarrow>
     entity_ok n \<and> plain_name i \<and> (case stoull i of Inr k \<Rightarrow> k \<noteq> - 1 | Inl e \<Rightarrow> False)"
| "op_ok (Retrieve_op n i) S \<longleftrightarrow> entity_ok n \<and> plain_name i"
| "op_ok (Delete_op n i) S \<longleftrightarrow> entity_ok n \<and> plain_name i"
| "op_ok (List_op n) S \<longleftrightarrow> entity_ok n"

text \<open>The request that asks for an operation: method, body and the path below the location.\<close>

fun op_method :: "crud_op \<Rightarrow> verb" where
  "op_method (Create_op n t) = Post"
| "op_method (Update_op n i t) = Put"
| "op_method (Retrieve_op n i) = Get"
| "op_method (Delete_op n i) = Delete"
| "op_method (List_op n) = Get"

fun op_body :: "crud_op \<Rightarrow> string option" where
  "op_body (Create_op n t) = Some t"
| "op_body (Update_op n i t) = Some t"
| "op_body _ = None"

fun op_path :: "crud_op \<Rightarrow> string \<times> string" where
  "op_path (Create_op n t) = (n, [])"
| "op_path (Update_op n i t) = (n, i)"
| "op_path (Retrieve_op n i) = (n, i)"
| "op_path (Delete_op n i) = (n, i)"
| "op_path (List_op n) = (n, [])"

definition op_suffix :: "crud_op \<Rightarrow> string" where
  "op_suffix c = (case op_path c of (n, i) \<Rightarrow> ''/'' @ n @ (if i = [] then [] else ''/'' @ i))"

definition asks :: "server_paths \<Rightarrow> string \<Rightarrow> crud_op \<Rightarrow> request \<Rightarrow> bool" where
  "asks p l c req \<longleftrightarrow>
     req_method req = op_method c \<and> (\<forall>t. op_body c = Some t \<longrightarrow> body req = t) \<and>
     normalised_target (target req) = Inr (l @ op_suffix c) \<and> routed p (l @ op_suffix c) l CRUD"

lemma next_id_next_number: "stoull (next_id n S) = Inr (next_number n S)"
  by (simp add: next_id_number next_number_def)

lemma next_id_to_string: "to_string_u64 (next_number n S) = next_id n S"
proof (cases "S n")
  case None
  have "to_string_u64 1 = ''1''" by code_simp
  with None show ?thesis by (simp add: next_number_def next_id_def)
qed (simp add: next_number_def next_id_def)

lemma asks_path:
  assumes "paths_ok (getServerPaths (interp w))" and "asks (getServerPaths (interp w)) l c req"
    and n: "plain_name (fst (op_path c))"
  shows "fst (getCrudEntityPath req w) =
    Inr \<lparr>data_path = map_at (crud_paths (getServerPaths (interp w))) l,
         entity_name = fst (op_path c), entity_id = snd (op_path c)\<rparr>"
proof -
  obtain name ident where p: "op_path c = (name, ident)" by (cases "op_path c")
  have ns: "CHR ''/'' \<notin> set name" "name \<noteq> []" using n p by (simp_all add: plain_name_def)
  have "split_entity_path (op_suffix c) = Inr (name, ident)"
    using split_entity_object [OF ns(1), of "CHR ''/''" ident] split_entity_only [OF ns, of "CHR ''/''"]
    by (simp add: op_suffix_def p)
  then show ?thesis
    using getCrudEntityPath_routed [OF assms(1), of req "l @ op_suffix c" l] assms(2) p
    by (simp add: asks_def)
qed

lemma op_ok_name: "op_ok c S \<Longrightarrow> entity_ok (fst (op_path c))"
  by (cases c) simp_all

subsection \<open>The contract of the store\<close>

locale object_store =
  fixes fm :: file_manager
    and dp :: string
    and sinv :: "world \<Rightarrow> bool"
    and sabs :: "world \<Rightarrow> store"
  assumes log_law: "same_but_logs w w' \<Longrightarrow> sinv w' = sinv w \<and> sabs w' = sabs w"
    and fresh_law: "sinv w \<Longrightarrow> lookup_object n (next_id n (sabs w)) (sabs w) = None"
    and read_law: "sinv w \<Longrightarrow> entity_ok n \<Longrightarrow> plain_name i \<Longrightarrow> \<exists>w'.
        fm_read fm \<lparr>data_path = dp, entity_name = n, entity_id = i\<rparr> w = (lookup_object n i (sabs w), w')
        \<and> sinv w' \<and> interp w' = interp w \<and> sabs w' = sabs w"
    and exists_law: "sinv w \<Longrightarrow> entity_ok n \<Longrightarrow> plain_name i \<Longrightarrow>
        fm_exists fm \<lparr>data_path = dp, entity_name = n, entity_id = i\<rparr> w \<longleftrightarrow> lookup_object n i (sabs w) \<noteq> None"
    and write_law: "sinv w \<Longrightarrow> entity_ok n \<Longrightarrow> plain_name i \<Longrightarrow> stoull i = Inr k \<Longrightarrow> k \<noteq> - 1 \<Longrightarrow> \<exists>w'.
        fm_write fm \<lparr>data_path = dp, entity_name = n, entity_id = i\<rparr> t w = (Inr True, w')
        \<and> sinv w' \<and> interp w' = interp w \<and> sabs w' = insert_object n i k t (sabs w)"
    and delete_law: "sinv w \<Longrightarrow> entity_ok n \<Longrightarrow> plain_name i \<Longrightarrow> \<exists>w'.
        fm_delete fm \<lparr>data_path = dp, entity_name = n, entity_id = i\<rparr> w = (lookup_object n i (sabs w) \<noteq> None, w')
        \<and> sinv w' \<and> interp w' = interp w \<and> sabs w' = remove_object n i (sabs w)"
    and list_law: "sinv w \<Longrightarrow> entity_ok n \<Longrightarrow> \<exists>w' names.
        fm_list fm \<lparr>data_path = dp, entity_name = n, entity_id = i\<rparr> w = (names, w')
        \<and> sorted names \<and> distinct names \<and> set names = {j. lookup_object n j (sabs w) \<noteq> None}
        \<and> sinv w' \<and> interp w' = interp w \<and> sabs w' = sabs w"
    and generate_law: "sinv w \<Longrightarrow> entity_ok n \<Longrightarrow> \<exists>w'.
        fm_generate fm \<lparr>data_path = dp, entity_name = n, entity_id = i\<rparr> w = (Inr (next_id n (sabs w)), w')
        \<and> sinv w' \<and> interp w' = interp w \<and> sabs w' = sabs w"

begin

lemma log_inv [simp]: "sinv (wlog sev msg w) = sinv w" "sabs (wlog sev msg w) = sabs w"
  using log_law [of w "wlog sev msg w"] by simp_all

lemma plain_nonempty: "plain_name i \<Longrightarrow> i \<noteq> []"
  by (simp add: plain_name_def)

lemma post_refines:
  assumes "sinv w" and "op_ok (Create_op n t) (sabs w)" and "body req = t"
  shows "\<exists>w'. handle_post fm \<lparr>data_path = dp, entity_name = n, entity_id = []\<rparr> req w
      = (Inr (spec_response (Create_op n t) (sabs w)), w')
    \<and> sinv w' \<and> interp w' = interp w \<and> sabs w' = spec_store (Create_op n t) (sabs w)"
proof -
  let ?S = "sabs w" and ?p = "\<lparr>data_path = dp, entity_name = n, entity_id = []\<rparr>"
  from assms(2) have n: "entity_ok n" and k: "next_number n ?S \<noteq> - 1" by simp_all
  obtain w1 where g: "fm_generate fm ?p w = (Inr (next_id n ?S), w1)"
    and w1: "sinv w1" "interp w1 = interp w" "sabs w1 = ?S"
    using generate_law [OF assms(1) n] by blast
  let ?w2 = "wlog INFO (''POST request body: '' @ t) w1"
  obtain w3 where wr: "fm_write fm \<lparr>data_path = dp, entity_name = n, entity_id = next_id n ?S\<rparr> t ?w2 = (Inr True, w3)"
    and w3: "sinv w3" "interp w3 = interp w1" "sabs w3 = insert_object n (next_id n ?S) (next_number n ?S) t ?S"
    using write_law [of ?w2 n "next_id n ?S" "next_number n ?S" t] w1 n k
    by (auto simp: next_id_next_number next_id_plain)
  show ?thesis
    using g wr w1 w3 assms(3) by (simp add: handle_post_def next_id_next_number next_id_to_string)
qed

lemma put_refines:
  assumes "sinv w" and "op_ok (Update_op n i t) (sabs w)" and "body req = t"
  shows "\<exists>w'. handle_put fm \<lparr>data_path = dp, entity_name = n, entity_id = i\<rparr> req w
      = (Inr (spec_response (Update_op n i t) (sabs w)), w')
    \<and> sinv w' \<and> interp w' = interp w \<and> sabs w' = spec_store (Update_op n i t) (sabs w)"
proof -
  let ?S = "sabs w" and ?p = "\<lparr>data_path = dp, entity_name = n, entity_id = i\<rparr>"
  from assms(2) obtain k where n: "entity_ok n" and i: "plain_name i" and k: "stoull i = Inr k" "k \<noteq> - 1"
    by (auto split: sum.splits)
  let ?w1 = "wlog INFO (''PUT request body: '' @ t) w"
  obtain w2 where wr: "fm_write fm ?p t ?w1 = (Inr True, w2)"
    and w2: "sinv w2" "interp w2 = interp w" "sabs w2 = insert_object n i k t ?S"
    using write_law [of ?w1 n i k t] assms(1) n i k by auto
  have ex: "fm_exists fm ?p ?w1 \<longleftrightarrow> lookup_object n i ?S \<noteq> None"
    using exists_law [of ?w1 n i] assms(1) n i by simp
  have ne: "n \<noteq> []" "i \<noteq> []" using n i by (simp_all add: entity_ok_def plain_name_def)
  show ?thesis
    using wr w2 ex ne k assms(3) by (simp add: handle_put_def Let_def)
qed

lemma get_refines:
  assumes "sinv w" and "op_ok (Retrieve_op n i) (sabs w)"
  shows "\<exists>w'. handle_get fm \<lparr>data_path = dp, entity_name = n, entity_id = i\<rparr> req w
      = (Inr (spec_response (Retrieve_op n i) (sabs w)), w')
    \<and> sinv w' \<and> interp w' = interp w \<and> sabs w' = sabs w"
proof -
  from assms(2) have n: "entity_ok n" and i: "plain_name i" by simp_all
  obtain w1 where "fm_read fm \<lparr>data_path = dp, entity_name = n, entity_id = i\<rparr> w = (lookup_object n i (sabs w), w1)"
    "sinv w1" "interp w1 = interp w" "sabs w1 = sabs w"
    using read_law [OF assms(1) n i] by blast
  then show ?thesis
    using plain_nonempty [OF i] by (simp add: handle_get_def split: option.split)
qed

lemma del_refines:
  assumes "sinv w" and "op_ok (Delete_op n i) (sabs w)"
  shows "\<exists>w'. handle_del fm \<lparr>data_path = dp, entity_name = n, entity_id = i\<rparr> req w
      = (Inr (spec_response (Delete_op n i) (sabs w)), w')
    \<and> sinv w' \<and> interp w' = interp w \<and> sabs w' = remove_object n i (sabs w)"
proof -
  from assms(2) have n: "entity_ok n" and i: "plain_name i" by simp_all
  obtain w1 where "fm_delete fm \<lparr>data_path = dp, entity_name = n, entity_id = i\<rparr> w
      = (lookup_object n i (sabs w) \<noteq> None, w1)"
    "sinv w1" "interp w1 = interp w" "sabs w1 = remove_object n i (sabs w)"
    using delete_law [OF assms(1) n i] by blast
  moreover have "n \<noteq> []" using n by (simp add: entity_ok_def plain_name_def)
  ultimately show ?thesis
    using plain_nonempty [OF i] by (simp add: handle_del_def)
qed

lemma listing_refines:
  assumes "sinv w" and "op_ok (List_op n) (sabs w)"
  shows "\<exists>w'. handle_get fm \<lparr>data_path = dp, entity_name = n, entity_id = []\<rparr> req w
      = (Inr (spec_response (List_op n) (sabs w)), w')
    \<and> sinv w' \<and> interp w' = interp w \<and> sabs w' = sabs w"
proof -
  let ?ids = "{j. lookup_object n j (sabs w) \<noteq> None}"
  from assms(2) have n: "entity_ok n" by simp
  obtain w1 names where l: "fm_list fm \<lparr>data_path = dp, entity_name = n, entity_id = []\<rparr> w = (names, w1)"
    and names: "sorted names" "distinct names" "set names = ?ids"
    and w1: "sinv w1" "interp w1 = interp w" "sabs w1 = sabs w"
    using list_law [OF assms(1) n, of "[]"] by blast
  have "sorted_list_of_set ?ids = names"
    using names sorted_list_of_set_sort_remdups [of names]
    by (simp add: sorted_sort_id distinct_remdups_id)
  moreover have "n \<noteq> []" using n by (simp add: entity_ok_def plain_name_def)
  ultimately show ?thesis
    using l w1 by (simp add: handle_get_def handle_list_def list_body_comma)
qed

text \<open>Every request to the handler is the operation it asks for.\<close>

lemma request_refines:
  assumes inv: "sinv w" and ok: "op_ok c (sabs w)" and paths: "paths_ok (getServerPaths (interp w))"
    and asks: "asks (getServerPaths (interp w)) l c req"
    and dp: "map_at (crud_paths (getServerPaths (interp w))) l = dp"
  shows "\<exists>w'. crud_handle_request fm req w = (Inr (spec_response c (sabs w)), w')
    \<and> sinv w' \<and> interp w' = interp w \<and> sabs w' = spec_store c (sabs w)"
proof -
  have n: "plain_name (fst (op_path c))" using op_ok_name [OF ok] by (rule entity_plain)
  obtain w1 where g: "getCrudEntityPath req w =
      (Inr \<lparr>data_path = dp, entity_name = fst (op_path c), entity_id = snd (op_path c)\<rparr>, w1)"
    using asks_path [OF paths asks n] dp by (metis prod.collapse)
  have same: "same_but_logs w w1" using getCrudEntityPath_same [of w req] g by simp
  have w1: "sinv w1" "sabs w1 = sabs w" "interp w1 = interp w"
    using log_law [OF same] inv same by (simp_all add: same_but_logs_def)
  have ne: "fst (op_path c) \<noteq> []" using n by (rule plain_nonempty)
  have m: "req_method req = op_method c" and b: "\<And>t. op_body c = Some t \<Longrightarrow> body req = t"
    using asks by (simp_all add: asks_def)
  show ?thesis
  proof (cases c)
    case (Create_op n t)
    with m b ok w1 post_refines [of w1 n t req] ne g show ?thesis
      by (simp add: crud_handle_request_def)
  next
    case (Update_op n i t)
    with m b ok w1 put_refines [of w1 n i t req] ne g show ?thesis
      by (simp add: crud_handle_request_def)
  next
    case (Retrieve_op n i)
    with m ok w1 get_refines [of w1 n i req] ne g show ?thesis
      by (simp add: crud_handle_request_def)
  next
    case (Delete_op n i)
    with m ok w1 del_refines [of w1 n i req] ne g show ?thesis
      by (simp add: crud_handle_request_def)
  next
    case (List_op n)
    with m ok w1 listing_refines [of w1 n req] ne g show ?thesis
      by (simp add: crud_handle_request_def)
  qed
qed

end

text \<open>\<open>CrudFileManager\<close>, on the files of one data directory, is such a store.\<close>

definition store_ready :: "string \<Rightarrow> path \<Rightarrow> world \<Rightarrow> bool" where
  "store_ready dp D w \<longleftrightarrow> store_inv dp D (files w) \<and> \<not> entity_mutex w"

definition world_store :: "path \<Rightarrow> world \<Rightarrow> store" where
  "world_store D w = abs_store D (files w)"

lemma same_files_ready:
  "same_but_logs (wfiles f w) w' \<Longrightarrow> \<not> entity_mutex w \<Longrightarrow> store_inv dp D f
    \<Longrightarrow> store_ready dp D w' \<and> interp w' = interp w"
  by (simp add: store_ready_def same_but_logs_def)

lemma store_readyD: "store_ready dp D w \<Longrightarrow> store_inv dp D (files w)" "store_ready dp D w \<Longrightarrow> \<not> entity_mutex w"
  by (simp_all add: store_ready_def)

lemma crud_read:
  assumes w: "store_ready dp D w" and n: "entity_ok n" and i: "plain_name i"
  shows "\<exists>w'. fm_read CrudFileManager \<lparr>data_path = dp, entity_name = n, entity_id = i\<rparr> w
      = (lookup_object n i (world_store D w), w')
    \<and> store_ready dp D w' \<and> interp w' = interp w \<and> world_store D w' = world_store D w"
proof -
  let ?p = "\<lparr>data_path = dp, entity_name = n, entity_id = i\<rparr>"
  note rd = read_refines [OF store_readyD(1) [OF w] n i, of ?p, simplified]
  show ?thesis
    using rd w by (intro exI [of _ "snd (readObject ?p w)"])
      (simp add: CrudFileManager_def prod_eq_iff store_ready_def world_store_def same_but_logs_def)
qed

lemma crud_delete:
  assumes w: "store_ready dp D w" and n: "entity_ok n" and i: "plain_name i"
  shows "\<exists>w'. fm_delete CrudFileManager \<lparr>data_path = dp, entity_name = n, entity_id = i\<rparr> w
      = (lookup_object n i (world_store D w) \<noteq> None, w')
    \<and> store_ready dp D w' \<and> interp w' = interp w \<and> world_store D w' = remove_object n i (world_store D w)"
proof -
  let ?p = "\<lparr>data_path = dp, entity_name = n, entity_id = i\<rparr>"
  obtain w' where "deleteObject ?p w = (lookup_object n i (abs_store D (files w)) \<noteq> None, w')"
      "same_but_logs (wfiles (files w') w) w'" "store_inv dp D (files w')"
      "abs_store D (files w') = remove_object n i (abs_store D (files w))"
    using delete_refines [OF store_readyD(1) [OF w] n i, of ?p] by auto
  with same_files_ready [OF _ store_readyD(2) [OF w]] show ?thesis
    by (intro exI [of _ w']) (simp add: CrudFileManager_def world_store_def)
qed

lemma crud_write:
  assumes w: "store_ready dp D w" and n: "entity_ok n" and i: "plain_name i" "stoull i = Inr k" and k: "k \<noteq> - 1"
  shows "\<exists>w'. fm_write CrudFileManager \<lparr>data_path = dp, entity_name = n, entity_id = i\<rparr> t w = (Inr True, w')
    \<and> store_ready dp D w' \<and> interp w' = interp w \<and> world_store D w' = insert_object n i k t (world_store D w)"
proof -
  let ?p = "\<lparr>data_path = dp, entity_name = n, entity_id = i\<rparr>"
  note inv = store_readyD(1) [OF w] and m = store_readyD(2) [OF w]
  obtain w' where "writeObject ?p t w = (Inr True, w')" "same_but_logs (wfiles (files w') w) w'"
    and wr: "wrote dp D n i k t (files w) (files w')"
    using writeObject_wrote [OF inv m n _ _ _ i, of ?p] by auto
  with same_files_ready [OF _ m wrote_inv [OF wr inv n i k]] wrote_abs [OF wr inv n] show ?thesis
    by (intro exI [of _ w']) (simp add: CrudFileManager_def world_store_def)
qed

lemma crud_list:
  assumes w: "store_ready dp D w" and n: "entity_ok n"
  shows "\<exists>w' names. fm_list CrudFileManager \<lparr>data_path = dp, entity_name = n, entity_id = i\<rparr> w = (names, w')
    \<and> sorted names \<and> distinct names \<and> set names = {j. lookup_object n j (world_store D w) \<noteq> None}
    \<and> store_ready dp D w' \<and> interp w' = interp w \<and> world_store D w' = world_store D w"
proof -
  let ?p = "\<lparr>data_path = dp, entity_name = n, entity_id = i\<rparr>"
  note ls = list_refines [OF store_readyD(1) [OF w] n, of ?p, simplified]
  show ?thesis
    using ls w by (intro exI [of _ "snd (listObjects ?p w)"] exI [of _ "fst (listObjects ?p w)"])
      (simp add: CrudFileManager_def prod_eq_iff store_ready_def world_store_def same_but_logs_def)
qed

lemma crud_generate:
  assumes w: "store_ready dp D w" and n: "entity_ok n"
  shows "\<exists>w'. fm_generate CrudFileManager \<lparr>data_path = dp, entity_name = n, entity_id = i\<rparr> w
      = (Inr (next_id n (world_store D w)), w')
    \<and> store_ready dp D w' \<and> interp w' = interp w \<and> world_store D w' = world_store D w"
proof -
  let ?p = "\<lparr>data_path = dp, entity_name = n, entity_id = i\<rparr>"
  note inv = store_readyD(1) [OF w] and m = store_readyD(2) [OF w]
  obtain w' where "generateEntityId ?p w = (Inr (next_id n (abs_store D (files w))), w')"
      "same_but_logs (wfiles (files w') w) w'" "store_inv dp D (files w')"
      "abs_store D (files w') = abs_store D (files w)"
    using generate_refines [OF inv m n, of ?p] by auto
  with same_files_ready [OF _ m] show ?thesis
    by (intro exI [of _ w']) (simp add: CrudFileManager_def world_store_def)
qed

interpretation crud_store: object_store CrudFileManager dp "store_ready dp D" "world_store D"
  for dp :: string and D :: path
proof unfold_locales
  show "same_but_logs w w' \<Longrightarrow> store_ready dp D w' = store_ready dp D w \<and> world_store D w' = world_store D w" for w w'
    by (simp add: store_ready_def world_store_def same_but_logs_def)
  show "store_ready dp D w \<Longrightarrow> lookup_object n (next_id n (world_store D w)) (world_store D w) = None" for w n
    unfolding world_store_def store_ready_def by (blast intro: next_id_fresh)
  show "fm_exists CrudFileManager \<lparr>data_path = dp, entity_name = n, entity_id = i\<rparr> w
      \<longleftrightarrow> lookup_object n i (world_store D w) \<noteq> None"
    if "store_ready dp D w" "entity_ok n" "plain_name i" for w n i
    using exists_refines [OF store_readyD(1) [OF that(1)] that(2,3), of "\<lparr>data_path = dp, entity_name = n, entity_id = i\<rparr>"]
    by (simp add: CrudFileManager_def world_store_def)
qed (rule crud_read crud_delete crud_write crud_list crud_generate; assumption)+

subsection \<open>Runs of requests\<close>

lemma crud_handler_refines:
  assumes inv: "store_inv dp D (files w)" and ok: "op_ok c (abs_store D (files w))"
    and paths: "paths_ok (getServerPaths (interp w))" and asks: "asks (getServerPaths (interp w)) l c req"
    and dp: "map_at (crud_paths (getServerPaths (interp w))) l = dp"
  shows "\<exists>w'. crud_handler req w = (Inr (spec_response c (abs_store D (files w))), w')
    \<and> store_inv dp D (files w') \<and> interp w' = interp w
    \<and> abs_store D (files w') = spec_store c (abs_store D (files w))"
  using crud_store.request_refines [of dp D "wlock False w" c l req] assms
  by (auto simp: crud_handler_def store_ready_def world_store_def)

fun handle_all ::
  "(request \<Rightarrow> world \<Rightarrow> response result \<times> world) \<Rightarrow> request list \<Rightarrow> world \<Rightarrow> response result list \<times> world" where
  "handle_all h [] w = ([], w)"
| "handle_all h (req # reqs) w =
     (let (r, w1) = h req w; (rs, w2) = handle_all h reqs w1 in (r # rs, w2))"

fun spec_run :: "crud_op list \<Rightarrow> store \<Rightarrow> response list \<times> store" where
  "spec_run [] S = ([], S)"
| "spec_run (c # cs) S = (let (rs, S') = spec_run cs (spec_store c S) in (spec_response c S # rs, S'))"

fun ops_ok :: "crud_op list \<Rightarrow> store \<Rightarrow> bool" where
  "ops_ok [] S \<longleftrightarrow> True"
| "ops_ok (c # cs) S \<longleftrightarrow> op_ok c S \<and> ops_ok cs (spec_store c S)"

lemma handle_all_refines:
  assumes "store_inv dp D (files w)" and "ops_ok cs (abs_store D (files w))"
    and "paths_ok (getServerPaths (interp w))"
    and "list_all2 (asks (getServerPaths (interp w)) l) cs reqs"
    and "map_at (crud_paths (getServerPaths (interp w))) l = dp"
  shows "\<exists>w'. handle_all crud_handler reqs w = (map Inr (fst (spec_run cs (abs_store D (files w)))), w')
    \<and> store_inv dp D (files w') \<and> interp w' = interp w
    \<and> abs_store D (files w') = snd (spec_run cs (abs_store D (files w)))"
  using assms
proof (induction cs arbitrary: reqs w)
  case (Cons c cs)
  let ?S = "abs_store D (files w)"
  obtain req reqs' where reqs: "reqs = req # reqs'" and a: "asks (getServerPaths (interp w)) l c req"
    and as: "list_all2 (asks (getServerPaths (interp w)) l) cs reqs'"
    using Cons.prems(4) by (auto simp: list_all2_Cons1)
  have ok: "op_ok c ?S" "ops_ok cs (spec_store c ?S)" using Cons.prems(2) by simp_all
  obtain w1 where h: "crud_handler req w = (Inr (spec_response c ?S), w1)"
    and w1: "store_inv dp D (files w1)" "interp w1 = interp w" "abs_store D (files w1) = spec_store c ?S"
    using crud_handler_refines [OF Cons.prems(1) ok(1) Cons.prems(3) a Cons.prems(5)] by blast
  obtain w2 where "handle_all crud_handler reqs' w1 = (map Inr (fst (spec_run cs (spec_store c ?S))), w2)"
    "store_inv dp D (files w2)" "interp w2 = interp w1"
    "abs_store D (files w2) = snd (spec_run cs (spec_store c ?S))"
    using Cons.IH [of w1 reqs'] w1 ok(2) Cons.prems(3,5) as by auto
  with h w1 reqs show ?case by (simp add: split_beta)
qed simp

end
