(* ===== verification/Crud_Properties.thy ===== *)
theory Crud_Properties
  imports Crud_Handler
begin

text \<open>
  The properties of the CRUD handler on its files: runs of requests answer as the abstract store
  does, identifiers are fresh and never reused, what was written is read back, and nothing but the
  object, its directory, the counter file and the temporary file changes. The last section evaluates
  the handler on the inputs where it does not do what it is meant to do.
\<close>

subsection \<open>Runs on the abstract store\<close>

lemma spec_run_append:
  "spec_run (xs @ ys) S =
     (fst (spec_run xs S) @ fst (spec_run ys (snd (spec_run xs S))), snd (spec_run ys (snd (spec_run xs S))))"
  by (induction xs arbitrary: S) (simp_all add: split_beta)

lemma ops_ok_append: "ops_ok (xs @ ys) S \<longleftrightarrow> ops_ok xs S \<and> ops_ok ys (snd (spec_run xs S))"
  by (induction xs arbitrary: S) (simp_all add: split_beta)

definition counters_ok :: "store \<Rightarrow> bool" where
  "counters_ok S \<longleftrightarrow> (\<forall>n e. S n = Some e \<longrightarrow> counter e \<noteq> - 1)"

text \<open>The counter of the entity is at least \<open>k\<close>.\<close>

definition reached :: "string \<Rightarrow> 64 word \<Rightarrow> store \<Rightarrow> bool" where
  "reached n k S \<longleftrightarrow> (\<exists>e. S n = Some e \<and> k \<le> counter e)"

lemma store_counters_ok: "store_inv dp D f \<Longrightarrow> counters_ok (abs_store D f)"
  unfolding counters_ok_def using abs_store_Some(4) by blast

lemma insert_counters_ok: "counters_ok S \<Longrightarrow> k \<noteq> - 1 \<Longrightarrow> counters_ok (insert_object n i k t S)"
  by (auto simp: counters_ok_def insert_object_def Let_def max_def split: option.split)

lemma counters_ok_step: "counters_ok S \<Longrightarrow> op_ok c S \<Longrightarrow> counters_ok (spec_store c S)"
proof (cases c)
  case (Delete_op n i)
  assume "counters_ok S"
  with Delete_op show ?thesis
    by (auto simp: counters_ok_def remove_object_def split: option.split)
qed (auto simp: insert_counters_ok split: sum.splits)


lemma reached_insert: "reached n k S \<Longrightarrow> reached n k (insert_object m i k' t S)"
  by (auto simp: reached_def insert_object_def Let_def le_max_iff_disj split: option.split)

lemma reached_step: "reached n k S \<Longrightarrow> reached n k (spec_store c S)"
proof (cases c)
  case (Delete_op m i)
  assume "reached n k S"
  with Delete_op show ?thesis
    by (auto simp: reached_def remove_object_def split: option.split)
qed (auto simp: reached_insert split: sum.split)


lemma reached_not_next:
  assumes "counters_ok S" and "reached n k S"
  shows "k < next_number n S"
proof -
  obtain e where e: "S n = Some e" "k \<le> counter e" using assms(2) by (auto simp: reached_def)
  then have "counter e < counter e + 1"
    using word_less_succ [of "counter e" "counter e + 1"] assms(1) by (auto simp: counters_ok_def)
  with e show ?thesis by (simp add: next_number_def)
qed

lemma stored_reached:
  assumes "store_inv dp D f" and "lookup_object n i (abs_store D f) \<noteq> None"
  shows "\<exists>k. stoull i = Inr k \<and> reached n k (abs_store D f)"
  using stored_id_below [OF assms] unfolding reached_def by metis

text \<open>Which requests can change an object that is there, or was there.\<close>

fun overwrites :: "string \<Rightarrow> string \<Rightarrow> crud_op \<Rightarrow> bool" where
  "overwrites n i (Update_op m j t) \<longleftrightarrow> m = n \<and> j = i"
| "overwrites n i (Delete_op m j) \<longleftrightarrow> m = n \<and> j = i"
| "overwrites n i c \<longleftrightarrow> False"

lemma next_id_not_reached:
  assumes "counters_ok S" and "reached n k S" and "stoull i = Inr k"
  shows "next_id n S \<noteq> i"
  using reached_not_next [OF assms(1,2)] assms(3) next_id_next_number [of n S] by auto

lemma lookup_step:
  assumes "counters_ok S" and "reached n k S" and "stoull i = Inr k" and "\<not> overwrites n i c"
  shows "lookup_object n i (spec_store c S) = lookup_object n i S"
proof (cases c)
  case (Create_op m t)
  have "m = n \<Longrightarrow> next_id m S \<noteq> i" using next_id_not_reached [OF assms(1-3)] by simp
  with Create_op show ?thesis by (auto simp: lookup_insert)
next
  case (Update_op m j t)
  with assms(4) show ?thesis by (auto simp: lookup_insert split: sum.split)
next
  case (Delete_op m j)
  with assms(4) show ?thesis by (auto simp: lookup_remove)
qed simp_all

lemma lookup_run:
  assumes "counters_ok S" and "ops_ok cs S" and "reached n k S" and "stoull i = Inr k"
    and "\<forall>c \<in> set cs. \<not> overwrites n i c"
  shows "lookup_object n i (snd (spec_run cs S)) = lookup_object n i S"
  using assms
proof (induction cs arbitrary: S)
  case (Cons c cs)
  have "lookup_object n i (spec_store c S) = lookup_object n i S"
    using lookup_step [OF Cons.prems(1,3,4), of c] Cons.prems(5) by simp
  moreover have "lookup_object n i (snd (spec_run cs (spec_store c S))) = lookup_object n i (spec_store c S)"
    using Cons.IH [of "spec_store c S"] Cons.prems counters_ok_step reached_step by simp
  ultimately show ?case by (simp add: split_beta)
qed simp

text \<open>An object that is gone comes back only by a PUT of it.\<close>

lemma absent_run:
  assumes "counters_ok S" and "ops_ok cs S" and "reached n k S" and "stoull i = Inr k"
    and "\<forall>t. Update_op n i t \<notin> set cs" and "lookup_object n i S = None"
  shows "lookup_object n i (snd (spec_run cs S)) = None"
  using assms
proof (induction cs arbitrary: S)
  case (Cons c cs)
  have "lookup_object n i (spec_store c S) = None"
  proof (cases "overwrites n i c")
    case True
    then show ?thesis using Cons.prems(5,6) by (cases c) (auto simp: lookup_remove)
  next
    case False
    then show ?thesis using lookup_step [OF Cons.prems(1,3,4)] Cons.prems(6) by simp
  qed
  then show ?case
    using Cons.IH [of "spec_store c S"] Cons.prems counters_ok_step reached_step by (simp add: split_beta)
qed simp

lemma reached_written: "reached n k (insert_object n i k t S)"
  by (auto simp: reached_def insert_object_def Let_def split: option.split)

text \<open>Creating one object after another.\<close>

lemma next_after_create:
  assumes "counters_ok S"
  shows "next_number n (spec_store (Create_op n t) S) = next_number n S + 1"
proof -
  have "counter_or_1 n (insert_object n (next_id n S) (next_number n S) t S) = next_number n S"
    using next_id_write [of S n "next_number n S" "next_id n S" t] assms next_id_next_number
    by (auto simp: counters_ok_def)
  then show ?thesis
    by (simp add: next_number_def [of n "insert_object n i k t S" for i k] counter_or_1_def split: option.splits)
      (simp add: insert_object_def Let_def)
qed

lemma of_nat_below_64: "j < 2 ^ 64 \<Longrightarrow> k < 2 ^ 64 \<Longrightarrow> (of_nat j :: 64 word) = of_nat k \<Longrightarrow> j = k"
  by (simp add: word_of_nat_eq_iff take_bit_nat_def)

lemma creates_run:
  assumes "counters_ok S" and "unat (next_number n S) + length ts < 2 ^ 64" and "entity_ok n"
  shows "ops_ok (map (Create_op n) ts) S
    \<and> fst (spec_run (map (Create_op n) ts) S) =
        map (\<lambda>j. text_response Created ''text/plain'' (id_json (to_string_u64 (next_number n S + of_nat j)))) [0..<length ts]
    \<and> (\<forall>j < length ts. lookup_object n (to_string_u64 (next_number n S + of_nat j)) (snd (spec_run (map (Create_op n) ts) S)) = Some (ts ! j))"
  using assms(1,2)
proof (induction ts arbitrary: S)
  case (Cons t ts)
  let ?v = "next_number n S" and ?S1 = "spec_store (Create_op n t) S"
  let ?cs = "map (Create_op n) ts"
  have small: "unat ?v + 1 < 2 ^ 64" using Cons.prems(2) by simp
  have "unat (- 1 :: 64 word) = 2 ^ 64 - 1" by (simp add: unsigned_minus_1_eq_mask mask_eq_exp_minus_1)
  with small have v: "?v \<noteq> - 1" by force
  have "unat (?v + 1) = unat ?v + 1" using small unat_add_lem [of ?v 1] by simp
  moreover have v1: "next_number n ?S1 = ?v + 1" using next_after_create [OF Cons.prems(1)] .
  ultimately have room: "unat (next_number n ?S1) + length ts < 2 ^ 64" using Cons.prems(2) by simp
  have ok: "op_ok (Create_op n t) S" using assms(3) v by simp
  have c1: "counters_ok ?S1" using counters_ok_step [OF Cons.prems(1) ok] .
  note IH = Cons.IH [OF c1 room]
  have shift: "next_number n ?S1 + of_nat j = ?v + of_nat (Suc j)" for j
    using v1 by (simp add: algebra_simps)
  have "reached n ?v ?S1" using reached_written by simp
  then have keep: "lookup_object n (next_id n S) (snd (spec_run ?cs ?S1)) = lookup_object n (next_id n S) ?S1"
    using lookup_run [OF c1 _ _ next_id_next_number, of ?cs n] IH by auto
  have first: "fst (spec_run (map (Create_op n) (t # ts)) S) =
      text_response Created ''text/plain'' (id_json (to_string_u64 ?v)) # fst (spec_run ?cs ?S1)"
    by (simp add: split_beta next_id_to_string)
  have upt: "[0..<length (t # ts)] = 0 # map Suc [0..<length ts]"
    by (simp add: map_Suc_upt upt_conv_Cons del: upt_Suc)
  have "fst (spec_run (map (Create_op n) (t # ts)) S) =
      map (\<lambda>j. text_response Created ''text/plain'' (id_json (to_string_u64 (?v + of_nat j)))) [0..<length (t # ts)]"
    unfolding first upt using IH shift by (simp add: comp_def add.assoc)
  moreover have "lookup_object n (to_string_u64 (?v + of_nat j)) (snd (spec_run (map (Create_op n) (t # ts)) S)) = Some ((t # ts) ! j)"
    if "j < length (t # ts)" for j
  proof (cases j)
    case 0
    then show ?thesis using keep by (simp add: split_beta next_id_to_string lookup_insert)
  next
    case (Suc i)
    with that IH shift [of i] show ?thesis by (simp add: split_beta add.assoc)
  qed
  ultimately show ?case using ok IH by simp
qed simp

lemma spec_run_Cons_snd: "snd (spec_run (c # cs) S) = snd (spec_run cs (spec_store c S))"
  by (simp add: split_beta)

lemma spec_run_snoc:
  "fst (spec_run (cs @ [c]) S) = fst (spec_run cs S) @ [spec_response c (snd (spec_run cs S))]"
  by (simp add: spec_run_append)

lemma ops_ok_snoc: "ops_ok (cs @ [c]) S \<longleftrightarrow> ops_ok cs S \<and> op_ok c (snd (spec_run cs S))"
  by (simp add: ops_ok_append)

text \<open>The last response of a run.\<close>

lemma handle_all_last:
  assumes "store_inv dp D (files w)" and "ops_ok (cs @ [c]) (abs_store D (files w))"
    and "paths_ok (getServerPaths (interp w))"
    and "list_all2 (asks (getServerPaths (interp w)) l) (cs @ [c]) reqs"
    and "map_at (crud_paths (getServerPaths (interp w))) l = dp"
  shows "last (fst (handle_all crud_handler reqs w))
    = Inr (spec_response c (snd (spec_run cs (abs_store D (files w)))))"
  using handle_all_refines [OF assms] by (auto simp: spec_run_snoc)

subsection \<open>A server to try the properties on\<close>

definition crud_files :: filesystem where
  "crud_files = \<lparr>nodes = [([], Directory), ([''crud''], Directory)], cwd = [],
     unreadable = (\<lambda>_. False), unwritable = (\<lambda>_. False), dir_end = - 1\<rparr>"

definition crud_world :: world where
  "crud_world = sample_world\<lparr>files := crud_files\<rparr>"

definition crud_request :: "verb \<Rightarrow> string \<Rightarrow> string \<Rightarrow> request" where
  "crud_request m t b = (get_request t)\<lparr>req_method := m, body := b\<rparr>"

lemma crud_files_node:
  "node crud_files p = (if p = [] \<or> p = [''crud''] then Some Directory else None)"
  by (simp add: crud_files_def node_def)

lemma crud_files_inv: "store_inv ''crud'' [''crud''] crud_files"
proof -
  have "locate crud_files ''crud'' = Some [''crud'']" by code_simp
  moreover have "fs_tree crud_files"
    unfolding fs_tree_def is_dir_def crud_files_node by auto
  ultimately have env: "store_env ''crud'' [''crud''] crud_files"
    unfolding store_env_def is_dir_def crud_files_node temp_path_def
    by (simp add: crud_files_def)
  have "id_at [''crud''] crud_files n = None" for n
    by (simp add: id_at_def max_text_def crud_files_node)
  then have "entity_inv [''crud''] crud_files n" for n
    by (simp add: entity_inv_def is_dir_def crud_files_node)
  with env show ?thesis by (simp add: store_inv_def)
qed

lemma crud_world_simps:
  "files crud_world = crud_files" "getServerPaths (interp crud_world) = sample_paths"
  by (simp_all add: crud_world_def sample_world_def getServerPaths_def)

lemma crud_world_unlocked: "\<not> entity_mutex crud_world"
  by (simp add: crud_world_def sample_world_def)

lemma crud_world_empty: "abs_store [''crud''] crud_files = Map.empty"
  by (rule ext) (simp add: abs_store_def is_dir_def crud_files_node)

lemma entity_ok_Shoes: "entity_ok ''Shoes''"
  by (simp add: entity_ok_def plain_name_def no_space_def is_space_def byte_def)

lemma routed_api: "CHR ''/'' # s = s' \<Longrightarrow> routed sample_paths (''/api'' @ s') ''/api'' CRUD"
  by (auto simp: routed_def longest_among_def request_candidates_def sample_paths_def)

subsection \<open>Properties\<close>

text \<open>
  C1: A run of well-formed requests below one CRUD location answers what the abstract store
  answers: every response, in order, and the objects and counters on the disk at the end. No
  request of the run raises an exception, and the invariant of the store holds afterwards.
\<close>

theorem crud_run_refines:
  assumes "store_inv dp D (files w)" and "ops_ok cs (abs_store D (files w))"
    and "paths_ok (getServerPaths (interp w))"
    and "list_all2 (asks (getServerPaths (interp w)) l) cs reqs"
    and "map_at (crud_paths (getServerPaths (interp w))) l = dp"
  shows "\<exists>w'. handle_all crud_handler reqs w = (map Inr (fst (spec_run cs (abs_store D (files w)))), w')
    \<and> store_inv dp D (files w')
    \<and> abs_store D (files w') = snd (spec_run cs (abs_store D (files w)))"
  using handle_all_refines [OF assms] by blast

lemma sample_asks:
  "asks sample_paths ''/api'' (Create_op ''Shoes'' ''red'') (crud_request Post ''/api/Shoes'' ''red'')"
  "asks sample_paths ''/api'' (Create_op ''Shoes'' ''blue'') (crud_request Post ''/api//Shoes/'' ''blue'')"
  "asks sample_paths ''/api'' (Update_op ''Shoes'' ''7'' ''red'') (crud_request Put ''/api/Shoes/7'' ''red'')"
  "asks sample_paths ''/api'' (Delete_op ''Shoes'' ''1'') (crud_request Delete ''/api/Shoes/1'' [])"
  "asks sample_paths ''/api'' (Retrieve_op ''Shoes'' ''7'') (crud_request Get ''/api/Shoes/7'' [])"
  "asks sample_paths ''/api'' (Retrieve_op ''Shoes'' ''1'') (crud_request Get ''/api/Shoes/1'' [])"
  "asks sample_paths ''/api'' (List_op ''Shoes'') (crud_request Get ''/api/Shoes'' [])"
proof -
  have n: "normalised_target ''/api/Shoes'' = Inr ''/api/Shoes''"
    "normalised_target ''/api//Shoes/'' = Inr ''/api/Shoes''"
    "normalised_target ''/api/Shoes/7'' = Inr ''/api/Shoes/7''"
    "normalised_target ''/api/Shoes/1'' = Inr ''/api/Shoes/1''"
    by code_simp+
  have r: "routed sample_paths ''/api/Shoes'' ''/api'' CRUD" "routed sample_paths ''/api/Shoes/7'' ''/api'' CRUD"
    "routed sample_paths ''/api/Shoes/1'' ''/api'' CRUD"
    using routed_api [OF refl, of "''Shoes''"] routed_api [OF refl, of "''Shoes/7''"]
      routed_api [OF refl, of "''Shoes/1''"] by simp_all
  show "asks sample_paths ''/api'' (Create_op ''Shoes'' ''red'') (crud_request Post ''/api/Shoes'' ''red'')"
    "asks sample_paths ''/api'' (Create_op ''Shoes'' ''blue'') (crud_request Post ''/api//Shoes/'' ''blue'')"
    "asks sample_paths ''/api'' (Update_op ''Shoes'' ''7'' ''red'') (crud_request Put ''/api/Shoes/7'' ''red'')"
    "asks sample_paths ''/api'' (Delete_op ''Shoes'' ''1'') (crud_request Delete ''/api/Shoes/1'' [])"
    "asks sample_paths ''/api'' (Retrieve_op ''Shoes'' ''7'') (crud_request Get ''/api/Shoes/7'' [])"
    "asks sample_paths ''/api'' (Retrieve_op ''Shoes'' ''1'') (crud_request Get ''/api/Shoes/1'' [])"
    "asks sample_paths ''/api'' (List_op ''Shoes'') (crud_request Get ''/api/Shoes'' [])"
    using n r by (simp_all add: asks_def op_suffix_def crud_request_def get_request_def)
qed

lemma sample_paths_api: "map_at (crud_paths sample_paths) ''/api'' = ''crud''"
  by (simp add: sample_paths_def map_at_def)

lemma plain_number: "plain_name ''7''" "plain_name ''1''" "stoull ''7'' = Inr 7"
  by (simp_all add: plain_name_def stoull_def scan_number_def strip_sign_def is_space_def
      is_digit_def byte_def digits_value_def digit_value_def Let_def)

theorem crud_run_refines_witness:
  "\<exists>w'. handle_all crud_handler
      [crud_request Post ''/api/Shoes'' ''red'', crud_request Get ''/api/Shoes'' []] crud_world
     = (map Inr (fst (spec_run [Create_op ''Shoes'' ''red'', List_op ''Shoes'']
          (abs_store [''crud''] (files crud_world)))), w')
    \<and> store_inv ''crud'' [''crud''] (files w')
    \<and> abs_store [''crud''] (files w') =
        snd (spec_run [Create_op ''Shoes'' ''red'', List_op ''Shoes''] (abs_store [''crud''] (files crud_world)))"
  by (rule crud_run_refines [of _ _ _ _ "''/api''"])
    (simp_all add: crud_world_simps crud_files_inv sample_paths_ok sample_paths_api sample_asks
      crud_world_empty entity_ok_Shoes next_number_def)

text \<open>
  C14: POSTs of one entity get the next numbers one after another, so all different; every
  object holds the body that was posted under its number, and every object that was stored
  before is unchanged: a POST never overwrites.
\<close>

theorem crud_posts_fresh:
  assumes "store_inv dp D (files w)" and "paths_ok (getServerPaths (interp w))"
    and "map_at (crud_paths (getServerPaths (interp w))) l = dp"
    and "entity_ok n" and "list_all2 (asks (getServerPaths (interp w)) l) (map (Create_op n) ts) reqs"
    and "unat (next_number n (abs_store D (files w))) + length ts < 2 ^ 64"
  shows "\<exists>w' ids. handle_all crud_handler reqs w =
        (map (\<lambda>i. Inr (text_response Created ''text/plain'' (id_json i))) ids, w')
    \<and> ids = map (\<lambda>j. to_string_u64 (next_number n (abs_store D (files w)) + of_nat j)) [0..<length ts]
    \<and> distinct ids
    \<and> (\<forall>j < length ts. lookup_object n (ids ! j) (abs_store D (files w')) = Some (ts ! j))
    \<and> (\<forall>m i. lookup_object m i (abs_store D (files w)) \<noteq> None \<longrightarrow>
          lookup_object m i (abs_store D (files w')) = lookup_object m i (abs_store D (files w)))"
proof -
  let ?S = "abs_store D (files w)" and ?cs = "map (Create_op n) ts"
  let ?v = "next_number n ?S"
  let ?ids = "map (\<lambda>j. to_string_u64 (?v + of_nat j)) [0..<length ts]"
  have c: "counters_ok ?S" using store_counters_ok [OF assms(1)] .
  note run = creates_run [OF c assms(6,4)]
  obtain w' where h: "handle_all crud_handler reqs w = (map Inr (fst (spec_run ?cs ?S)), w')"
    and a: "abs_store D (files w') = snd (spec_run ?cs ?S)"
    using handle_all_refines [OF assms(1) _ assms(2,5,3)] run by blast
  have "j = k" if "j < length ts" "k < length ts" "(of_nat j :: 64 word) = of_nat k" for j k
    by (rule of_nat_below_64 [OF _ _ that(3)]) (use that assms(6) in simp_all)
  then have d: "distinct ?ids" by (auto simp: distinct_map inj_on_def)
  have keep: "lookup_object m i (snd (spec_run ?cs ?S)) = lookup_object m i ?S"
    if "lookup_object m i ?S \<noteq> None" for m i
    using stored_reached [OF assms(1) that] lookup_run [OF c, of ?cs m _ i] run by auto
  show ?thesis
    using h a run d keep by (intro exI [of _ w'] exI [of _ ?ids]) (simp add: comp_def)
qed


theorem crud_posts_fresh_witness:
  "\<exists>w' ids. handle_all crud_handler
        [crud_request Post ''/api/Shoes'' ''red'', crud_request Post ''/api//Shoes/'' ''blue''] crud_world =
        (map (\<lambda>i. Inr (text_response Created ''text/plain'' (id_json i))) ids, w')
    \<and> ids = map (\<lambda>j. to_string_u64 (next_number ''Shoes'' (abs_store [''crud''] (files crud_world)) + of_nat j))
              [0..<length [''red'', ''blue'']]
    \<and> distinct ids
    \<and> (\<forall>j < length [''red'', ''blue'']. lookup_object ''Shoes'' (ids ! j) (abs_store [''crud''] (files w')) = Some ([''red'', ''blue''] ! j))
    \<and> (\<forall>m i. lookup_object m i (abs_store [''crud''] (files crud_world)) \<noteq> None \<longrightarrow>
          lookup_object m i (abs_store [''crud''] (files w')) = lookup_object m i (abs_store [''crud''] (files crud_world)))"
  by (rule crud_posts_fresh [of "''crud''" _ _ "''/api''"])
    (simp_all add: crud_world_simps crud_files_inv sample_paths_ok sample_paths_api sample_asks
      crud_world_empty entity_ok_Shoes next_number_def)

text \<open>
  C17: What a PUT wrote, a later GET of the same object returns, with 200, whatever requests come
  between, as long as none of them is a PUT or a DELETE of that object. A POST between them cannot
  hit it.
\<close>

theorem crud_put_get:
  assumes "store_inv dp D (files w)" and "paths_ok (getServerPaths (interp w))"
    and "map_at (crud_paths (getServerPaths (interp w))) l = dp"
    and "ops_ok (Update_op n i t # cs @ [Retrieve_op n i]) (abs_store D (files w))"
    and "list_all2 (asks (getServerPaths (interp w)) l) (Update_op n i t # cs @ [Retrieve_op n i]) reqs"
    and "\<forall>c \<in> set cs. \<not> overwrites n i c"
  shows "last (fst (handle_all crud_handler reqs w)) = Inr (text_response Ok ''application/json'' t)"
proof -
  let ?S = "abs_store D (files w)"
  obtain k where k: "stoull i = Inr k" using assms(4) by (auto split: sum.splits)
  let ?S1 = "insert_object n i k t ?S"
  have ok: "op_ok (Update_op n i t) ?S" "ops_ok cs ?S1"
    using assms(4) k by (simp_all add: ops_ok_snoc)
  have "counters_ok ?S1"
    using counters_ok_step [OF store_counters_ok [OF assms(1)] ok(1)] k by simp
  then have "lookup_object n i (snd (spec_run cs ?S1)) = Some t"
    using lookup_run [OF _ ok(2) reached_written k assms(6)] by (simp add: lookup_insert)
  moreover have "last (fst (handle_all crud_handler reqs w)) =
      Inr (spec_response (Retrieve_op n i) (snd (spec_run cs (spec_store (Update_op n i t) ?S))))"
    using handle_all_last [OF assms(1) assms(4) [folded append_Cons] assms(2) assms(5) [folded append_Cons] assms(3)]
    unfolding spec_run_Cons_snd .
  ultimately show ?thesis using k by simp
qed

theorem crud_put_get_witness:
  "last (fst (handle_all crud_handler
      [crud_request Put ''/api/Shoes/7'' ''red'', crud_request Post ''/api//Shoes/'' ''blue'',
       crud_request Get ''/api/Shoes/7'' []] crud_world)) = Inr (text_response Ok ''application/json'' ''red'')"
  by (rule crud_put_get [of "''crud''" "[''crud'']" _ "''/api''" "''Shoes''" "''7''" _ "[Create_op ''Shoes'' ''blue'']"])
    (simp_all add: crud_world_simps crud_files_inv sample_paths_ok sample_paths_api sample_asks
      crud_world_empty entity_ok_Shoes plain_number next_number_def insert_object_def)

text \<open>The sample server after one POST.\<close>

definition crud_world1 :: world where
  "crud_world1 = snd (crud_handler (crud_request Post ''/api/Shoes'' ''red'') crud_world)"

lemma crud_world1_store:
  "store_inv ''crud'' [''crud''] (files crud_world1)"
  "getServerPaths (interp crud_world1) = sample_paths"
  "abs_store [''crud''] (files crud_world1) =
     [''Shoes'' \<mapsto> \<lparr>counter = 1, objects = [''1'' \<mapsto> ''red'']\<rparr>]"
proof -
  obtain w' where w': "crud_handler (crud_request Post ''/api/Shoes'' ''red'') crud_world =
      (Inr (spec_response (Create_op ''Shoes'' ''red'') Map.empty), w')"
    and inv: "store_inv ''crud'' [''crud''] (files w')" "interp w' = interp crud_world"
      "abs_store [''crud''] (files w') = spec_store (Create_op ''Shoes'' ''red'') Map.empty"
    using crud_handler_refines [of "''crud''" "[''crud'']" crud_world "Create_op ''Shoes'' ''red''" "''/api''"
        "crud_request Post ''/api/Shoes'' ''red''"]
    by (auto simp: crud_world_simps crud_files_inv sample_paths_ok sample_paths_api sample_asks
        crud_world_empty entity_ok_Shoes next_number_def)
  have "crud_world1 = w'" by (simp add: crud_world1_def w')
  with inv show "store_inv ''crud'' [''crud''] (files crud_world1)"
    "getServerPaths (interp crud_world1) = sample_paths"
    "abs_store [''crud''] (files crud_world1) =
       [''Shoes'' \<mapsto> \<lparr>counter = 1, objects = [''1'' \<mapsto> ''red'']\<rparr>]"
    by (simp_all add: crud_world_simps insert_object_def next_number_def next_id_def)
qed

lemma crud_world1_lookup: "lookup_object ''Shoes'' ''1'' (abs_store [''crud''] (files crud_world1)) \<noteq> None"
  by (simp add: crud_world1_store lookup_object_def)

text \<open>
  C19: After a DELETE of an object a GET answers 404, whatever requests come between, as long as
  none is a PUT of that object: no POST brings a deleted object back, and it may be deleted again.
\<close>

theorem crud_delete_get:
  assumes "store_inv dp D (files w)" and "paths_ok (getServerPaths (interp w))"
    and "map_at (crud_paths (getServerPaths (interp w))) l = dp"
    and "lookup_object n i (abs_store D (files w)) \<noteq> None"
    and "ops_ok (Delete_op n i # cs @ [Retrieve_op n i]) (abs_store D (files w))"
    and "list_all2 (asks (getServerPaths (interp w)) l) (Delete_op n i # cs @ [Retrieve_op n i]) reqs"
    and "\<forall>t. Update_op n i t \<notin> set cs"
  shows "last (fst (handle_all crud_handler reqs w)) =
      Inr (text_response Not_found ''text/plain'' (''404 Not Found'' @ CRLF @ CRLF))"
proof -
  let ?S = "abs_store D (files w)"
  let ?S1 = "remove_object n i ?S"
  obtain k where k: "stoull i = Inr k" and r: "reached n k ?S"
    using stored_reached [OF assms(1,4)] by blast
  have ok: "op_ok (Delete_op n i) ?S" "ops_ok cs ?S1"
    using assms(5) by (simp_all add: ops_ok_snoc)
  have c1: "counters_ok ?S1" and r1: "reached n k ?S1"
    using counters_ok_step [OF store_counters_ok [OF assms(1)] ok(1)] reached_step [OF r, of "Delete_op n i"]
    by simp_all
  have "lookup_object n i (snd (spec_run cs ?S1)) = None"
    by (rule absent_run [OF c1 ok(2) r1 k assms(7)]) (simp add: lookup_remove)
  moreover have "last (fst (handle_all crud_handler reqs w)) =
      Inr (spec_response (Retrieve_op n i) (snd (spec_run cs (spec_store (Delete_op n i) ?S))))"
    using handle_all_last [OF assms(1) assms(5) [folded append_Cons] assms(2) assms(6) [folded append_Cons] assms(3)]
    unfolding spec_run_Cons_snd .
  ultimately show ?thesis by simp
qed

theorem crud_delete_get_witness:
  "last (fst (handle_all crud_handler
      [crud_request Delete ''/api/Shoes/1'' [], crud_request Post ''/api//Shoes/'' ''blue'',
       crud_request Delete ''/api/Shoes/1'' [], crud_request Get ''/api/Shoes/1'' []] crud_world1)) =
     Inr (text_response Not_found ''text/plain'' (''404 Not Found'' @ CRLF @ CRLF))"
  by (rule crud_delete_get [of "''crud''" "[''crud'']" _ "''/api''" "''Shoes''" "''1''" "[Create_op ''Shoes'' ''blue'', Delete_op ''Shoes'' ''1'']"])
    (simp_all add: crud_world1_store crud_world1_lookup sample_paths_ok sample_paths_api sample_asks
      entity_ok_Shoes plain_number next_number_def remove_object_def
      lookup_object_def)



text \<open>
  C27: Writing an object succeeds and changes only four entries of the file system: the object's
  file, the entity's directory, the counter file and the temporary file; the mutex is released.
\<close>

theorem writeObject_frame:
  assumes "store_inv dp D (files w)" and "\<not> entity_mutex w" and "entity_ok n" and "plain_name i"
    and "stoull i = Inr k"
  shows "\<exists>w'. writeObject \<lparr>data_path = dp, entity_name = n, entity_id = i\<rparr> t w = (Inr True, w')
    \<and> node (files w') (D @ [n, i]) = Some (Regular t) \<and> is_dir (files w') (D @ [n])
    \<and> (\<forall>q. q \<notin> {D @ [n, i], D @ [n], D @ [''maxEntityIds''], temp_path (files w)} \<longrightarrow>
          node (files w') q = node (files w) q)
    \<and> \<not> entity_mutex w'"
proof -
  let ?p = "\<lparr>data_path = dp, entity_name = n, entity_id = i\<rparr>"
  obtain w' where w': "writeObject ?p t w = (Inr True, w')" "same_but_logs (wfiles (files w') w) w'"
    and wr: "wrote dp D n i k t (files w) (files w')"
    using writeObject_wrote [OF assms(1-3) _ _ _ assms(4,5), of ?p] by auto
  have "node (files w') (D @ [n, i]) = Some (Regular t)" "is_dir (files w') (D @ [n])"
    using wrote_nodes [OF wr assms(1,3)] by (simp_all add: is_dir_def)
  moreover have "\<not> entity_mutex w'" using w'(2) assms(2) by (simp add: same_but_logs_def)
  ultimately show ?thesis using w' wr by (intro exI [of _ w']) (simp add: wrote_def)
qed

theorem writeObject_frame_witness:
  "\<exists>w'. writeObject \<lparr>data_path = ''crud'', entity_name = ''Shoes'', entity_id = ''7''\<rparr> ''red'' crud_world = (Inr True, w')
    \<and> node (files w') ([''crud''] @ [''Shoes'', ''7'']) = Some (Regular ''red'') \<and> is_dir (files w') ([''crud''] @ [''Shoes''])
    \<and> (\<forall>q. q \<notin> {[''crud''] @ [''Shoes'', ''7''], [''crud''] @ [''Shoes''], [''crud''] @ [''maxEntityIds''],
            temp_path (files crud_world)} \<longrightarrow>
          node (files w') q = node (files crud_world) q)
    \<and> \<not> entity_mutex w'"
  by (rule writeObject_frame [of _ _ _ _ _ 7])
    (simp_all add: crud_world_simps crud_files_inv entity_ok_Shoes plain_number crud_world_unlocked)

text \<open>
  C35: A request the CRUD handler has no meaning for (another method, no entity, a POST with an
  identifier, a PUT or DELETE without one) is answered with 400, and no file changes.
\<close>

theorem crud_malformed_refused:
  assumes "fst (getCrudEntityPath req w) = Inr path"
    and "req_method req \<notin> {Get, Post, Put, Delete} \<or> entity_name path = []
      \<or> (req_method req = Post \<and> entity_id path \<noteq> [])
      \<or> (req_method req \<in> {Put, Delete} \<and> entity_id path = [])"
  shows "\<exists>r. fst (crud_handler req w) = Inr r \<and> result r = Bad_request \<and> framed r
    \<and> files (snd (crud_handler req w)) = files w"
proof -
  obtain w1 where g: "getCrudEntityPath req (wlock False w) = (Inr path, w1)" and f: "files w1 = files w"
  proof -
    have "fst (getCrudEntityPath req (wlock False w)) = fst (getCrudEntityPath req w)"
      by (simp add: getCrudEntityPath_def Let_def split: sum.split)
    moreover have "files (snd (getCrudEntityPath req (wlock False w))) = files w"
      using getCrudEntityPath_same [of "wlock False w" req] by (simp add: same_but_logs_def)
    ultimately show thesis
      using assms(1) that by (cases "getCrudEntityPath req (wlock False w)") simp
  qed
  show ?thesis
    using assms(2) g f
    by (cases "req_method req")
      (auto simp: crud_handler_def crud_handle_request_def handle_post_def handle_put_def handle_del_def bad_request_def)
qed

theorem crud_malformed_refused_witness:
  "\<exists>r. fst (crud_handler (crud_request Post ''/api/Shoes/7'' ''red'') crud_world) = Inr r
    \<and> result r = Bad_request \<and> framed r
    \<and> files (snd (crud_handler (crud_request Post ''/api/Shoes/7'' ''red'') crud_world)) = files crud_world"
proof (rule crud_malformed_refused)
  show "fst (getCrudEntityPath (crud_request Post ''/api/Shoes/7'' ''red'') crud_world) =
      Inr \<lparr>data_path = ''crud'', entity_name = ''Shoes'', entity_id = ''7''\<rparr>"
    by code_simp
qed (simp add: crud_request_def)

subsection \<open>Where the handler does not do what it should\<close>

text \<open>A PUT whose identifier is not a number leaves with an exception nothing catches.\<close>

lemma put_word_throws:
  "fst (crud_handler (crud_request Put ''/api/Shoes/red'' ''x'') crud_world) = Inl Invalid_argument"
  by code_simp

text \<open>A PUT below an object that does not exist answers 201 although nothing was written.\<close>

lemma put_nested_lies:
  "fst (crud_handler (crud_request Put ''/api/Shoes/1/2'' ''x'') crud_world) =
     Inr (text_response Created ''text/plain'' (id_json ''1/2''))"
  "exists_path (files (snd (crud_handler (crud_request Put ''/api/Shoes/1/2'' ''x'') crud_world)))
     ''crud/Shoes/1/2'' = False"
  by code_simp+

text \<open>
  The segment \<open>..\<close> is an entity like any other, so a GET reads files outside the data directory.
\<close>

definition secret_world :: world where
  "secret_world = crud_world\<lparr>files := crud_files\<lparr>nodes := ([''key''], Regular ''secret'') # nodes crud_files\<rparr>\<rparr>"

lemma get_escapes_directory:
  "fst (crud_handler (crud_request Get ''/api/../key'' []) secret_world) =
     Inr (text_response Ok ''application/json'' ''secret'')"
  by code_simp

text \<open>A DELETE removes it. A location that ends inside a component lets the two dots hide behind a letter.\<close>

lemma delete_escapes_directory:
  "open_read (files secret_world) ''key'' = Some (Regular ''secret'')"
  "open_read (files (snd (crud_handler (crud_request Delete ''/api/../key'' []) secret_world))) ''key'' = None"
  "open_read (files (snd (crud_handler (crud_request Delete ''/apix../key'' []) secret_world))) ''key'' = None"
  by code_simp+

text \<open>
  The counter line of the entity \<open>a:b\<close> begins with \<open>a:\<close>, so afterwards no object of the entity
  \<open>a\<close> can be created.
\<close>

lemma colon_entity_blocks:
  "fst (handle_all crud_handler
      [crud_request Post ''/api/a:b'' ''x'', crud_request Post ''/api/a'' ''y''] crud_world) =
     [Inr (text_response Created ''text/plain'' (id_json ''1'')), Inl Invalid_argument]"
  by code_simp

text \<open>
  An entity directory without a counter line (for example one the administrator made): every POST
  gets the identifier 1 and overwrites the object before it.
\<close>

definition bare_world :: world where
  "bare_world = crud_world\<lparr>files := crud_files\<lparr>nodes := ([''crud'', ''Shoes''], Directory) # nodes crud_files\<rparr>\<rparr>"

lemma bare_directory_overwrites:
  "fst (handle_all crud_handler
      [crud_request Post ''/api/Shoes'' ''x'', crud_request Post ''/api/Shoes'' ''y'',
       crud_request Get ''/api/Shoes/1'' []] bare_world) =
     [Inr (text_response Created ''text/plain'' (id_json ''1'')),
      Inr (text_response Created ''text/plain'' (id_json ''1'')),
      Inr (text_response Ok ''application/json'' ''y'')]"
  by code_simp

text \<open>After a PUT with the identifier \<open>2 ^ 64 - 1\<close> the next identifier is 0.\<close>

lemma counter_wraps:
  assumes "store_env dp D (files w)" and "\<not> entity_mutex w"
    and "data_path p = dp" "entity_name p = n" and "id_at D (files w) n = Some (Inr (- 1))"
  shows "fst (generateEntityId p w) = Inr ''0''"
proof -
  have "to_string_u64 0 = ''0''" by code_simp
  with generateEntityId_effect [OF assms(1-4)] assms(5) show ?thesis by auto
qed

text \<open>
  Every request makes a handler, a file manager and a mutex of its own, so the mutex keeps no two
  requests apart: two POSTs that both generate before either writes get the same identifier.
\<close>

lemma concurrent_posts_collide:
  assumes "store_inv dp D (files w)" and "entity_ok n"
    and "data_path p = dp" "entity_name p = n"
  shows "fst (generateEntityId p (wlock False (snd (generateEntityId p (wlock False w)))))
    = fst (generateEntityId p (wlock False w))"
proof -
  obtain w1 where w1: "generateEntityId p (wlock False w) = (Inr (next_id n (abs_store D (files w))), w1)"
      "store_inv dp D (files w1)" "abs_store D (files w1) = abs_store D (files w)"
    using generate_refines [of dp D "wlock False w" n p] assms by auto
  then show ?thesis
    using generate_refines [of dp D "wlock False w1" n p] assms by auto
qed

end
