(* ===== verification/Basic_Handlers.thy ===== *)
theory Basic_Handlers
  imports Crud_Handler
begin

text \<open>
  The small handlers (\<open>echo_handler.cc\<close>, \<open>health_handler.cc\<close>, \<open>sleep_handler.cc\<close>,
  \<open>not_found_handler.cc\<close>, \<open>static_handler.cc\<close>) and the interface they share,
  \<open>RequestHandler::handle_request\<close>, as the locale \<open>request_handler\<close>: a handler's response is
  framed, the configuration is left alone, and the log is only added to. Every handler is shown to keep that contract.
\<close>

subsection \<open>Echo\<close>

definition echo_head :: "request \<Rightarrow> string" where
  "echo_head req =
     method_string req @ '' '' @ target req @ '' '' @ ''HTTP/''
       @ digits_str (version req div 10) @ ''.'' @ digits_str (version req mod 10) @ CRLF"

definition echo_field :: "string \<times> string \<Rightarrow> string" where
  "echo_field nv = fst nv @ '': '' @ snd nv @ CRLF"

definition echo_text :: "request \<Rightarrow> string" where
  "echo_text req = echo_head req @ concat (map echo_field (header_fields req)) @ CRLF @ body req"

text \<open>\<open>int content_length = response_body.size()\<close> keeps the low 32 bits, as a signed number.\<close>

definition to_int32 :: "nat \<Rightarrow> int" where
  "to_int32 n = (int n + 2 ^ 31) mod 2 ^ 32 - 2 ^ 31"

definition echo_handle_request :: "request \<Rightarrow> world \<Rightarrow> response result \<times> world" where
  "echo_handle_request req w =
     (let response_body = echo_text req
      in (Inr (set_field Content_length (to_string_int (to_int32 (length response_body)))
                (set_field Content_type ''text/plain'' (new_response Ok (version req) response_body))), w))"

subsection \<open>Health, sleep, not found\<close>

definition health_handle_request :: "request \<Rightarrow> world \<Rightarrow> response result \<times> world" where
  "health_handle_request req w = (Inr (text_response Ok ''text/plain'' []), w)"

definition wsleep :: "nat \<Rightarrow> world \<Rightarrow> world" where
  "wsleep ms w = w\<lparr>slept_ms := slept_ms w + ms\<rparr>"

definition sleep_handle_request :: "request \<Rightarrow> world \<Rightarrow> response result \<times> world" where
  "sleep_handle_request req w =
     (Inr (text_response Ok ''text/plain'' []),
      wlog INFO ''Now awake'' (wsleep 1000 (wlog INFO ''Going to sleep'' w)))"

definition not_found_handle_request :: "request \<Rightarrow> world \<Rightarrow> response result \<times> world" where
  "not_found_handle_request req w =
     (Inr (text_response Not_found ''text/plain'' (''404 Not Found'' @ CRLF @ CRLF)), w)"

subsection \<open>Static files\<close>

text \<open>\<open>file_path.find_last_of(\<open>.\<close>)\<close> for one character.\<close>

fun find_last_of :: "char \<Rightarrow> string \<Rightarrow> nat option" where
  "find_last_of c [] = None"
| "find_last_of c (d # s) =
     (case find_last_of c s of
        Some i \<Rightarrow> Some (Suc i)
      | None \<Rightarrow> (if d = c then Some 0 else None))"

definition get_response_content_type :: "string \<Rightarrow> world \<Rightarrow> string result \<times> world" where
  "get_response_content_type file_path w =
     (case find_last_of (CHR ''.'') file_path of
        None \<Rightarrow> (Inr [], wlog ERROR ''No file extension found'' w)
      | Some extension_pos \<Rightarrow>
          (case substr1 file_path extension_pos of
             Inl e \<Rightarrow> (Inl e, w)
           | Inr extension \<Rightarrow>
               (if extension = ''.jpeg'' \<or> extension = ''.jpg'' then (Inr ''image/jpeg'', w)
                else if extension = ''.html'' then (Inr ''text/html'', w)
                else if extension = ''.txt'' then (Inr ''text/plain'', w)
                else if extension = ''.zip'' then (Inr ''application/zip'', w)
                else (Inr [], wlog ERROR ''File extension type not supported'' w))))"

text \<open>
  \<open>tellg\<close> after \<open>seekg(0, end)\<close>: the length of a regular file; for a directory, which opens too,
  what the system answers (\<open>dir_end\<close>). A vector of a negative size is \<open>bad_alloc\<close>; reading a
  directory fails and leaves the zeros the vector was made with.
\<close>

definition file_end :: "filesystem \<Rightarrow> fnode \<Rightarrow> int" where
  "file_end f n = (case n of Regular s \<Rightarrow> int (length s) | Directory \<Rightarrow> dir_end f)"

definition file_bytes :: "string \<Rightarrow> fnode \<Rightarrow> int \<Rightarrow> world \<Rightarrow> string \<times> world" where
  "file_bytes failure n file_size w =
     (case n of
        Regular s \<Rightarrow> (s, w)
      | Directory \<Rightarrow>
          (replicate (nat file_size) (CHR 0x00),
           if file_size = 0 then w else wlog ERROR failure w))"

definition static_handle_request :: "request \<Rightarrow> world \<Rightarrow> response result \<times> world" where
  "static_handle_request req w =
     (if req_method req \<noteq> Get
      then (Inr (prepare_payload
                  (new_response Bad_request 11 (''Invalid HTTP method, expected GET'' @ CRLF @ CRLF))),
            wlog ERROR ''Invalid HTTP method, expected GET'' w)
      else case getStaticFilePath req w of
        (Inl e, w1) \<Rightarrow> (Inl e, w1)
      | (Inr file_path, w1) \<Rightarrow>
          (case open_read (files w1) file_path of
             None \<Rightarrow>
               (Inr (prepare_payload (new_response Not_found 11 [])), wlog ERROR ''File not found'' w1)
           | Some n \<Rightarrow>
               (let file_size = file_end (files w1) n;
                    w2 = wlog INFO (''Obtained file size of '' @ to_string_int file_size)
                           (wlog INFO ''File found'' w1)
                in case get_response_content_type file_path w2 of
                     (Inl e, w3) \<Rightarrow> (Inl e, w3)
                   | (Inr response_content_type, w3) \<Rightarrow>
                       (if response_content_type = []
                        then (Inr (prepare_payload (new_response Not_found 11 [])),
                              wlog ERROR ''Unsupported file type'' w3)
                        else if file_size < 0 then (Inl Length_error, w3)
                        else (let (res, w4) = file_bytes ''Failed to read file'' n file_size w3
                              in (Inr (set_field Content_length (digits_str (length res))
                                        (set_field Content_type response_content_type
                                          (new_response Ok 11 res))), w4))))))"

subsection \<open>The contract of a handler\<close>

locale request_handler =
  fixes handle :: "request \<Rightarrow> world \<Rightarrow> response result \<times> world"
  assumes framed_law: "length (echo_text req) < 2 ^ 31 \<Longrightarrow> fst (handle req w) = Inr r \<Longrightarrow> framed r"
    and keeps_law: "keeps w (snd (handle req w))"
begin

lemma interp_law: "interp (snd (handle req w)) = interp w"
  using keeps_law by (rule keeps_interp)

text \<open>A handler that is called for one request after another keeps the configuration and what is logged throughout.\<close>

lemma keeps_all: "keeps w (snd (handle_all handle reqs w))"
proof (induction reqs arbitrary: w)
  case (Cons req reqs)
  have "keeps w (snd (handle req w))" by (rule keeps_law)
  from keeps_trans [OF this Cons.IH] show ?case by (simp add: split_beta)
qed simp

lemma framed_all:
  "\<forall>req \<in> set reqs. length (echo_text req) < 2 ^ 31 \<Longrightarrow>
    Inr r \<in> set (fst (handle_all handle reqs w)) \<Longrightarrow> framed r"
  using framed_law by (induction reqs arbitrary: w) (auto simp: split_beta)

end

lemma framed_set_both: "framed (set_field Content_length (digits_str (length b))
    (set_field Content_type c (new_response st v b)))"
  by (simp add: framed_def set_field_def new_response_def)

lemma to_int32_small: "n < 2 ^ 31 \<Longrightarrow> to_string_int (to_int32 n) = digits_str n"
  by (simp add: to_int32_def to_string_int_def)

interpretation echo: request_handler echo_handle_request
  by unfold_locales (auto simp: echo_handle_request_def Let_def to_int32_small framed_set_both)

interpretation health: request_handler health_handle_request
  by unfold_locales (auto simp: health_handle_request_def)

lemma keeps_wsleep [simp]: "keeps w (wsleep ms w') \<longleftrightarrow> keeps w w'"
  by (simp add: keeps_def wsleep_def)

lemma wsleep_frame [simp, frame_simps]:
  "files (wsleep ms w) = files w" "interp (wsleep ms w) = interp w" "logs (wsleep ms w) = logs w"
  "slept_ms (wsleep ms w) = slept_ms w + ms" "entity_mutex (wsleep ms w) = entity_mutex w"
  by (simp_all add: wsleep_def)

interpretation sleep: request_handler sleep_handle_request
  by unfold_locales (auto simp: sleep_handle_request_def)

interpretation not_found: request_handler not_found_handle_request
  by unfold_locales (auto simp: not_found_handle_request_def)

lemma content_type_same: "same_but_logs w (snd (get_response_content_type p w))"
  by (simp add: get_response_content_type_def split: option.split sum.split)

lemma file_bytes_same: "same_but_logs w (snd (file_bytes m n k w))"
  by (simp add: file_bytes_def split: fnode.split)

lemma static_same: "same_but_logs w (snd (static_handle_request req w))"
proof -
  obtain r1 w1 where g: "getStaticFilePath req w = (r1, w1)" by (cases "getStaticFilePath req w")
  have s1: "same_but_logs w w1" using getStaticFilePath_same [of w req] g by simp
  have ct: "same_but_logs w w3" if "get_response_content_type p (wlog a b (wlog c d w1)) = (r, w3)" for p a b c d r w3
    using same_but_logs_trans [OF _ content_type_same [of "wlog a b (wlog c d w1)" p]] that s1 by simp
  have fb: "same_but_logs w w4" if "file_bytes m n k w3 = (x, w4)" "same_but_logs w w3" for m n k w3 x w4
    using file_bytes_same [of w3 m n k] that by (auto intro: same_but_logs_trans)
  show ?thesis
    using s1 unfolding static_handle_request_def g Let_def
    by (auto split: sum.split option.split prod.split dest: ct fb)
qed

interpretation static: request_handler static_handle_request
proof unfold_locales
  fix req w r
  assume r: "fst (static_handle_request req w) = Inr r"
  show "framed r"
    using r unfolding static_handle_request_def Let_def
    by (auto simp: framed_set_both split: sum.splits option.splits prod.splits if_splits)
next
  show "keeps w (snd (static_handle_request req w))" for req w
    using static_same by (rule same_but_logs_keeps)
qed

text \<open>
  The file manager leaves the configuration alone and only adds to the log, whatever the files are.
\<close>

lemma keeps_snd: "(\<And>w. keeps w (snd (f w))) \<Longrightarrow> keeps w0 w \<Longrightarrow> keeps w0 (snd (f w))"
  using keeps_trans by blast

lemma ensure_directory_keeps [simp]: "keeps w0 w \<Longrightarrow> keeps w0 (ensure_directory sev d w)"
  by (simp add: ensure_directory_def Let_def split: prod.split bool.split)

lemma generateEntityId_keeps [simp]: "keeps w0 w \<Longrightarrow> keeps w0 (snd (generateEntityId p w))"
  by (simp add: generateEntityId_def Let_def split: option.split sum.split)

lemma writeEntityId_keeps [simp]:
  assumes "keeps w0 w"
  shows "keeps w0 (snd (writeEntityId p v w))"
proof -
  define w1 where "w1 = ensure_directory ERROR (data_path p) (wlock True w)"
  have "keeps w0 w1" using assms by (simp add: w1_def)
  then show ?thesis
    using assms unfolding writeEntityId_def Let_def w1_def [symmetric]
    by (simp add: prod.case_eq_if sum.case_eq_if split: bool.split)
qed

lemma new_entity_keeps [simp]:
  assumes "keeps w0 w"
  shows "keeps w0 (snd (new_entity p w))"
proof -
  have "keeps w0 w2" if "writeEntityId p 1 (wlog a b w) = (r, w2)" for a b r w2
    using writeEntityId_keeps [OF keeps_wlog [OF assms], of p 1 a b] that by simp
  with assms show ?thesis
    unfolding new_entity_def Let_def by (auto split: prod.split sum.split exn.split bool.split)
qed

lemma record_id_keeps [simp]: "keeps w0 w \<Longrightarrow> keeps w0 (snd (record_id p w))"
  unfolding record_id_def by (simp add: prod.case_eq_if sum.case_eq_if)

lemma writeObject_keeps [simp]: "keeps w0 w \<Longrightarrow> keeps w0 (snd (writeObject p t w))"
  unfolding writeObject_def Let_def by (simp add: prod.case_eq_if sum.case_eq_if split: bool.split)

lemma deleteObject_keeps [simp]: "keeps w0 w \<Longrightarrow> keeps w0 (snd (deleteObject p w))"
  by (simp add: deleteObject_def prod.case_eq_if sum.case_eq_if)

lemma readObject_keeps [simp]: "keeps w0 w \<Longrightarrow> keeps w0 (snd (readObject p w))"
  by (simp add: readObject_def split: option.split)

lemma listObjects_keeps [simp]: "keeps w0 w \<Longrightarrow> keeps w0 (snd (listObjects p w))"
  by (simp add: listObjects_def Let_def split: option.split)

lemma getCrudEntityPath_keeps [simp]: "keeps w0 w \<Longrightarrow> keeps w0 (snd (getCrudEntityPath req w))"
  by (rule keeps_snd [OF same_but_logs_keeps [OF getCrudEntityPath_same]])

lemmas crud_operations =
  handle_post_def handle_get_def handle_list_def handle_put_def handle_del_def CrudFileManager_def

lemma crud_keeps: "keeps w0 w \<Longrightarrow> keeps w0 (snd (crud_handle_request CrudFileManager req w))"
  unfolding crud_handle_request_def crud_operations Let_def
  by (simp add: prod.case_eq_if sum.case_eq_if option.case_eq_if)

lemma crud_framed:
  assumes "fst (crud_handle_request fm req w) = Inr r"
  shows "framed r"
proof -
  have post: "framed r" if "fst (handle_post fm p req w) = Inr r" for p w
    using that unfolding handle_post_def Let_def bad_request_def
    by (auto split: prod.splits sum.splits if_splits)
  have put: "framed r" if "fst (handle_put fm p req w) = Inr r" for p w
    using that unfolding handle_put_def Let_def bad_request_def
    by (auto split: prod.splits sum.splits if_splits)
  have get: "framed r" if "fst (handle_get fm p req w) = Inr r" for p w
    using that unfolding handle_get_def handle_list_def Let_def bad_request_def
    by (auto split: prod.splits option.splits if_splits)
  have del: "framed r" if "fst (handle_del fm p req w) = Inr r" for p w
    using that unfolding handle_del_def Let_def bad_request_def
    by (auto split: prod.splits if_splits)
  show ?thesis
    using assms unfolding crud_handle_request_def
    by (auto split: prod.splits sum.splits if_splits dest: post put get del)
qed

interpretation crud: request_handler crud_handler
  by unfold_locales (auto simp: crud_handler_def crud_keeps dest: crud_framed)

subsection \<open>An echo read back\<close>

text \<open>A reader of HTTP/1 heads, as a client would have one, to read the request from its echo.\<close>

fun take_line :: "string \<Rightarrow> string \<times> string" where
  "take_line [] = ([], [])"
| "take_line (c # s) =
     (if prefix CRLF (c # s) then ([], drop 2 (c # s))
      else (c # fst (take_line s), snd (take_line s)))"

definition cut_at :: "char \<Rightarrow> string \<Rightarrow> string \<times> string" where
  "cut_at c s = (takeWhile (\<lambda>d. d \<noteq> c) s, drop 1 (dropWhile (\<lambda>d. d \<noteq> c) s))"

definition read_field :: "string \<Rightarrow> string \<times> string" where
  "read_field l = (fst (cut_at (CHR '':'') l), drop 1 (snd (cut_at (CHR '':'') l)))"

lemma take_line_length: "length (snd (take_line s)) \<le> length s"
  by (induction s) auto

function read_fields :: "string \<Rightarrow> (string \<times> string) list \<times> string" where
  "read_fields s =
     (let (l, r) = take_line s
      in if l = [] then ([], r)
         else (let (fs, b) = read_fields r in (read_field l # fs, b)))"
  by pat_completeness auto
termination
proof (relation "measure length")
  fix s x l r
  assume x: "x = take_line s" "(l, r) = x" and l: "l \<noteq> []"
  then obtain c s' where "s = c # s'" by (cases s) auto
  with x l take_line_length [of s'] show "(r, s) \<in> measure length"
    by (auto split: if_splits)
qed simp

declare read_fields.simps [simp del]

definition read_echo ::
  "string \<Rightarrow> string \<times> string \<times> nat \<times> (string \<times> string) list \<times> string" where
  "read_echo s =
     (let (h, r) = take_line s;
          (m, h1) = cut_at (CHR '' '') h;
          (t, h2) = cut_at (CHR '' '') h1;
          (major, minor) = cut_at (CHR ''.'') (drop 5 h2);
          (fs, b) = read_fields r
      in (m, t, 10 * digits_value major + digits_value minor, fs, b))"

definition no_CR :: "string \<Rightarrow> bool" where
  "no_CR s \<longleftrightarrow> CHR 0x0D \<notin> set s"

definition echo_ok :: "request \<Rightarrow> bool" where
  "echo_ok req \<longleftrightarrow>
     no_CR (method_string req) \<and> no_CR (target req) \<and>
     CHR '' '' \<notin> set (method_string req) \<and> CHR '' '' \<notin> set (target req) \<and>
     (\<forall>(n, v) \<in> set (header_fields req). no_CR n \<and> no_CR v \<and> CHR '':'' \<notin> set n)"

lemma take_line_CRLF: "no_CR l \<Longrightarrow> take_line (l @ CRLF @ r) = (l, r)"
  by (induction l) (auto simp: no_CR_def CRLF_def)

lemma cut_at_append: "c \<notin> set a \<Longrightarrow> cut_at c (a @ c # b) = (a, b)"
  by (induction a) (auto simp: cut_at_def)

lemma digits_not: "d \<in> set (digits_str n) \<Longrightarrow> d \<noteq> CHR ''.'' \<and> d \<noteq> CHR 0x0D"
  using digits_str_digitD [of d n] by (auto simp: is_digit_def byte_def)

lemma read_field_echo: "CHR '':'' \<notin> set n \<Longrightarrow> read_field (n @ '': '' @ v) = (n, v)"
  using cut_at_append [of "CHR '':''" n "CHR '' '' # v"] by (simp add: read_field_def)

lemma read_fields_echo:
  "\<forall>(n, v) \<in> set fs. no_CR n \<and> no_CR v \<and> CHR '':'' \<notin> set n \<Longrightarrow>
    read_fields (concat (map echo_field fs) @ CRLF @ b) = (fs, b)"
proof (induction fs)
  case Nil
  have "take_line (CRLF @ b) = ([], b)" using take_line_CRLF [of "[]" b] by (simp add: no_CR_def)
  then show ?case by (subst read_fields.simps) simp
next
  case (Cons f fs)
  obtain n v where f: "f = (n, v)" by (cases f)
  let ?r = "concat (map echo_field fs) @ CRLF @ b"
  have ok: "no_CR (n @ '': '' @ v)" and n: "CHR '':'' \<notin> set n"
    using Cons.prems by (simp_all add: f no_CR_def)
  have "take_line ((n @ '': '' @ v) @ CRLF @ ?r) = (n @ '': '' @ v, ?r)"
    using take_line_CRLF [OF ok] by blast
  then have t: "take_line (concat (map echo_field (f # fs)) @ CRLF @ b) = (n @ '': '' @ v, ?r)"
    by (simp add: echo_field_def f)
  have "read_fields ?r = (fs, b)" using Cons by simp
  then show ?case
    using read_field_echo [OF n, of v] by (subst read_fields.simps) (simp only: t Let_def split_conv, simp add: f)
qed

lemma read_echo_head:
  assumes "echo_ok req"
  shows "take_line (echo_head req @ r) =
    (method_string req @ '' '' @ target req @ '' '' @ ''HTTP/'' @ digits_str (version req div 10)
       @ ''.'' @ digits_str (version req mod 10), r)"
proof -
  let ?l = "method_string req @ '' '' @ target req @ '' '' @ ''HTTP/'' @ digits_str (version req div 10)
       @ ''.'' @ digits_str (version req mod 10)"
  have "no_CR ?l" using assms digits_not by (auto simp: echo_ok_def no_CR_def)
  from take_line_CRLF [OF this, of r] show ?thesis by (simp add: echo_head_def)
qed

text \<open>
  C34: The echo loses nothing: from the body of the response a client reads back the request's
  method, target, version, fields in order and body. The fields must not hold a carriage return, which
  a parsed request never does.
\<close>

theorem echo_read_back:
  assumes "echo_ok req"
  shows "\<exists>r. fst (echo_handle_request req w) = Inr r \<and> result r = Ok \<and>
    read_echo (res_body r) =
      (method_string req, target req, version req, header_fields req, body req)"
proof -
  have m: "CHR '' '' \<notin> set (method_string req)" and t: "CHR '' '' \<notin> set (target req)"
    using assms by (simp_all add: echo_ok_def)
  let ?rest = "concat (map echo_field (header_fields req)) @ CRLF @ body req"
  let ?v = "digits_str (version req div 10) @ CHR ''.'' # digits_str (version req mod 10)"
  have dot: "CHR ''.'' \<notin> set (digits_str (version req div 10))" using digits_not by blast
  have fs: "read_fields ?rest = (header_fields req, body req)"
    using read_fields_echo assms by (simp add: echo_ok_def)
  have "read_echo (echo_text req) = (method_string req, target req, version req, header_fields req, body req)"
    using read_echo_head [OF assms, of ?rest] fs
      cut_at_append [OF m, of "target req @ CHR '' '' # ''HTTP/'' @ ?v"]
      cut_at_append [OF t, of "''HTTP/'' @ ?v"] cut_at_append [OF dot, of "digits_str (version req mod 10)"]
    by (simp add: read_echo_def echo_text_def)
  then show ?thesis
    by (simp add: echo_handle_request_def Let_def set_field_def new_response_def)
qed

definition echo_request :: request where
  "echo_request = \<lparr>req_method = Get, method_string = ''GET'', target = ''/echo'', version = 11,
     header_fields = [(''Host'', ''a:80''), (''Accept'', [])], body = ''x''\<rparr>"

theorem echo_read_back_witness:
  "\<exists>r. fst (echo_handle_request echo_request sample_world) = Inr r \<and> result r = Ok \<and>
    read_echo (res_body r) =
      (method_string echo_request, target echo_request, version echo_request,
       header_fields echo_request, body echo_request)"
  by (rule echo_read_back) (simp add: echo_ok_def echo_request_def no_CR_def)

subsection \<open>Static files are served as they are\<close>

text \<open>The content type by the end of the path, which the search for the last dot computes.\<close>

definition content_type_of :: "string \<Rightarrow> string" where
  "content_type_of path =
     (if suffix ''.jpeg'' path \<or> suffix ''.jpg'' path then ''image/jpeg''
      else if suffix ''.html'' path then ''text/html''
      else if suffix ''.txt'' path then ''text/plain''
      else if suffix ''.zip'' path then ''application/zip''
      else [])"

lemma find_last_of_None: "find_last_of c s = None \<longleftrightarrow> c \<notin> set s"
  by (induction s) (auto split: option.split)

lemma find_last_of_Some:
  "find_last_of c s = Some i \<Longrightarrow> \<exists>a e. s = a @ c # e \<and> c \<notin> set e \<and> length a = i"
proof (induction s arbitrary: i)
  case (Cons d s)
  show ?case
  proof (cases "find_last_of c s")
    case None
    with Cons.prems have "d = c" "i = 0" by (auto split: if_splits)
    with None find_last_of_None [of c s] show ?thesis by (intro exI [of _ "[]"] exI [of _ s]) simp
  next
    case (Some j)
    with Cons.IH obtain a e where "s = a @ c # e" "c \<notin> set e" "length a = j" by blast
    with Some Cons.prems show ?thesis by (intro exI [of _ "d # a"] exI [of _ e]) auto
  qed
qed simp

lemma suffix_last: "c \<notin> set e \<Longrightarrow> c \<notin> set x \<Longrightarrow> suffix (c # x) (a @ c # e) \<longleftrightarrow> x = e"
  by (auto simp: suffix_def append_eq_append_conv2 append_eq_Cons_conv Cons_eq_append_conv)

lemma content_type_correct: "fst (get_response_content_type path w) = Inr (content_type_of path)"
proof (cases "find_last_of (CHR ''.'') path")
  case None
  then have no: "CHR ''.'' \<notin> set path" by (simp add: find_last_of_None)
  have "\<not> suffix (CHR ''.'' # e) path" for e
    using no set_mono_suffix [of "CHR ''.'' # e" path] by auto
  with None show ?thesis by (simp add: get_response_content_type_def content_type_of_def)
next
  case (Some i)
  then obtain a e where p: "path = a @ CHR ''.'' # e" and e: "CHR ''.'' \<notin> set e" and i: "length a = i"
    using find_last_of_Some by blast
  have "substr1 path i = Inr (CHR ''.'' # e)" by (simp add: substr1_def p i [symmetric])
  moreover have "suffix (CHR ''.'' # x) path \<longleftrightarrow> e = x" if "CHR ''.'' \<notin> set x" for x
    using suffix_last [OF e that, of a] p by auto
  ultimately show ?thesis
    using Some by (simp add: get_response_content_type_def content_type_of_def)
qed

text \<open>
  C24: A GET that the dispatcher calls static, exactly. If the name of the file has one of the five
  extensions, a file is served with 200, its bytes and the content type of the extension; for a
  directory whose end is not known (\<open>tellg\<close> fails) the vector cannot be made and an exception leaves
  the handler, and otherwise as many zero bytes are sent (memory has no end here). Under any other
  name the answer is 404.
\<close>

theorem static_serves_file:
  assumes "paths_ok (getServerPaths (interp w))" and "target req \<noteq> []"
    and "fst (getRequestType req w) = Inr Static" and "req_method req = Get"
  shows "\<exists>path n. fst (getStaticFilePath req w) = Inr path \<and> open_read (files w) path = Some n \<and>
    (if content_type_of path \<noteq> [] \<and> n = Directory \<and> dir_end (files w) < 0
     then fst (static_handle_request req w) = Inl Length_error
     else \<exists>r. fst (static_handle_request req w) = Inr r \<and>
       (if content_type_of path = [] then result r = Not_found \<and> res_body r = []
        else result r = Ok \<and> (Content_type, content_type_of path) \<in> set (set_calls r) \<and>
          res_body r = (case n of Regular s \<Rightarrow> s
                        | Directory \<Rightarrow> replicate (nat (dir_end (files w))) (CHR 0x00))))"
proof -
  let ?p = "getServerPaths (interp w)"
  obtain t l where t: "normalised_target (target req) = Inr t" and l: "routed ?p t l Static"
    and s: "served_type (files w) ?p t l Static = Static"
    using getRequestType_is [OF assms(1-3)] by auto
  define path where "path = static_file ?p l t"
  from s obtain n where n: "open_read (files w) path = Some n"
    by (auto simp: served_type_def path_def split: if_splits)
  note g = getStaticFilePath_routed [OF assms(1) t l, folded path_def]
  obtain w1 where g1: "getStaticFilePath req w = (Inr path, w1)" using g by (metis prod.collapse)
  then have f: "files w1 = files w" using getStaticFilePath_same [of w req] by (simp add: same_but_logs_def)
  let ?w2 = "wlog INFO (''Obtained file size of '' @ to_string_int (file_end (files w) n)) (wlog INFO ''File found'' w1)"
  obtain w3 where c: "get_response_content_type path ?w2 = (Inr (content_type_of path), w3)"
    using content_type_correct [of path ?w2] by (metis prod.collapse)
  show ?thesis
  proof (cases n)
    case (Regular s)
    then show ?thesis
      using assms(4) g g1 f n c
      by (intro exI [of _ path] exI [of _ n]) (simp add: static_handle_request_def Let_def file_end_def file_bytes_def
          set_field_def new_response_def prepare_payload_def)
  next
    case Directory
    then show ?thesis
      using assms(4) g g1 f n c
      by (intro exI [of _ path] exI [of _ n]) (auto simp: static_handle_request_def Let_def file_end_def file_bytes_def
          set_field_def new_response_def prepare_payload_def)
  qed
qed

theorem static_serves_file_witness:
  "\<exists>path n. fst (getStaticFilePath (get_request ''/static/a.txt'') sample_world) = Inr path
    \<and> open_read (files sample_world) path = Some n \<and>
    (if content_type_of path \<noteq> [] \<and> n = Directory \<and> dir_end (files sample_world) < 0
     then fst (static_handle_request (get_request ''/static/a.txt'') sample_world) = Inl Length_error
     else \<exists>r. fst (static_handle_request (get_request ''/static/a.txt'') sample_world) = Inr r \<and>
       (if content_type_of path = [] then result r = Not_found \<and> res_body r = []
        else result r = Ok \<and> (Content_type, content_type_of path) \<in> set (set_calls r) \<and>
          res_body r = (case n of Regular s \<Rightarrow> s
                        | Directory \<Rightarrow> replicate (nat (dir_end (files sample_world))) (CHR 0x00))))"
proof (rule static_serves_file)
  show "paths_ok (getServerPaths (interp sample_world))"
    by (simp add: sample_world_def getServerPaths_def sample_paths_ok)
  show "target (get_request ''/static/a.txt'') \<noteq> []" "req_method (get_request ''/static/a.txt'') = Get"
    by (simp_all add: get_request_def)
  show "fst (getRequestType (get_request ''/static/a.txt'') sample_world) = Inr Static"
    by code_simp
qed

text \<open>
  The comment on the refusal says that a directory is refused there too. A directory whose name has
  one of the extensions is not: the exception leaves the handler.
\<close>

definition album_world :: world where
  "album_world = sample_world\<lparr>files := sample_files\<lparr>nodes := (case locate sample_files (map_at (static_paths sample_paths) ''/static'') of
       None \<Rightarrow> nodes sample_files
     | Some p \<Rightarrow> (p @ [''album.zip''], Directory) # nodes sample_files), dir_end := - 1\<rparr>\<rparr>"

lemma directory_not_refused:
  "fst (getRequestType (get_request ''/static/album.zip'') album_world) = Inr Static"
  "fst (static_handle_request (get_request ''/static/album.zip'') album_world) = Inl Length_error"
  by code_simp+

text \<open>The refusal of another method loses its content type: it is set before the response is made.\<close>

lemma static_refusal_has_no_type:
  "req_method req \<noteq> Get \<Longrightarrow> \<exists>r. fst (static_handle_request req w) = Inr r \<and> set_calls r = []"
  by (simp add: static_handle_request_def prepare_payload_def new_response_def)

end
