(* ===== verification/App_Handler.thy ===== *)
theory App_Handler
  imports Basic_Handlers
begin

text \<open>
  The caption application: \<open>app_handler.h\<close> and \<open>app_handler.cc\<close>. A POST carries a form with
  images and a text; the handler asks a remote model to score the images and to write a caption.
  libcurl and the JSON library are parameters (\<open>services\<close>): what a transfer delivers to the write
  callback, and what the reply holds at \<open>choices[0].message.content\<close> or the exception reading it.
\<close>

subsection \<open>The services\<close>

record curl_request =
  curl_url :: string
  curl_headers :: "string list"
  curl_post :: string

datatype curl_outcome =
    No_handle \<comment> \<open>\<open>curl_easy_init\<close> returned null\<close>
  | Curl_error string \<comment> \<open>not \<open>CURLE_OK\<close>, with \<open>curl_easy_strerror\<close>\<close>
  | Curl_ok "string list" \<comment> \<open>the pieces given to the write callback\<close>

record services =
  perform :: "world \<Rightarrow> curl_request \<Rightarrow> curl_outcome"
  json_content :: "string \<Rightarrow> string + string" \<comment> \<open>left: \<open>what()\<close> of the exception\<close>

text \<open>The text a C string stands for: up to the first zero byte.\<close>

definition c_str :: "string \<Rightarrow> string" where
  "c_str s = takeWhile (\<lambda>c. c \<noteq> CHR 0x00) s"

definition WriteCallback :: "string \<Rightarrow> nat \<Rightarrow> nat \<Rightarrow> string \<Rightarrow> nat \<times> string" where
  "WriteCallback contents sz nmemb userp = (sz * nmemb, userp @ take (sz * nmemb) contents)"

definition receive :: "string list \<Rightarrow> string \<Rightarrow> string" where
  "receive pieces readBuffer = fold (\<lambda>p b. snd (WriteCallback p 1 (length p) b)) pieces readBuffer"

definition chat_request :: "world \<Rightarrow> string \<Rightarrow> curl_request" where
  "chat_request w jsonData =
     \<lparr>curl_url = c_str (get_chatgpt_url (interp w)),
      curl_headers = [''Content-Type: application/json'',
                      c_str (''Authorization: Bearer '' @ get_api_key (interp w))],
      curl_post = c_str jsonData\<rparr>"

text \<open>
  The posted documents; the raw string literals of the code are given by their parts, and the
  white space of the literals between tokens is one parameter of the text, the indentation.
\<close>

definition NL :: string where
  "NL = [CHR 0x0A]"

definition spaces :: "nat \<Rightarrow> string" where
  "spaces n = replicate n (CHR '' '')"

definition quoted :: "string \<Rightarrow> string" where
  "quoted s = QUOTE @ s @ QUOTE"

definition chat_document :: "nat \<Rightarrow> string \<Rightarrow> string \<Rightarrow> string" where
  "chat_document ind prompt img =
     (let line = (\<lambda>k s. spaces (ind + k) @ s @ NL)
      in NL @ line 0 ''{''
         @ line 4 (quoted ''model'' @ '': '' @ quoted ''gpt-4-turbo'' @ '','')
         @ line 4 (quoted ''messages'' @ '': ['')
         @ line 8 ''{''
         @ line 12 (quoted ''role'' @ '': '' @ quoted ''user'' @ '','')
         @ line 12 (quoted ''content'' @ '': ['')
         @ line 16 ''{''
         @ line 20 (quoted ''type'' @ '': '' @ quoted ''text'' @ '','')
         @ line 20 (quoted ''text'' @ '': '' @ quoted prompt)
         @ line 16 ''},''
         @ line 16 ''{''
         @ line 20 (quoted ''type'' @ '': '' @ quoted ''image_url'' @ '','')
         @ line 20 (quoted ''image_url'' @ '': {'')
         @ line 24 (quoted ''url'' @ '': '' @ quoted img)
         @ line 20 ''}''
         @ line 16 ''}''
         @ line 12 '']''
         @ line 8 ''}''
         @ line 4 ''],''
         @ line 4 (quoted ''max_tokens'' @ '': 300'')
         @ line 0 ''}''
         @ spaces ind)"

definition score_prompt :: string where
  "score_prompt = ''On a scale of 0-100 with 0 being the worst and 100 being the best, please score this image on how good it is to be posted on Instagram. Respond only with an integer.''"

definition caption_prompt :: "string \<Rightarrow> string" where
  "caption_prompt relevant_info = ''Given the following image and relevant information, please generate an Instagram caption. Relevant information: '' @ relevant_info"

subsection \<open>Reading the form\<close>

definition npos :: nat where
  "npos = 2 ^ 64 - 1"

definition find_pos :: "string \<Rightarrow> string \<Rightarrow> nat \<Rightarrow> nat" where
  "find_pos s pat pos = (case find_from s pat pos of Some i \<Rightarrow> i | None \<Rightarrow> npos)"

definition size_t_add :: "nat \<Rightarrow> nat \<Rightarrow> nat" where
  "size_t_add m n = (m + n) mod 2 ^ 64"

definition size_t_of_int :: "int \<Rightarrow> nat" where
  "size_t_of_int i = nat (i mod 2 ^ 64)"

text \<open>\<open>int index = body.find(target) + target.length()\<close>.\<close>

definition index_after :: "string \<Rightarrow> string \<Rightarrow> int" where
  "index_after body_text target_text =
     to_int32 (size_t_add (find_pos body_text target_text 0) (length target_text) mod 2 ^ 32)"

text \<open>\<open>body.substr(index, body.find("\r\n", index) - index)\<close>.\<close>

definition value_at :: "string \<Rightarrow> int \<Rightarrow> string result" where
  "value_at body_text index =
     (let i = size_t_of_int index
      in substr body_text i (size_t_of_int (int (find_pos body_text CRLF i) - int i)))"

definition field_header :: "string \<Rightarrow> string" where
  "field_header name = ''Content-Disposition: form-data; name='' @ quoted name @ CRLF @ CRLF"

definition get_relevant_information :: "string \<Rightarrow> string result" where
  "get_relevant_information body_text =
     value_at body_text (index_after body_text (field_header ''relevant-info''))"

fun images_loop :: "nat \<Rightarrow> string \<Rightarrow> string list \<Rightarrow> string list result" where
  "images_loop 0 body_text images = Inr images"
| "images_loop (Suc n) body_text images =
     (let index = index_after body_text (field_header ''file-upload'')
      in bind_result (value_at body_text index) (\<lambda>img.
           bind_result
             (substr1 body_text (size_t_add (find_pos body_text CRLF (size_t_of_int index)) 2))
             (\<lambda>body_text'. images_loop n body_text' (images @ [img]))))"

definition get_images :: "string \<Rightarrow> string list result" where
  "get_images body_text =
     bind_result (value_at body_text (index_after body_text (field_header ''number-of-images'')))
       (\<lambda>number_text. bind_result (stoi number_text)
         (\<lambda>number_of_images. images_loop (nat number_of_images) body_text []))"

subsection \<open>Scoring and captions\<close>

text \<open>One round of the scoring loop: the index and the best score so far.\<close>

definition score_image ::
  "services \<Rightarrow> string list \<Rightarrow> nat \<Rightarrow> (int \<times> int) \<times> world \<Rightarrow> (int \<times> int) \<times> world" where
  "score_image svc image_data i st =
     (case st of
        ((index, max_score), w) \<Rightarrow>
          (case perform svc w (chat_request w (chat_document 12 score_prompt (image_data ! i))) of
             No_handle \<Rightarrow> st
           | Curl_error msg \<Rightarrow> ((- 2, max_score), wlog ERROR (''CURL error: '' @ msg) w)
           | Curl_ok pieces \<Rightarrow>
               (case json_content svc (receive pieces []) of
                  Inl what \<Rightarrow>
                    ((- 3, max_score), wlog ERROR (''Error parsing JSON response: '' @ what) w)
                | Inr score_str \<Rightarrow>
                    (case stoi (filter is_digit score_str) of
                       Inl e \<Rightarrow> ((- 3, max_score), wlog ERROR ''Error parsing JSON response: stoi'' w)
                     | Inr score \<Rightarrow>
                         (if score > max_score then ((int i, score), w)
                          else ((index, max_score), w))))))"

definition get_best_image_index :: "services \<Rightarrow> string list \<Rightarrow> world \<Rightarrow> int \<times> world" where
  "get_best_image_index svc image_data w =
     (let w1 = wlog INFO ''Selecting best image index from provided images'' w
      in if length image_data = 1 then (0, w1)
         else (case fold (score_image svc image_data) [0..<length image_data] ((- 1, 0), w1) of
                 ((index, max_score), w2) \<Rightarrow>
                   (index, wlog INFO (''Best image index selected: '' @ to_string_int index) w2)))"

definition generate_caption :: "services \<Rightarrow> string \<Rightarrow> string \<Rightarrow> world \<Rightarrow> string \<times> world" where
  "generate_caption svc img relevant_info w =
     (let w1 = wlog INFO ''Generating caption for image'' w
      in case perform svc w1 (chat_request w1 (chat_document 8 (caption_prompt relevant_info) img)) of
           No_handle \<Rightarrow> ([], w1)
         | Curl_error msg \<Rightarrow>
             (''An error occurred when generating a caption'', wlog ERROR (''CURL error: '' @ msg) w1)
         | Curl_ok pieces \<Rightarrow>
             (case json_content svc (receive pieces []) of
                Inl what \<Rightarrow> (''An error occurred while generating a caption'',
                             wlog ERROR (''Error parsing JSON response: '' @ what) w1)
              | Inr caption \<Rightarrow> (caption, wlog INFO (''Caption received: '' @ caption) w1)))"

definition BACKSLASH :: char where
  "BACKSLASH = CHR 0x5C"

fun escape_char :: "char \<Rightarrow> string" where
  "escape_char c =
     (if c = CHR 0x22 then [BACKSLASH, CHR 0x22]
      else if c = BACKSLASH then [BACKSLASH, BACKSLASH]
      else if c \<noteq> CHR 0x0A \<and> c \<noteq> CHR 0x0D \<and> c \<noteq> CHR 0x09 then [c]
      else [])"

definition escape_caption :: "string \<Rightarrow> string" where
  "escape_caption caption = concat (map escape_char caption)"

subsection \<open>Requests\<close>

definition selection_error_json :: "int \<Rightarrow> string" where
  "selection_error_json index =
     ''{'' @ quoted ''caption'' @ '':'' @ quoted ''An error occured while selecting an image'' @ '',''
       @ quoted ''best_image_index'' @ '':'' @ to_string_int index @ ''}''"

definition caption_json :: "string \<Rightarrow> int \<Rightarrow> string" where
  "caption_json escaped index =
     ''{'' @ quoted ''caption'' @ '':'' @ quoted escaped @ '', ''
       @ quoted ''best_image_index'' @ '':'' @ to_string_int index @ ''}''"

definition process_post :: "services \<Rightarrow> request \<Rightarrow> world \<Rightarrow> response result \<times> world" where
  "process_post svc req w =
     (let w1 = wlog INFO ''Processing POST request'' w
      in case get_relevant_information (body req) of
           Inl e \<Rightarrow> (Inl e, w1)
         | Inr relevant_info \<Rightarrow>
             (case get_images (body req) of
                Inl e \<Rightarrow> (Inl e, w1)
              | Inr image_data \<Rightarrow>
                  (let (best_image_index, w2) = get_best_image_index svc image_data w1
                   in if best_image_index < 0 \<or> best_image_index \<ge> int (length image_data)
                      then (Inr (text_response Ok ''application/json'' (selection_error_json best_image_index)),
                            wlog ERROR ''Error selecting best image index'' w2)
                      else (let (caption, w3) =
                                  generate_caption svc (image_data ! nat best_image_index) relevant_info w2
                            in (Inr (text_response Ok ''application/json''
                                      (caption_json (escape_caption caption) best_image_index)),
                                wlog INFO (''Caption generated successfully: '' @ caption) w3)))))"

definition landing_page :: "string \<Rightarrow> (string \<times> string) option" where
  "landing_page t =
     (if t = ''/app'' then Some (''../app_pages/index.html'', ''text/html'')
      else if t = ''/app/landing_page.js'' then Some (''../app_pages/landing_page.js'', ''application/javascript'')
      else if t = ''/app/styles.css'' then Some (''../app_pages/styles.css'', ''text/css'')
      else None)"

definition generate_landing_page :: "request \<Rightarrow> world \<Rightarrow> response result \<times> world" where
  "generate_landing_page req w =
     (let w1 = wlog INFO (''Generating landing page for target: '' @ target req) w
      in case landing_page (target req) of
           None \<Rightarrow>
             (Inr (prepare_payload (new_response Bad_request 11 [])),
              wlog ERROR (''Bad request target: '' @ target req) w1)
         | Some (file_path, content_type) \<Rightarrow>
             (case open_read (files w1) file_path of
                None \<Rightarrow>
                  (Inr (prepare_payload (new_response Not_found 11 [])),
                   wlog ERROR (''File not found: '' @ file_path) w1)
              | Some n \<Rightarrow>
                  (let file_size = file_end (files w1) n;
                       w2 = wlog INFO (''Obtained file size of '' @ to_string_int file_size) w1
                   in if file_size < 0 then (Inl Length_error, w2)
                      else (let (res, w3) = file_bytes (''Failed to read file: '' @ file_path) n file_size w2
                            in (Inr (text_response Ok content_type res), w3)))))"

definition app_handle_request :: "services \<Rightarrow> request \<Rightarrow> world \<Rightarrow> response result \<times> world" where
  "app_handle_request svc req w =
     (let w1 = wlog INFO (''Handling request: '' @ target req) w
      in if req_method req = Post then process_post svc req w1
         else if req_method req = Get then generate_landing_page req w1
         else (Inr (prepare_payload (new_response Bad_request 11 [])),
               wlog ERROR (''Bad request method: '' @ method_string req) w1))"

text \<open>\<open>AppHandlerFactory::create\<close> and the constructor's log line.\<close>

definition app_handler :: "services \<Rightarrow> request \<Rightarrow> world \<Rightarrow> response result \<times> world" where
  "app_handler svc req w =
     app_handle_request svc req
       (wlog INFO ''Configuration loaded for AppHandler: API Key and ChatGPT URL'' w)"

subsection \<open>Lines of a form\<close>

definition crlf_text :: "string list \<Rightarrow> string" where
  "crlf_text ls = concat (map (\<lambda>l. l @ CRLF) ls)"

text \<open>No line that ends in \<open>h\<close> is followed by an empty line.\<close>

fun free_of :: "string \<Rightarrow> string list \<Rightarrow> bool" where
  "free_of h [] \<longleftrightarrow> True"
| "free_of h [x] \<longleftrightarrow> True"
| "free_of h (x # y # ls) \<longleftrightarrow> \<not> (suffix h x \<and> y = []) \<and> free_of h (y # ls)"

lemma crlf_text_simps [simp]:
  "crlf_text [] = []" "crlf_text (l # ls) = l @ CRLF @ crlf_text ls"
  "crlf_text (ls @ ms) = crlf_text ls @ crlf_text ms"
  by (simp_all add: crlf_text_def)

lemma find_sub_skip:
  "(\<And>j. j < length a \<Longrightarrow> \<not> prefix pat (drop j (a @ r))) \<Longrightarrow>
    find_sub pat (a @ r) = map_option ((+) (length a)) (find_sub pat r)"
proof (induction a)
  case Nil
  then show ?case by (simp add: option.map_ident)
next
  case (Cons c a)
  have "\<not> prefix pat (c # a @ r)" using Cons.prems [of 0] by simp
  moreover have "find_sub pat (a @ r) = map_option ((+) (length a)) (find_sub pat r)"
  proof (rule Cons.IH)
    fix j assume "j < length a"
    with Cons.prems [of "Suc j"] show "\<not> prefix pat (drop j (a @ r))" by simp
  qed
  ultimately show ?case by (simp add: option.map_comp comp_def)
qed

lemma no_CR_split:
  assumes "no_CR a" and "no_CR b" and "prefix (a @ CRLF @ u) (b @ CRLF @ v)"
  shows "a = b \<and> prefix u v"
proof -
  from assms(3) obtain t where t: "b @ CRLF @ v = a @ CRLF @ u @ t" by (auto simp: prefix_def)
  have "(b, v) = take_line (b @ CRLF @ v)" using take_line_CRLF [OF assms(2), of v] by (rule sym)
  also have "\<dots> = take_line (a @ CRLF @ u @ t)" unfolding t ..
  also have "\<dots> = (a, u @ t)" using take_line_CRLF [OF assms(1)] .
  finally have "(b, v) = (a, u @ t)" .
  then show ?thesis by (auto simp: prefix_def)
qed

lemma header_not_in_line:
  assumes "no_CR h" and "h \<noteq> []" and "hd h \<noteq> CHR 0x0A" and "no_CR x" and "no_CR y"
    and "\<not> (suffix h x \<and> y = [])" and "j < length x + 2"
  shows "\<not> prefix (h @ CRLF @ CRLF) (drop j (x @ CRLF @ y @ CRLF @ r))"
proof
  assume p: "prefix (h @ CRLF @ CRLF) (drop j (x @ CRLF @ y @ CRLF @ r))"
  show False
  proof (cases "j \<le> length x")
    case True
    then have "drop j (x @ CRLF @ y @ CRLF @ r) = drop j x @ CRLF @ y @ CRLF @ r" by simp
    moreover have "no_CR (drop j x)" using assms(4) by (auto simp: no_CR_def dest: in_set_dropD)
    ultimately have "h = drop j x" and y: "prefix CRLF (y @ CRLF @ r)"
      using no_CR_split [OF assms(1)] p by metis+
    then have "suffix h x" by (simp add: suffix_drop)
    moreover have "y = []" using y assms(5) by (cases y) (auto simp: CRLF_def no_CR_def)
    ultimately show False using assms(6) by blast
  next
    case False
    with assms(7) have "j = Suc (length x)" by simp
    then have "drop j (x @ CRLF @ y @ CRLF @ r) = CHR 0x0A # y @ CRLF @ r" by (simp add: CRLF_def)
    with p assms(2,3) show False by (cases h) simp_all
  qed
qed

lemma find_header:
  assumes "no_CR h" and "h \<noteq> []" and "hd h \<noteq> CHR 0x0A"
  shows "\<forall>l \<in> set xs. no_CR l \<Longrightarrow> free_of h (xs @ [h]) \<Longrightarrow>
    find_sub (h @ CRLF @ CRLF) (crlf_text (xs @ h # [] # ys)) = Some (length (crlf_text xs))"
proof (induction xs)
  case Nil
  have "prefix (h @ CRLF @ CRLF) (crlf_text ([] @ h # [] # ys))" by simp
  then have "find_sub (h @ CRLF @ CRLF) (crlf_text ([] @ h # [] # ys)) = Some 0"
    unfolding find_sub_0 .
  then show ?case by simp
next
  case (Cons x xs)
  obtain y ls where y: "xs @ h # [] # ys = y # ls" "y = hd (xs @ [h])" by (cases xs) auto
  then have ny: "no_CR y" using Cons.prems(1) assms(1) by (cases xs) auto
  have f: "\<not> (suffix h x \<and> y = [])" "free_of h (xs @ [h])"
    using Cons.prems(2) y(2) by (cases xs; auto)+
  let ?r = "crlf_text (xs @ h # [] # ys)"
  have r: "?r = y @ CRLF @ crlf_text ls" unfolding y(1) by simp
  have "find_sub (h @ CRLF @ CRLF) ((x @ CRLF) @ ?r)
      = map_option ((+) (length (x @ CRLF))) (find_sub (h @ CRLF @ CRLF) ?r)"
  proof (rule find_sub_skip)
    fix j assume "j < length (x @ CRLF)"
    then have "j < length x + 2" by (simp add: CRLF_def)
    from header_not_in_line [OF assms _ ny f(1) this, of "crlf_text ls"] Cons.prems(1)
    show "\<not> prefix (h @ CRLF @ CRLF) (drop j ((x @ CRLF) @ ?r))" unfolding r by simp
  qed
  with Cons.IH Cons.prems(1) f(2) show ?case by simp
qed

lemma to_int32_id: "n < 2 ^ 31 \<Longrightarrow> to_int32 n = int n"
  by (simp add: to_int32_def)

text \<open>The value after a header, and the text after it.\<close>

lemma find_CRLF: "no_CR v \<Longrightarrow> find_sub CRLF (v @ CRLF @ r) = Some (length v)"
proof -
  assume v: "no_CR v"
  have "find_sub CRLF (v @ CRLF @ r) = map_option ((+) (length v)) (find_sub CRLF (CRLF @ r))"
  proof (rule find_sub_skip)
    fix j assume j: "j < length v"
    then have "v ! j \<noteq> CHR 0x0D" using v by (metis no_CR_def nth_mem)
    with j show "\<not> prefix CRLF (drop j (v @ CRLF @ r))"
      by (simp add: CRLF_def flip: Cons_nth_drop_Suc)
  qed
  moreover have "find_sub CRLF (CRLF @ r) = Some 0" by (simp only: find_sub_0) simp
  ultimately show ?thesis by simp
qed

lemma read_value:
  assumes h: "no_CR h" "h \<noteq> []" "hd h \<noteq> CHR 0x0A" and xs: "\<forall>l \<in> set xs. no_CR l" "free_of h (xs @ [h])"
    and v: "no_CR v" and small: "length (crlf_text (xs @ h # [] # v # ys)) < 2 ^ 31"
  defines "t \<equiv> crlf_text (xs @ h # [] # v # ys)"
  shows "value_at t (index_after t (h @ CRLF @ CRLF)) = Inr v"
    and "substr1 t (size_t_add (find_pos t CRLF (size_t_of_int (index_after t (h @ CRLF @ CRLF)))) 2)
      = Inr (crlf_text ys)"
proof -
  define i where "i = length (crlf_text xs) + length (h @ CRLF @ CRLF)"
  have t: "t = (crlf_text xs @ h @ CRLF @ CRLF) @ v @ CRLF @ crlf_text ys" by (simp add: t_def)
  have len: "length t = i + length v + 2 + length (crlf_text ys)"
    unfolding t by (simp add: i_def CRLF_def)
  have lt: "i + length v + 2 < 2 ^ 31" using small len by (simp add: t_def)
  have "find_pos t (h @ CRLF @ CRLF) 0 = length (crlf_text xs)"
    using find_header [OF h xs, of "v # ys"] by (simp add: find_pos_def find_from_def t_def)
  moreover have "size_t_add (length (crlf_text xs)) (length (h @ CRLF @ CRLF)) = i"
    unfolding size_t_add_def i_def [symmetric] using lt by simp
  ultimately have idx: "index_after t (h @ CRLF @ CRLF) = int i"
    unfolding index_after_def using lt by (simp add: to_int32_id)
  have sz: "size_t_of_int (int i) = i" using lt by (simp add: size_t_of_int_def nat_mod_distrib)
  have d: "drop i t = v @ CRLF @ crlf_text ys" unfolding t i_def by simp
  have pos: "find_pos t CRLF i = i + length v"
    using find_CRLF [OF v, of "crlf_text ys"] len by (simp add: find_pos_def find_from_def d)
  have cnt: "size_t_of_int (int (i + length v) - int i) = length v"
    using lt by (simp add: size_t_of_int_def nat_mod_distrib)
  show "value_at t (index_after t (h @ CRLF @ CRLF)) = Inr v"
    using len unfolding value_at_def Let_def idx sz pos cnt by (simp add: substr_def d)
  have add: "size_t_add (i + length v) 2 = i + length v + 2" using lt by (simp add: size_t_add_def)
  have "drop (i + length v + 2) t = drop (length v + 2) (drop i t)" by (simp add: add.commute add.left_commute)
  also have "\<dots> = crlf_text ys" unfolding d by (simp add: CRLF_def)
  finally have "drop (i + length v + 2) t = crlf_text ys" .
  then show "substr1 t (size_t_add (find_pos t CRLF (size_t_of_int (index_after t (h @ CRLF @ CRLF)))) 2)
      = Inr (crlf_text ys)"
    using len unfolding idx sz pos add by (simp add: substr1_def)
qed

subsection \<open>The form the page sends\<close>

text \<open>
  The body that \<open>landing_page.js\<close> makes the browser send: one part per image, the number of
  images, the text, each between delimiter lines. The text is the value of a \<open>textarea\<close>; it has one
  line or more, which the browser separates by a carriage return and a line feed.
\<close>

definition disposition :: "string \<Rightarrow> string" where
  "disposition name = ''Content-Disposition: form-data; name='' @ quoted name"

definition image_lines :: "string \<Rightarrow> string list \<Rightarrow> string list" where
  "image_lines boundary imgs =
     concat (map (\<lambda>img. [''--'' @ boundary, disposition ''file-upload'', [], img]) imgs)"

definition form_lines :: "string \<Rightarrow> string list \<Rightarrow> string list \<Rightarrow> string list" where
  "form_lines boundary info imgs =
     image_lines boundary imgs
     @ [''--'' @ boundary, disposition ''number-of-images'', [], digits_str (length imgs),
        ''--'' @ boundary, disposition ''relevant-info'', []] @ info @ [''--'' @ boundary @ ''--'']"

definition form_body :: "string \<Rightarrow> string list \<Rightarrow> string list \<Rightarrow> string" where
  "form_body boundary info imgs = crlf_text (form_lines boundary info imgs)"

lemma field_header_disposition: "field_header name = disposition name @ CRLF @ CRLF"
  by (simp add: field_header_def disposition_def)

lemma disposition_ok:
  "no_CR (disposition ''file-upload'')" "no_CR (disposition ''number-of-images'')"
  "no_CR (disposition ''relevant-info'')" "disposition name \<noteq> []" "hd (disposition name) \<noteq> CHR 0x0A"
  by (simp_all add: no_CR_def disposition_def quoted_def QUOTE_def)

lemma disposition_suffix:
  "\<not> suffix (disposition ''relevant-info'') (disposition ''file-upload'')"
  "\<not> suffix (disposition ''relevant-info'') (disposition ''number-of-images'')"
  "\<not> suffix (disposition ''number-of-images'') (disposition ''file-upload'')"
  by (simp_all add: suffix_to_prefix disposition_def quoted_def QUOTE_def)

lemma free_of_part:
  assumes "h \<noteq> []" and "\<not> suffix h g" and "g \<noteq> []" and "free_of h (y # ls)" and "y \<noteq> []"
  shows "free_of h (d # g # [] # v # y # ls)"
  using assms by simp

lemma free_of_images:
  assumes "h \<noteq> []" and "\<not> suffix h (disposition ''file-upload'')" and "free_of h (y # ls)" and "y \<noteq> []"
  shows "free_of h (image_lines boundary imgs @ y # ls)"
proof (induction imgs)
  case (Cons img imgs)
  obtain z zs where z: "image_lines boundary imgs @ y # ls = z # zs" and "z \<noteq> []"
    using assms(4) by (cases imgs) (auto simp: image_lines_def)
  have "image_lines boundary (img # imgs) @ y # ls
      = (''--'' @ boundary) # disposition ''file-upload'' # [] # img # z # zs"
    using z by (simp add: image_lines_def)
  with free_of_part [OF assms(1,2) disposition_ok(4) _ \<open>z \<noteq> []\<close>] Cons z show ?case by metis
qed (simp add: image_lines_def assms)

lemma no_CR_append [simp]: "no_CR (a @ b) \<longleftrightarrow> no_CR a \<and> no_CR b"
  by (auto simp: no_CR_def)

lemma image_lines_no_CR:
  "no_CR boundary \<Longrightarrow> \<forall>img \<in> set imgs. no_CR img \<Longrightarrow> \<forall>l \<in> set (image_lines boundary imgs). no_CR l"
  using disposition_ok(1) by (auto simp: image_lines_def no_CR_def)

lemma no_CR_digits: "no_CR (digits_str n)"
  using digits_not by (auto simp: no_CR_def)

lemma no_CR_dashes: "no_CR []" "no_CR (CHR ''-'' # CHR ''-'' # b) \<longleftrightarrow> no_CR b"
  by (simp_all add: no_CR_def)

lemma relevant_information_form:
  assumes b: "no_CR boundary" and i: "info \<noteq> []" "no_CR (hd info)" and im: "\<forall>img \<in> set imgs. no_CR img"
    and small: "length (form_body boundary info imgs) < 2 ^ 31"
  shows "get_relevant_information (form_body boundary info imgs) = Inr (hd info)"
proof -
  let ?h = "disposition ''relevant-info''" and ?d = "''--'' @ boundary"
  let ?n = "digits_str (length imgs)"
  let ?xs = "image_lines boundary imgs @ [?d, disposition ''number-of-images'', [], ?n, ?d]"
  have f: "form_body boundary info imgs = crlf_text (?xs @ ?h # [] # hd info # (tl info @ [?d @ ''--'']))"
    using i(1) by (cases info) (simp_all add: form_body_def form_lines_def)
  have "\<forall>l \<in> set ?xs. no_CR l"
    using image_lines_no_CR [OF b im] b disposition_ok(2) no_CR_digits by (auto simp: no_CR_dashes)
  moreover have "free_of ?h (?xs @ [?h])"
    using free_of_images [OF disposition_ok(4) disposition_suffix(1)] disposition_suffix(2) disposition_ok(4)
    by simp
  ultimately show ?thesis
    using read_value(1) [OF disposition_ok(3-5) _ _ i(2), of ?xs "tl info @ [?d @ ''--'']"] small
    unfolding get_relevant_information_def field_header_disposition f by blast
qed

lemma number_form:
  assumes b: "no_CR boundary" and im: "\<forall>img \<in> set imgs. no_CR img"
    and small: "length (form_body boundary info imgs) < 2 ^ 31"
  shows "value_at (form_body boundary info imgs)
      (index_after (form_body boundary info imgs) (field_header ''number-of-images'')) = Inr (digits_str (length imgs))"
proof -
  let ?h = "disposition ''number-of-images''" and ?d = "''--'' @ boundary"
  let ?xs = "image_lines boundary imgs @ [?d]"
  let ?ys = "[?d, disposition ''relevant-info'', []] @ info @ [?d @ ''--'']"
  have f: "form_body boundary info imgs = crlf_text (?xs @ ?h # [] # digits_str (length imgs) # ?ys)"
    by (simp add: form_body_def form_lines_def)
  have "\<forall>l \<in> set ?xs. no_CR l"
    using image_lines_no_CR [OF b im] b by (auto simp: no_CR_dashes)
  moreover have "free_of ?h (?xs @ [?h])"
    using free_of_images [OF disposition_ok(4) disposition_suffix(3)] disposition_ok(4)
    by simp
  ultimately show ?thesis
    using read_value(1) [OF disposition_ok(2,4,5) _ _ no_CR_digits, of ?xs "length imgs" ?ys] small
    unfolding field_header_disposition f by blast
qed

lemma images_loop_form:
  assumes b: "no_CR boundary"
  shows "\<forall>img \<in> set imgs. no_CR img \<Longrightarrow> length (crlf_text (image_lines boundary imgs @ ys)) < 2 ^ 31 \<Longrightarrow>
    images_loop (length imgs) (crlf_text (image_lines boundary imgs @ ys)) acc = Inr (acc @ imgs)"
proof (induction imgs arbitrary: acc)
  case (Cons img imgs)
  let ?h = "disposition ''file-upload''"
  let ?rest = "image_lines boundary imgs @ ys"
  have l: "image_lines boundary (img # imgs) @ ys = [''--'' @ boundary] @ ?h # [] # img # ?rest"
    by (simp add: image_lines_def)
  have xs: "\<forall>l \<in> set [''--'' @ boundary]. no_CR l" "free_of ?h ([''--'' @ boundary] @ [?h])"
    using b disposition_ok(4) by (simp_all add: no_CR_dashes)
  have img: "no_CR img" using Cons.prems(1) by simp
  note r = read_value [OF disposition_ok(1,4,5) xs img Cons.prems(2) [unfolded l]]
  have "length (crlf_text ?rest) < 2 ^ 31" using Cons.prems(2) unfolding l by simp
  with Cons.IH [of "acc @ [img]"] Cons.prems(1)
  have "images_loop (length imgs) (crlf_text ?rest) (acc @ [img]) = Inr (acc @ img # imgs)" by simp
  then show ?case
    unfolding l using r by (simp only: images_loop.simps list.size add_Suc_right add_0_right Let_def
        field_header_disposition bind_result_simps)
qed simp

lemma stoi_digits_str: "n < 2 ^ 31 \<Longrightarrow> stoi (digits_str n) = Inr (int n)"
  by (simp add: stoi_def)

lemma length_image_lines: "length imgs \<le> length (crlf_text (image_lines boundary imgs @ ys))"
  by (induction imgs) (auto simp: image_lines_def CRLF_def)

lemma get_images_form:
  assumes "no_CR boundary" and "\<forall>img \<in> set imgs. no_CR img"
    and "length (form_body boundary info imgs) < 2 ^ 31"
  shows "get_images (form_body boundary info imgs) = Inr imgs"
proof -
  have f: "\<exists>ys. form_body boundary info imgs = crlf_text (image_lines boundary imgs @ ys)"
    unfolding form_body_def form_lines_def by blast
  have "length imgs < 2 ^ 31" using assms(3) length_image_lines f by (metis le_less_trans)
  then have "stoi (digits_str (length imgs)) = Inr (int (length imgs))" by (rule stoi_digits_str)
  moreover have "images_loop (length imgs) (form_body boundary info imgs) [] = Inr imgs"
    using images_loop_form [OF assms(1,2)] assms(3) f by fastforce
  ultimately show ?thesis using number_form [OF assms] by (simp add: get_images_def)
qed

text \<open>
  C21: From a form as the page sends it the handler reads every image, in order and unchanged, and
  of the text its first line, which is the whole text if it has one line only. The lines do not
  hold a carriage return (base64 images never do), and the body must be shorter than \<open>2 ^ 31\<close>, the
  range of the \<open>int\<close> indices.
\<close>

theorem form_read_back:
  assumes "no_CR boundary" and "info \<noteq> []" and "no_CR (hd info)" and "\<forall>img \<in> set imgs. no_CR img"
    and "length (form_body boundary info imgs) < 2 ^ 31"
  shows "get_relevant_information (form_body boundary info imgs) = Inr (hd info) \<and>
    get_images (form_body boundary info imgs) = Inr imgs"
  using relevant_information_form [OF assms] get_images_form [OF assms(1,4,5)] by blast

theorem form_read_back_witness:
  "get_relevant_information (form_body ''xx'' [''a dinner'', ''for two''] [''data:1'', []]) = Inr (hd [''a dinner'', ''for two'']) \<and>
    get_images (form_body ''xx'' [''a dinner'', ''for two''] [''data:1'', []]) = Inr [''data:1'', []]"
  by (rule form_read_back)
    (simp_all add: no_CR_def form_body_def form_lines_def image_lines_def disposition_def quoted_def
      QUOTE_def CRLF_def digits_str.simps)

text \<open>The handler uses the first line for the whole text.\<close>

lemma second_line_lost:
  "get_relevant_information (form_body ''xx'' [''a dinner'', ''for two''] [''data:1'']) = Inr ''a dinner''"
  using relevant_information_form [of "''xx''" "[''a dinner'', ''for two'']" "[''data:1'']"]
  by (simp add: no_CR_def form_body_def form_lines_def image_lines_def disposition_def quoted_def
      QUOTE_def CRLF_def digits_str.simps)

subsection \<open>The chosen image\<close>

text \<open>What one round does, whatever the services answer.\<close>

lemma score_image_index:
  "fst (fst (score_image svc imgs i ((index, best), w))) \<in> {index, - 2, - 3, int i}"
  by (simp add: score_image_def split: curl_outcome.split sum.split)

lemma score_fold_range:
  assumes "- 3 \<le> fst (fst st)" and "fst (fst st) < int m" and "\<forall>i \<in> set is. i < m"
  shows "- 3 \<le> fst (fst (fold (score_image svc imgs) is st))
    \<and> fst (fst (fold (score_image svc imgs) is st)) < int m"
  using assms
proof (induction "is" arbitrary: st)
  case (Cons i "is")
  obtain index best w where st: "st = ((index, best), w)" by (metis surj_pair)
  have m: "i < m" using Cons.prems(3) by simp
  have "- 3 \<le> fst (fst (score_image svc imgs i st)) \<and> fst (fst (score_image svc imgs i st)) < int m"
    using score_image_index [of svc imgs i index best w] Cons.prems(1,2) m unfolding st by auto
  with Cons.IH [of "score_image svc imgs i st"] Cons.prems(3) show ?case by simp
qed simp

text \<open>
  The services answer with a number for every image: \<open>scores svc f imgs\<close>, where \<open>f i\<close> is the score
  of image \<open>i\<close> whenever it is asked.
\<close>

definition scores :: "services \<Rightarrow> (nat \<Rightarrow> int) \<Rightarrow> string list \<Rightarrow> bool" where
  "scores svc f imgs \<longleftrightarrow>
     (\<forall>i < length imgs. \<forall>w. \<exists>pieces text_answer.
        perform svc w (chat_request w (chat_document 12 score_prompt (imgs ! i))) = Curl_ok pieces \<and>
        json_content svc (receive pieces []) = Inr text_answer \<and>
        stoi (filter is_digit text_answer) = Inr (f i))"

lemma score_image_scored:
  assumes "scores svc f imgs" and "i < length imgs"
  shows "score_image svc imgs i ((index, best), w) =
    (if f i > best then ((int i, f i), w) else ((index, best), w))"
proof -
  obtain pieces t where "perform svc w (chat_request w (chat_document 12 score_prompt (imgs ! i))) = Curl_ok pieces"
    "json_content svc (receive pieces []) = Inr t" "stoi (filter is_digit t) = Inr (f i)"
    using assms unfolding scores_def by blast
  then show ?thesis by (simp add: score_image_def)
qed

text \<open>The first image of the best positive score among the first \<open>n\<close>.\<close>

definition first_best :: "(nat \<Rightarrow> int) \<Rightarrow> nat \<Rightarrow> int \<Rightarrow> int \<Rightarrow> bool" where
  "first_best f n index best \<longleftrightarrow>
     (if \<forall>i < n. f i \<le> 0 then index = - 1 \<and> best = 0
      else \<exists>k < n. index = int k \<and> best = f k \<and> 0 < f k \<and> (\<forall>i < n. f i \<le> f k) \<and> (\<forall>i < k. f i < f k))"

lemma first_best_step:
  assumes "first_best f n index best"
  shows "if f n > best then first_best f (Suc n) (int n) (f n) else first_best f (Suc n) index best"
proof (cases "\<forall>i < n. f i \<le> 0")
  case True
  then have b: "index = - 1" "best = 0" using assms by (simp_all add: first_best_def)
  show ?thesis
  proof (cases "f n > 0")
    case True': True
    then have "\<not> (\<forall>i < Suc n. f i \<le> 0)" by (metis lessI not_le)
    with True True' b show ?thesis
      by (auto simp: first_best_def less_Suc_eq intro!: exI [of _ n] intro: order_trans le_less_trans)
  next
    case False
    with True b show ?thesis by (auto simp: first_best_def less_Suc_eq)
  qed
next
  case False
  then obtain k where k: "k < n" "index = int k" "best = f k" "0 < f k"
      "\<forall>i < n. f i \<le> f k" "\<forall>i < k. f i < f k"
    using assms [unfolded first_best_def if_not_P [OF False]] by blast
  have neg: "\<not> (\<forall>i < Suc n. f i \<le> 0)" using k(1,4) by (metis less_SucI not_le)
  show ?thesis
  proof (cases "f n > best")
    case True
    then have "\<forall>i < n. f i < f n" using k by (auto intro: le_less_trans)
    then have "\<forall>i < Suc n. f i \<le> f n" by (auto simp: less_Suc_eq intro: less_imp_le)
    moreover have "0 < f n" using True k by simp
    ultimately have "first_best f (Suc n) (int n) (f n)"
      unfolding first_best_def using neg \<open>\<forall>i < n. f i < f n\<close> by (simp only: if_False) blast
    with True show ?thesis by simp
  next
    case False
    then have "\<forall>i < Suc n. f i \<le> f k" using k by (auto simp: less_Suc_eq)
    then have "first_best f (Suc n) index best"
      unfolding first_best_def using neg k less_SucI [OF k(1)] by (simp only: if_False) blast
    with False show ?thesis by simp
  qed
qed

lemma score_fold_best:
  assumes "scores svc f imgs" and "n \<le> length imgs"
  shows "\<exists>index best w'. fold (score_image svc imgs) [0..<n] ((- 1, 0), w) = ((index, best), w')
    \<and> first_best f n index best"
  using assms(2)
proof (induction n)
  case 0
  then show ?case by (simp add: first_best_def)
next
  case (Suc n)
  then obtain index best w' where f: "fold (score_image svc imgs) [0..<n] ((- 1, 0), w) = ((index, best), w')"
    and b: "first_best f n index best" by auto
  have "fold (score_image svc imgs) [0..<Suc n] ((- 1, 0), w) = score_image svc imgs n ((index, best), w')"
    by (simp add: f)
  also have "\<dots> = (if f n > best then ((int n, f n), w') else ((index, best), w'))"
    using score_image_scored [OF assms(1)] Suc.prems by simp
  finally show ?case using first_best_step [OF b] by (auto split: if_splits)
qed

text \<open>
  C22: With two or more images and a numeric answer for each, the index chosen is the first image of
  the greatest score, or \<open>-1\<close> when no score is positive.
\<close>

theorem best_image_is_first_best:
  assumes "scores svc f imgs" and "length imgs > 1"
  shows "\<exists>best. first_best f (length imgs) (fst (get_best_image_index svc imgs w)) best"
proof -
  let ?w = "wlog INFO ''Selecting best image index from provided images'' w"
  obtain index best w' where "fold (score_image svc imgs) [0..<length imgs] ((- 1, 0), ?w) = ((index, best), w')"
    and "first_best f (length imgs) index best"
    using score_fold_best [OF assms(1) order_refl, of ?w] by blast
  with assms(2) show ?thesis by (auto simp: get_best_image_index_def Let_def)
qed

text \<open>Services for the examples: the reply is the last character of the image's own text.\<close>

definition echo_services :: services where
  "echo_services = \<lparr>perform = (\<lambda>w req. Curl_ok [''5'']), json_content = Inr\<rparr>"

theorem best_image_is_first_best_witness:
  "\<exists>best. first_best (\<lambda>i. 5) (length [''a'', ''b''])
     (fst (get_best_image_index echo_services [''a'', ''b''] sample_world)) best"
proof (rule best_image_is_first_best)
  have "filter is_digit ''5'' = ''5''" "stoi ''5'' = Inr 5" by code_simp+
  then show "scores echo_services (\<lambda>i. 5) [''a'', ''b'']"
    by (simp add: scores_def echo_services_def receive_def WriteCallback_def del: filter.simps)
qed simp

text \<open>
  C37: Whatever the services answer, the index is from \<open>-3\<close> to the last image (0 for a single
  image), so a non-negative index of a form with images is always one of them.
\<close>

theorem best_image_range:
  "- 3 \<le> fst (get_best_image_index svc imgs w) \<and>
   fst (get_best_image_index svc imgs w) < int (max 1 (length imgs))"
proof (cases "length imgs = 1")
  case True
  then show ?thesis by (simp add: get_best_image_index_def)
next
  case False
  let ?w = "wlog INFO ''Selecting best image index from provided images'' w"
  have "- 3 \<le> fst (fst (fold (score_image svc imgs) [0..<length imgs] ((- 1, 0), ?w)))
    \<and> fst (fst (fold (score_image svc imgs) [0..<length imgs] ((- 1, 0), ?w))) < int (max 1 (length imgs))"
    by (rule score_fold_range) auto
  with False show ?thesis by (simp add: get_best_image_index_def Let_def split_beta)
qed

subsection \<open>The escaped caption\<close>

text \<open>
  Reading what stands between the quotes of a JSON string: no bare quote, no control character, a
  backslash only before one of the characters JSON allows. Bytes above \<open>0x7F\<close> are taken as they are,
  and the escapes by number, which the code does not write, are not read.
\<close>

definition json_escapes :: "(char \<times> char) list" where
  "json_escapes =
     [(CHR 0x22, CHR 0x22), (BACKSLASH, BACKSLASH), (CHR ''/'', CHR ''/''), (CHR ''b'', CHR 0x08),
      (CHR ''f'', CHR 0x0C), (CHR ''n'', CHR 0x0A), (CHR ''r'', CHR 0x0D), (CHR ''t'', CHR 0x09)]"

fun json_read :: "string \<Rightarrow> string option" where
  "json_read [] = Some []"
| "json_read (c # s) =
     (if c = BACKSLASH then
        (case s of
           [] \<Rightarrow> None
         | d # r \<Rightarrow> (case map_of json_escapes d of
                       None \<Rightarrow> None
                     | Some e \<Rightarrow> map_option ((#) e) (json_read r)))
      else if byte c < 32 \<or> c = CHR 0x22 then None
      else map_option ((#) c) (json_read s))"

text \<open>The characters that the code leaves out, and those that JSON lets it keep.\<close>

definition dropped :: "char \<Rightarrow> bool" where
  "dropped c \<longleftrightarrow> c = CHR 0x0A \<or> c = CHR 0x0D \<or> c = CHR 0x09"

definition json_clean :: "char \<Rightarrow> bool" where
  "json_clean c \<longleftrightarrow> 32 \<le> byte c \<or> dropped c"

lemma json_read_escaped:
  "json_read (escape_caption s) =
     (if list_all json_clean s then Some (filter (\<lambda>c. \<not> dropped c) s) else None)"
proof (induction s)
  case Nil
  then show ?case by (simp add: escape_caption_def)
next
  case (Cons c s)
  have quotes: "byte (CHR 0x22) = 34" "byte BACKSLASH = 92" by (simp_all add: byte_def BACKSLASH_def)
  from Cons show ?case
    by (auto simp: escape_caption_def json_clean_def dropped_def json_escapes_def quotes)
      (auto simp: BACKSLASH_def byte_def)
qed

text \<open>
  C33: The escaped caption stands between the quotes of a JSON string exactly if the caption has no
  control character but line breaks and tabs, and then a reader of the string gets the caption back
  without its line breaks and tabs.
\<close>

theorem escape_caption_correct:
  "json_read (escape_caption s) =
     (if list_all json_clean s then Some (filter (\<lambda>c. \<not> dropped c) s) else None)"
  by (rule json_read_escaped)

text \<open>So a caption with another control character makes the reply no JSON.\<close>

lemma escape_keeps_bell: "escape_caption [CHR 0x07] = [CHR 0x07]" "json_read [CHR 0x07] = None"
  by (simp_all add: escape_caption_def BACKSLASH_def byte_def)

text \<open>The text of the form goes into the posted document as it is: a quote in it ends the JSON string.\<close>

lemma information_not_escaped: "json_read (caption_prompt [CHR 0x22]) = None"
  by code_simp

subsection \<open>The application keeps the contract of a handler\<close>

lemma score_image_same: "same_but_logs w (snd st) \<Longrightarrow> same_but_logs w (snd (score_image svc imgs i st))"
  by (cases st; cases "fst st") (simp add: score_image_def split: curl_outcome.split sum.split)

lemma score_fold_same:
  "same_but_logs w (snd st) \<Longrightarrow> same_but_logs w (snd (fold (score_image svc imgs) is st))"
  by (induction "is" arbitrary: st) (simp_all add: score_image_same)

lemma best_image_same: "same_but_logs w (snd (get_best_image_index svc imgs w))"
proof -
  let ?w = "wlog INFO ''Selecting best image index from provided images'' w"
  obtain index best w2 where f: "fold (score_image svc imgs) [0..<length imgs] ((- 1, 0), ?w) = ((index, best), w2)"
    by (metis surj_pair)
  have "same_but_logs w w2" using score_fold_same [of w "((- 1, 0), ?w)" svc imgs "[0..<length imgs]"] f by simp
  with f show ?thesis by (simp add: get_best_image_index_def Let_def)
qed

lemma generate_caption_same: "same_but_logs w (snd (generate_caption svc img info w))"
  by (simp add: generate_caption_def Let_def split: curl_outcome.split sum.split)

lemma process_post_same: "same_but_logs w (snd (process_post svc req w))"
proof -
  have b: "same_but_logs w w2" if "get_best_image_index svc imgs (wlog sev m w) = (i, w2)" for imgs sev m i w2
    using same_but_logs_trans [OF _ best_image_same [of "wlog sev m w" svc imgs], of w] that by simp
  have c: "same_but_logs w w3" if "generate_caption svc img info w2 = (t, w3)" "same_but_logs w w2" for img info w2 t w3
    using generate_caption_same [of w2 svc img info] that by (auto intro: same_but_logs_trans)
  show ?thesis
    unfolding process_post_def Let_def by (auto split: sum.split prod.split dest: b c)
qed

lemma landing_page_same: "same_but_logs w (snd (generate_landing_page req w))"
proof -
  have fb: "same_but_logs w w4" if "file_bytes m n k w3 = (x, w4)" "same_but_logs w w3" for m n k w3 x w4
    using file_bytes_same [of w3 m n k] that by (auto intro: same_but_logs_trans)
  show ?thesis
    unfolding generate_landing_page_def Let_def by (auto split: option.split prod.split dest: fb)
qed

lemma app_same: "same_but_logs w (snd (app_handler svc req w))"
proof -
  have "same_but_logs w (snd (process_post svc req (wlog a m (wlog b n w))))" for a m b n
    using same_but_logs_trans [OF _ process_post_same [of "wlog a m (wlog b n w)" svc req], of w] by simp
  moreover have "same_but_logs w (snd (generate_landing_page req (wlog a m (wlog b n w))))" for a m b n
    using same_but_logs_trans [OF _ landing_page_same [of "wlog a m (wlog b n w)" req], of w] by simp
  ultimately show ?thesis by (simp add: app_handler_def app_handle_request_def Let_def)
qed

lemma app_framed: "fst (app_handler svc req w) = Inr r \<Longrightarrow> framed r"
  unfolding app_handler_def app_handle_request_def process_post_def generate_landing_page_def Let_def
  by (auto split: if_splits sum.splits prod.splits option.splits)

interpretation app: request_handler "app_handler svc" for svc
  using app_framed app_same [of _ svc] by unfold_locales (auto simp: same_but_logs_def)

text \<open>
  The reply as JSON: an object whose member \<open>caption\<close> is the string that reads as \<open>t\<close> and whose
  member \<open>best_image_index\<close> is the number \<open>index\<close>.
\<close>

definition json_reply :: "string \<Rightarrow> string \<Rightarrow> int \<Rightarrow> bool" where
  "json_reply json t index \<longleftrightarrow>
     (\<exists>inner gap. json = ''{'' @ quoted ''caption'' @ '':'' @ quoted inner @ '','' @ gap
        @ quoted ''best_image_index'' @ '':'' @ to_string_int index @ ''}''
      \<and> json_read inner = Some t \<and> set gap \<subseteq> {CHR '' ''})"

lemma selection_error_reply:
  "json_reply (selection_error_json index) ''An error occured while selecting an image'' index"
proof -
  have "json_read ''An error occured while selecting an image'' = Some ''An error occured while selecting an image''"
    by code_simp
  then show ?thesis
    unfolding json_reply_def selection_error_json_def
    by (intro exI [of _ "''An error occured while selecting an image''"] exI [of _ "[]"]) simp
qed

lemma caption_reply:
  assumes "list_all json_clean caption"
  shows "json_reply (caption_json (escape_caption caption) index) (filter (\<lambda>c. \<not> dropped c) caption) index"
  unfolding json_reply_def caption_json_def
  using assms by (intro exI [of _ "escape_caption caption"] exI [of _ "'' ''"]) (simp add: json_read_escaped)

text \<open>
  C36: A POST of a form as the page sends it is answered with 200, whatever the remote services do,
  and no file changes. The body is a JSON object with the index chosen. If that is no image, its
  caption is the message of the code. Otherwise its caption is the one generated for that image and
  the first line of the text, without line breaks and tabs, provided the caption has no other
  control character.
\<close>

theorem form_post_answered:
  assumes "no_CR boundary" and "info \<noteq> []" and "no_CR (hd info)" and "\<forall>img \<in> set imgs. no_CR img"
    and "length (form_body boundary info imgs) < 2 ^ 31"
    and "req_method req = Post" and "body req = form_body boundary info imgs"
  shows "\<exists>json index w1 w2.
    fst (app_handler svc req w) = Inr (text_response Ok ''application/json'' json)
    \<and> files (snd (app_handler svc req w)) = files w
    \<and> same_but_logs w w1 \<and> same_but_logs w w2 \<and> index = fst (get_best_image_index svc imgs w1)
    \<and> (if 0 \<le> index \<and> index < int (length imgs)
       then list_all json_clean (fst (generate_caption svc (imgs ! nat index) (hd info) w2)) \<longrightarrow>
         json_reply json
           (filter (\<lambda>c. \<not> dropped c) (fst (generate_caption svc (imgs ! nat index) (hd info) w2))) index
       else json_reply json ''An error occured while selecting an image'' index)"
proof -
  have f: "get_relevant_information (body req) = Inr (hd info)"
    using relevant_information_form [OF assms(1-5)] assms(7) by simp
  have g: "get_images (body req) = Inr imgs"
    using get_images_form [OF assms(1,4,5)] assms(7) by simp
  let ?w = "wlog INFO (''Handling request: '' @ target req)
    (wlog INFO ''Configuration loaded for AppHandler: API Key and ChatGPT URL'' w)"
  have post: "fst (app_handler svc req w) = fst (process_post svc req ?w)"
    using assms(6) by (simp add: app_handler_def app_handle_request_def Let_def)
  have same: "files (snd (app_handler svc req w)) = files w"
    using app_same [of w svc req] by (simp add: same_but_logs_def)
  let ?w1 = "wlog INFO ''Processing POST request'' ?w"
  obtain index w2 where i: "get_best_image_index svc imgs ?w1 = (index, w2)" by (metis surj_pair)
  have w1: "same_but_logs w ?w1" by simp
  then have w2: "same_but_logs w w2"
    using best_image_same [of ?w1 svc imgs] i same_but_logs_trans by fastforce
  show ?thesis
  proof (cases "0 \<le> index \<and> index < int (length imgs)")
    case True
    then have "fst (process_post svc req ?w) = Inr (text_response Ok ''application/json''
        (caption_json (escape_caption (fst (generate_caption svc (imgs ! nat index) (hd info) w2))) index))"
      using f g i by (simp add: process_post_def split_beta)
    with True post same i w1 w2 caption_reply show ?thesis
      by (intro exI [of _ "caption_json (escape_caption (fst (generate_caption svc (imgs ! nat index) (hd info) w2))) index"]
          exI [of _ index] exI [of _ ?w1] exI [of _ w2]) simp
  next
    case False
    then have "fst (process_post svc req ?w) =
        Inr (text_response Ok ''application/json'' (selection_error_json index))"
      using f g i by (auto simp: process_post_def)
    with False post same i w1 w2 selection_error_reply show ?thesis
      by (intro exI [of _ "selection_error_json index"] exI [of _ index] exI [of _ ?w1] exI [of _ w2]) auto
  qed
qed

text \<open>Both images score 5, so the first is chosen, and the caption is the answer \<open>5\<close>.\<close>

lemma echo_index: "fst (get_best_image_index echo_services [a, b] w) = 0"
proof -
  have "filter is_digit ''5'' = ''5''" "stoi ''5'' = Inr 5" by code_simp+
  then show ?thesis
    by (simp add: get_best_image_index_def score_image_def echo_services_def receive_def WriteCallback_def
        Let_def split_beta upt_rec del: filter.simps)
qed

lemma echo_caption: "fst (generate_caption echo_services img info w) = ''5''"
  by (simp add: generate_caption_def echo_services_def receive_def WriteCallback_def)

theorem form_post_answered_witness:
  "\<exists>json. fst (app_handler echo_services
      (get_request ''/app''\<lparr>req_method := Post, body := form_body ''xx'' [''a dinner''] [''data:1'', []]\<rparr>) sample_world)
      = Inr (text_response Ok ''application/json'' json)
    \<and> json_reply json ''5'' 0"
proof -
  let ?req = "get_request ''/app''\<lparr>req_method := Post, body := form_body ''xx'' [''a dinner''] [''data:1'', []]\<rparr>"
  have c: "list_all json_clean ''5''" "filter (\<lambda>c. \<not> dropped c) ''5'' = ''5''" by code_simp+
  have "\<exists>json index w1 w2.
    fst (app_handler echo_services ?req sample_world) = Inr (text_response Ok ''application/json'' json)
    \<and> files (snd (app_handler echo_services ?req sample_world)) = files sample_world
    \<and> same_but_logs sample_world w1 \<and> same_but_logs sample_world w2
    \<and> index = fst (get_best_image_index echo_services [''data:1'', []] w1)
    \<and> (if 0 \<le> index \<and> index < int (length [''data:1'', []])
       then list_all json_clean (fst (generate_caption echo_services ([''data:1'', []] ! nat index) (hd [''a dinner'']) w2)) \<longrightarrow>
         json_reply json (filter (\<lambda>c. \<not> dropped c)
           (fst (generate_caption echo_services ([''data:1'', []] ! nat index) (hd [''a dinner'']) w2))) index
       else json_reply json ''An error occured while selecting an image'' index)"
    by (rule form_post_answered [of "''xx''"])
      (simp_all add: no_CR_def form_body_def form_lines_def image_lines_def disposition_def quoted_def
        QUOTE_def CRLF_def digits_str.simps)
  then show ?thesis unfolding echo_index echo_caption c(2) using c(1) by auto
qed

subsection \<open>Where the application does not do what it should\<close>

text \<open>
  A form without a field raises: the header is not found, the index is that of the last
  character of the header, and the digits are sought there.
\<close>

lemma missing_field_throws: "get_images ''x'' = Inl Out_of_range"
  by (simp add: get_images_def value_at_def index_after_def find_pos_def find_from_def npos_def
      size_t_add_def size_t_of_int_def to_int32_def field_header_def quoted_def QUOTE_def CRLF_def substr_def Let_def)

text \<open>An error on a later image overwrites the index of a good one, which is then not used.\<close>

definition flaky_services :: services where
  "flaky_services = \<lparr>perform = (\<lambda>w req. if sublist ''bad'' (curl_post req) then Curl_error ''timeout'' else Curl_ok [''90'']),
     json_content = Inr\<rparr>"

lemma error_overwrites_index:
  "fst (score_image flaky_services imgs 1 ((0, 90), w)) = (- 2, 90)"
  if "sublist ''bad'' (c_str (chat_document 12 score_prompt (imgs ! 1)))"
  using that by (simp add: score_image_def flaky_services_def chat_request_def)

end
