(* ===== verification/Handler_Classes.thy ===== *)
theory Handler_Classes
  imports Crud_Properties App_Handler
begin

text \<open>
  The class \<open>RequestHandler\<close> with its seven derived classes, and the factories. An object is a
  value of \<open>handler_object\<close>, one constructor for each class with the fields of the class; the pointer
  to the log buffer, which each of them has, is the log of the world. The virtual call is
  \<open>handle_request\<close>. A factory's \<open>create\<close> makes an object in the world: it may log, and the mutex of a
  new file manager starts unlocked.
\<close>

subsection \<open>The classes\<close>

type_synonym handler = "request \<Rightarrow> world \<Rightarrow> response result \<times> world"

text \<open>
  \<open>max_unused_entity_id\<close> of the CRUD handler and the two strings of the application, which its
  constructor leaves empty, are fields that no member function reads. The remote services, which
  the application reaches through libcurl, are kept with its object.
\<close>

record crud_object =
  object_manager :: file_manager
  max_unused_entity_id :: int

record app_object =
  own_api_key :: string
  own_chatgpt_url :: string

datatype handler_object =
    EchoHandler
  | StaticHandler
  | NotFoundHandler
  | CrudHandler crud_object
  | HealthHandler
  | SleepHandler
  | AppHandler services app_object

fun handle_request :: "handler_object \<Rightarrow> handler" where
  "handle_request EchoHandler = echo_handle_request"
| "handle_request StaticHandler = static_handle_request"
| "handle_request NotFoundHandler = not_found_handle_request"
| "handle_request (CrudHandler this) = crud_handle_request (object_manager this)"
| "handle_request HealthHandler = health_handle_request"
| "handle_request SleepHandler = sleep_handle_request"
| "handle_request (AppHandler svc this) = app_handle_request svc"

subsection \<open>The factories\<close>

type_synonym factory = "world \<Rightarrow> handler_object \<times> world"

definition EchoHandlerFactory_create :: factory where
  "EchoHandlerFactory_create w = (EchoHandler, w)"

definition StaticHandlerFactory_create :: factory where
  "StaticHandlerFactory_create w = (StaticHandler, w)"

definition NotFoundHandlerFactory_create :: factory where
  "NotFoundHandlerFactory_create w = (NotFoundHandler, w)"

definition HealthHandlerFactory_create :: factory where
  "HealthHandlerFactory_create w = (HealthHandler, w)"

definition SleepHandlerFactory_create :: factory where
  "SleepHandlerFactory_create w = (SleepHandler, w)"

definition CrudHandlerFactory_create :: factory where
  "CrudHandlerFactory_create w = (CrudHandler \<lparr>object_manager = CrudFileManager, max_unused_entity_id = 1\<rparr>, wlock False w)"

definition new_AppHandler :: "services \<Rightarrow> factory" where
  "new_AppHandler svc w =
     (AppHandler svc \<lparr>own_api_key = [], own_chatgpt_url = []\<rparr>,
      wlog INFO ''Configuration loaded for AppHandler: API Key and ChatGPT URL'' w)"

definition AppHandlerFactory_create :: "services \<Rightarrow> factory" where
  "AppHandlerFactory_create svc w = new_AppHandler svc w"

lemmas factories =
  EchoHandlerFactory_create_def StaticHandlerFactory_create_def NotFoundHandlerFactory_create_def
  HealthHandlerFactory_create_def SleepHandlerFactory_create_def CrudHandlerFactory_create_def
  AppHandlerFactory_create_def new_AppHandler_def

subsection \<open>A handler for one request\<close>

text \<open>The factory makes the handler and the handler gets the request.\<close>

definition made_for :: "factory \<Rightarrow> handler" where
  "made_for create req w = (let (h, w1) = create w in handle_request h req w1)"

lemma made_for_simps [simp]:
  "made_for EchoHandlerFactory_create = echo_handle_request"
  "made_for StaticHandlerFactory_create = static_handle_request"
  "made_for NotFoundHandlerFactory_create = not_found_handle_request"
  "made_for HealthHandlerFactory_create = health_handle_request"
  "made_for SleepHandlerFactory_create = sleep_handle_request"
  "made_for CrudHandlerFactory_create = crud_handler"
  "made_for (AppHandlerFactory_create svc) = app_handler svc"
  by (simp_all add: fun_eq_iff made_for_def factories crud_handler_def app_handler_def)

text \<open>Every object that a factory of the program makes keeps the contract of \<open>request_handler\<close>.\<close>

definition made_by_main :: "services \<Rightarrow> handler_object \<Rightarrow> bool" where
  "made_by_main svc h \<longleftrightarrow>
     h \<in> {EchoHandler, StaticHandler, NotFoundHandler, HealthHandler, SleepHandler,
          CrudHandler \<lparr>object_manager = CrudFileManager, max_unused_entity_id = 1\<rparr>,
          AppHandler svc \<lparr>own_api_key = [], own_chatgpt_url = []\<rparr>}"

lemma crud_object_contract: "request_handler (crud_handle_request CrudFileManager)"
  by unfold_locales (auto simp: crud_keeps dest: crud_framed)

lemma app_object_contract: "request_handler (app_handle_request svc)"
proof unfold_locales
  show "keeps w (snd (app_handle_request svc req w))" for req w
    using same_but_logs_keeps [OF process_post_same, of "wlog INFO (''Handling request: '' @ target req) w" svc req]
      same_but_logs_keeps [OF landing_page_same, of "wlog INFO (''Handling request: '' @ target req) w" req]
    by (auto simp: app_handle_request_def Let_def intro: keeps_trans [OF keeps_wlog_self])
  show "framed r" if "fst (app_handle_request svc req w) = Inr r" for req w r
    using that unfolding app_handle_request_def process_post_def generate_landing_page_def Let_def
    by (auto split: if_splits sum.splits prod.splits option.splits)
qed

lemma made_by_main_contract: "made_by_main svc h \<Longrightarrow> request_handler (handle_request h)"
  unfolding made_by_main_def
  using static.request_handler_axioms echo.request_handler_axioms not_found.request_handler_axioms
    health.request_handler_axioms sleep.request_handler_axioms crud_object_contract app_object_contract
  by auto

end
