(* ===== verification/Dispatch.thy ===== *)
theory Dispatch
  imports Handler_Classes
begin

text \<open>
  From a request to its response: \<open>registry.cc\<close>, the registrations of \<open>_main.cc\<close> and
  \<open>RequestDispatcher::dispatch_request\<close>. The registry maps a request type to a factory, which makes
  a new handler for every request. What the socket answers for its peer, and the reason phrase Boost
  prints for a status, are parameters.
\<close>

subsection \<open>The registry\<close>

type_synonym registry = "(request_type, factory) std_map"

definition RegisterRequestHandler :: "request_type \<Rightarrow> factory \<Rightarrow> registry \<Rightarrow> registry" where
  "RegisterRequestHandler ty factory request_handlers_map = map_set ty factory request_handlers_map"

text \<open>\<open>None\<close> is the null pointer.\<close>

definition GetRequestHandler :: "request_type \<Rightarrow> registry \<Rightarrow> world \<Rightarrow> handler_object option \<times> world" where
  "GetRequestHandler ty request_handlers_map w =
     (case map_of request_handlers_map ty of
        None \<Rightarrow> (None, w)
      | Some create \<Rightarrow> (let (h, w1) = create w in (Some h, w1)))"

definition server_registry :: "services \<Rightarrow> registry" where
  "server_registry svc =
     RegisterRequestHandler App (AppHandlerFactory_create svc)
      (RegisterRequestHandler Sleep SleepHandlerFactory_create
        (RegisterRequestHandler Health HealthHandlerFactory_create
          (RegisterRequestHandler CRUD CrudHandlerFactory_create
            (RegisterRequestHandler None_type NotFoundHandlerFactory_create
              (RegisterRequestHandler Static StaticHandlerFactory_create
                (RegisterRequestHandler Echo EchoHandlerFactory_create []))))))"

text \<open>What a registry does for a request of a type, as one function.\<close>

definition registered_handler :: "request_type \<Rightarrow> registry \<Rightarrow> handler option" where
  "registered_handler ty reg = map_option made_for (map_of reg ty)"

subsection \<open>Dispatching\<close>

text \<open>The two answers of \<open>remote_endpoint\<close>, the first with its error code.\<close>

record peer =
  address1 :: string
  not_connected :: bool
  address2 :: string

definition TAB :: string where
  "TAB = [CHR 0x09]"

definition metrics_line :: "(status \<Rightarrow> string) \<Rightarrow> peer \<Rightarrow> request \<Rightarrow> response \<Rightarrow> request_type \<Rightarrow> string" where
  "metrics_line reason p req r ty =
     ''[ResponseMetrics]'' @ TAB
       @ ''Request IP: '' @ address2 p @ TAB
       @ ''Request Target: '' @ target req @ TAB
       @ ''Response Code: '' @ digits_str (result_int (result r)) @ TAB
       @ ''Response Message: '' @ reason (result r) @ TAB
       @ ''Response Handler: '' @ request_type_tostr ty"

definition null_handler :: exn where
  "null_handler = Undefined_behaviour ''null request handler''"

text \<open>The two lines of the log, and the answer to a request whose type is known.\<close>

definition log_request :: "peer \<Rightarrow> request \<Rightarrow> world \<Rightarrow> world" where
  "log_request p req w =
     (let w1 = wlog INFO (''Request from '' @ address1 p @ '' for target '' @ target req) w
      in if not_connected p
         then wlog ERROR ''handle_read: Transport endpoint is not connected'' w1 else w1)"

definition answer_request :: "registry \<Rightarrow> request_type \<Rightarrow> request \<Rightarrow> world \<Rightarrow> response result \<times> world" where
  "answer_request reg ty req w =
     (if target req = [] \<or> req_method req = Unknown_verb
      then (Inr (prepare_payload (new_response Bad_request 11 [])),
            wlog ERROR ''Empty request or unknown method'' w)
      else (case GetRequestHandler ty reg w of
              (None, w1) \<Rightarrow> (Inl null_handler, w1)
            | (Some handler, w1) \<Rightarrow> handle_request handler req w1))"

lemma answer_request_registered:
  "answer_request reg ty req w =
     (if target req = [] \<or> req_method req = Unknown_verb
      then (Inr (prepare_payload (new_response Bad_request 11 [])),
            wlog ERROR ''Empty request or unknown method'' w)
      else (case registered_handler ty reg of
              None \<Rightarrow> (Inl null_handler, w)
            | Some h \<Rightarrow> h req w))"
  by (simp add: answer_request_def GetRequestHandler_def registered_handler_def made_for_def
      split: option.split prod.split)

definition dispatch_request ::
  "registry \<Rightarrow> (status \<Rightarrow> string) \<Rightarrow> peer \<Rightarrow> request \<Rightarrow> world \<Rightarrow> response result \<times> world" where
  "dispatch_request reg reason p req w =
     (case getRequestType req w of
        (Inl e, w1) \<Rightarrow> (Inl e, w1)
      | (Inr ty, w1) \<Rightarrow>
          (case answer_request reg ty req (log_request p req w1) of
             (Inl e, w2) \<Rightarrow> (Inl e, w2)
           | (Inr r, w2) \<Rightarrow> (Inr r, wlog INFO (metrics_line reason p req r ty) w2)))"

lemma log_request_same [simp]: "same_but_logs w w' \<Longrightarrow> same_but_logs w (log_request p req w')"
  by (simp add: log_request_def Let_def)

subsection \<open>What is registered\<close>

lemma server_registry_lookup:
  "registered_handler ty (server_registry svc) =
     (case ty of
        Static \<Rightarrow> Some static_handle_request
      | Echo \<Rightarrow> Some echo_handle_request
      | None_type \<Rightarrow> Some not_found_handle_request
      | CRUD \<Rightarrow> Some crud_handler
      | Health \<Rightarrow> Some health_handle_request
      | Sleep \<Rightarrow> Some sleep_handle_request
      | App \<Rightarrow> Some (app_handler svc)
      | BogusType \<Rightarrow> None)"
proof -
  have ok: "map_ok (RegisterRequestHandler t h m)" if "map_ok m" for t h m
    using that by (simp add: RegisterRequestHandler_def smap.mok_set)
  have get: "map_of (RegisterRequestHandler t h m) = (map_of m)(t \<mapsto> h)" if "map_ok m" for t h m
    using that by (simp add: RegisterRequestHandler_def smap.mget_set)
  show ?thesis
    unfolding registered_handler_def server_registry_def
    by (simp add: ok get split: request_type.split)
qed

text \<open>Every handler that is registered keeps the contract of \<open>request_handler\<close>.\<close>

lemma registered_contract:
  "registered_handler ty (server_registry svc) = Some h \<Longrightarrow> request_handler h"
  unfolding server_registry_lookup
  using static.request_handler_axioms echo.request_handler_axioms not_found.request_handler_axioms
    crud.request_handler_axioms health.request_handler_axioms sleep.request_handler_axioms
    app.request_handler_axioms
  by (auto split: request_type.splits)

lemma match_type_not_Bogus: "match_type (request_match p r) \<noteq> BogusType"
  using scan_all_found [of r "request_candidates p"]
  by (auto simp: request_match_all found_in_def longest_among_def no_match_def request_candidates_def)

lemma getRequestType_not_Bogus: "fst (getRequestType req w) \<noteq> Inr BogusType"
  using match_type_not_Bogus
  by (auto simp: getRequestType_def Let_def split: sum.split option.split)

subsection \<open>Dispatching with the contract\<close>

text \<open>The contract of a registry: whatever it holds is a handler that keeps its own contract.\<close>

locale handler_registry =
  fixes reg :: registry
  assumes registered: "registered_handler ty reg = Some h \<Longrightarrow> request_handler h"
begin

lemma answer_keeps: "keeps w0 w \<Longrightarrow> keeps w0 (snd (answer_request reg ty req w))"
  unfolding answer_request_registered
  by (auto split: option.split intro: keeps_snd request_handler.keeps_law registered)

lemma answer_framed:
  "length (echo_text req) < 2 ^ 31 \<Longrightarrow> fst (answer_request reg ty req w) = Inr r \<Longrightarrow> framed r"
  unfolding answer_request_registered
  by (auto split: option.splits if_splits dest: request_handler.framed_law [OF registered])

lemma dispatch_keeps: "keeps w (snd (dispatch_request reg reason p req w))"
  using answer_keeps [OF same_but_logs_keeps [OF log_request_same [OF getRequestType_same [of w req]]]]
    same_but_logs_keeps [OF getRequestType_same [of w req]]
  unfolding dispatch_request_def by (simp add: sum.case_eq_if prod.case_eq_if)

lemma dispatch_framed:
  assumes "length (echo_text req) < 2 ^ 31" and "fst (dispatch_request reg reason p req w) = Inr r"
  shows "framed r"
  using assms(2) unfolding dispatch_request_def
  by (auto simp: prod.case_eq_if sum.case_eq_if split: if_splits intro!: answer_framed [OF assms(1)])

end

interpretation main_registry: handler_registry "server_registry svc" for svc
  by (rule handler_registry.intro) (rule registered_contract)

subsection \<open>Properties\<close>

text \<open>The steps of a dispatch that reaches a handler.\<close>

lemma dispatch_handler:
  assumes "fst (getRequestType req w) = Inr ty" and "target req \<noteq> []" and "req_method req \<noteq> Unknown_verb"
    and "registered_handler ty reg = Some h"
  obtains w3 where "same_but_logs w w3"
    and "dispatch_request reg reason p req w =
      (case h req w3 of
         (Inl e, w4) \<Rightarrow> (Inl e, w4)
       | (Inr r, w4) \<Rightarrow> (Inr r, wlog INFO (metrics_line reason p req r ty) w4))"
proof (rule that [of "log_request p req (snd (getRequestType req w))"])
  show "dispatch_request reg reason p req w =
      (case h req (log_request p req (snd (getRequestType req w))) of
         (Inl e, w4) \<Rightarrow> (Inl e, w4)
       | (Inr r, w4) \<Rightarrow> (Inr r, wlog INFO (metrics_line reason p req r ty) w4))"
    using assms unfolding dispatch_request_def by (simp add: answer_request_registered prod.case_eq_if)
qed (simp add: getRequestType_same)

text \<open>
  A request is handled by the handler of a type: the answer and the files afterwards are those of
  the registered handler on the world as it was, but for the log.
\<close>

definition handled_by ::
  "registry \<Rightarrow> (status \<Rightarrow> string) \<Rightarrow> peer \<Rightarrow> request \<Rightarrow> world \<Rightarrow> request_type \<Rightarrow> bool" where
  "handled_by reg reason p req w ty \<longleftrightarrow>
     (\<exists>h v. registered_handler ty reg = Some h \<and> same_but_logs w v \<and>
        fst (dispatch_request reg reason p req w) = fst (h req v) \<and>
        files (snd (dispatch_request reg reason p req w)) = files (snd (h req v)))"

lemma registered_type: "ty \<noteq> BogusType \<Longrightarrow> \<exists>h. registered_handler ty (server_registry svc) = Some h"
  unfolding server_registry_lookup by (cases ty) auto

lemma dispatch_handled:
  assumes "fst (getRequestType req w) = Inr ty" and "target req \<noteq> []" and "req_method req \<noteq> Unknown_verb"
  shows "handled_by (server_registry svc) reason p req w ty"
proof -
  have "ty \<noteq> BogusType" using getRequestType_not_Bogus assms(1) by auto
  then obtain h where h: "registered_handler ty (server_registry svc) = Some h" using registered_type by blast
  obtain v where "same_but_logs w v" and "dispatch_request (server_registry svc) reason p req w =
      (case h req v of
         (Inl e, w4) \<Rightarrow> (Inl e, w4)
       | (Inr r, w4) \<Rightarrow> (Inr r, wlog INFO (metrics_line reason p req r ty) w4))"
    by (rule dispatch_handler [OF assms h])
  with h show ?thesis
    unfolding handled_by_def by (intro exI [of _ h] exI [of _ v]) (simp add: prod.case_eq_if sum.case_eq_if)
qed

text \<open>The factories that \<open>main\<close> registers make these objects, in a world that is kept.\<close>

lemma server_registry_makes:
  assumes "ty \<noteq> BogusType"
  shows "\<exists>h w'. GetRequestHandler ty (server_registry svc) w = (Some h, w') \<and> made_by_main svc h \<and>
    keeps w w' \<and> files w' = files w"
proof -
  have ok: "map_ok (RegisterRequestHandler t c m)" if "map_ok m" for t c m
    using that by (simp add: RegisterRequestHandler_def smap.mok_set)
  have get: "map_of (RegisterRequestHandler t c m) = (map_of m)(t \<mapsto> c)" if "map_ok m" for t c m
    using that by (simp add: RegisterRequestHandler_def smap.mget_set)
  show ?thesis
    using assms unfolding GetRequestHandler_def server_registry_def
    by (cases ty) (simp_all add: ok get factories made_by_main_def)
qed

text \<open>
  C31: With the factories that \<open>main\<close> registers, every request type that \<open>getRequestType\<close> can answer
  gets a handler object, whose class keeps the contract of handlers; so \<open>dispatch_request\<close> never calls
  through a null pointer.
\<close>

theorem dispatch_finds_handler:
  assumes "fst (getRequestType req w) = Inr ty"
  shows "\<exists>h w'. GetRequestHandler ty (server_registry svc) v = (Some h, w') \<and>
    request_handler (handle_request h) \<and> keeps v w'"
proof -
  have "ty \<noteq> BogusType" using getRequestType_not_Bogus assms by auto
  from server_registry_makes [OF this] made_by_main_contract show ?thesis by blast
qed

theorem dispatch_finds_handler_witness:
  "\<exists>h w'. GetRequestHandler CRUD (server_registry echo_services) sample_world = (Some h, w') \<and>
    request_handler (handle_request h) \<and> keeps sample_world w'"
proof (rule dispatch_finds_handler)
  show "fst (getRequestType (get_request ''/api/Shoes'') sample_world) = Inr CRUD" by code_simp
qed

definition sample_peer :: peer where
  "sample_peer = \<lparr>address1 = ''127.0.0.1'', not_connected = False, address2 = ''127.0.0.1''\<rparr>"

text \<open>
  C32: A request that is answered adds to the log, after what was there and the lines of its
  handling, one last line: the metrics of the response, with peer, target, code, reason and handler.
\<close>

theorem dispatch_logs_metrics:
  assumes "fst (getRequestType req w) = Inr ty" and "lb_ok (logs w)"
    and "dispatch_request (server_registry svc) reason p req w = (Inr r, w')"
  shows "\<exists>es. pending (logs w') = pending (logs w) @ es @ [(INFO, metrics_line reason p req r ty)]
    \<and> lb_ok (logs w')"
proof -
  obtain w1 where g: "getRequestType req w = (Inr ty, w1)" using assms(1) by (metis prod.collapse)
  obtain w2 where a: "answer_request (server_registry svc) ty req (log_request p req w1) = (Inr r, w2)"
    and w': "w' = wlog INFO (metrics_line reason p req r ty) w2"
    using assms(3) by (auto simp: dispatch_request_def g split: prod.splits sum.splits)
  have "keeps w (log_request p req w1)"
    using same_but_logs_keeps [OF log_request_same [OF getRequestType_same [of w req]]] g by simp
  then have "keeps w w2" using main_registry.answer_keeps [of w _ svc ty req] a by (metis snd_conv)
  from keeps_log [OF this assms(2)] show ?thesis
    by (auto simp: w' wlog_pending wlog_ok prefix_def)
qed

theorem dispatch_logs_metrics_witness:
  "\<exists>r (w' :: world) es. pending (logs w') = es @
     [(INFO, metrics_line (\<lambda>_. ''OK'') sample_peer (get_request ''/health'') r Health)] \<and> lb_ok (logs w')"
proof -
  let ?d = "dispatch_request (server_registry echo_services) (\<lambda>_. ''OK'') sample_peer (get_request ''/health'') sample_world"
  have ty: "fst (getRequestType (get_request ''/health'') sample_world) = Inr Health" by code_simp
  have t: "target (get_request ''/health'') \<noteq> []" "req_method (get_request ''/health'') \<noteq> Unknown_verb"
    by (simp_all add: get_request_def)
  have h: "registered_handler Health (server_registry echo_services) = Some health_handle_request"
    by (simp add: server_registry_lookup)
  obtain r w' where d: "?d = (Inr r, w')"
    by (rule dispatch_handler [OF ty t h, of "\<lambda>_. ''OK''" sample_peer]) (auto simp: health_handle_request_def)
  have "lb_ok (logs sample_world)" by (simp add: sample_world_def lb_ok_new)
  from dispatch_logs_metrics [OF ty this d] show ?thesis
    by (metis append_assoc)
qed

text \<open>
  A request below no configured location is answered with 404 by the not-found handler, and
  no file changes.
\<close>

lemma dispatch_unrouted_not_found:
  assumes "normalised_target (target req) = Inr t" and "target req \<noteq> []" and "req_method req \<noteq> Unknown_verb"
    and "\<nexists>l ty. routed (getServerPaths (interp w)) t l ty"
  shows "\<exists>w'. dispatch_request (server_registry svc) reason p req w =
      (Inr (text_response Not_found ''text/plain'' (''404 Not Found'' @ CRLF @ CRLF)), w')
    \<and> files w' = files w"
proof -
  have ty: "fst (getRequestType req w) = Inr None_type" using getRequestType_not_routed [OF assms(1,4)] .
  have h: "registered_handler None_type (server_registry svc) = Some not_found_handle_request"
    by (simp add: server_registry_lookup)
  show ?thesis
    by (rule dispatch_handler [OF ty assms(2,3) h, of reason p])
      (simp add: not_found_handle_request_def same_but_logs_def)
qed

text \<open>
  A CRUD request that goes through the dispatcher is answered as the abstract store answers, and
  the files represent the store after it.
\<close>

lemma asks_target: "asks p l c req \<Longrightarrow> target req \<noteq> []"
proof -
  have "normalised_target [] = Inl (Undefined_behaviour ''back() of an empty string'')" by code_simp
  then show "asks p l c req \<Longrightarrow> target req \<noteq> []" by (auto simp: asks_def)
qed

lemma dispatch_crud:
  assumes "store_inv dp D (files w)" and "op_ok c (abs_store D (files w))"
    and "paths_ok (getServerPaths (interp w))" and "asks (getServerPaths (interp w)) l c req"
    and "map_at (crud_paths (getServerPaths (interp w))) l = dp"
  shows "\<exists>w'. dispatch_request (server_registry svc) reason p req w =
      (Inr (spec_response c (abs_store D (files w))), w')
    \<and> store_inv dp D (files w') \<and> interp w' = interp w
    \<and> abs_store D (files w') = spec_store c (abs_store D (files w))"
proof -
  have ty: "fst (getRequestType req w) = Inr CRUD"
    using getRequestType_routed [OF assms(3), of req "l @ op_suffix c" l CRUD] assms(4)
    by (simp add: asks_def served_type_def)
  have m: "req_method req \<noteq> Unknown_verb" using assms(4) by (cases c) (simp_all add: asks_def)
  have h: "registered_handler CRUD (server_registry svc) = Some crud_handler"
    by (simp add: server_registry_lookup)
  obtain w3 where w3: "same_but_logs w w3"
    and d: "dispatch_request (server_registry svc) reason p req w =
      (case crud_handler req w3 of
         (Inl e, w4) \<Rightarrow> (Inl e, w4)
       | (Inr r, w4) \<Rightarrow> (Inr r, wlog INFO (metrics_line reason p req r CRUD) w4))"
    by (rule dispatch_handler [OF ty asks_target [OF assms(4)] m h])
  have same: "files w3 = files w" "interp w3 = interp w" using w3 by (simp_all add: same_but_logs_def)
  obtain w4 where "crud_handler req w3 = (Inr (spec_response c (abs_store D (files w))), w4)"
    "store_inv dp D (files w4)" "interp w4 = interp w"
    "abs_store D (files w4) = spec_store c (abs_store D (files w))"
    using crud_handler_refines [of dp D w3 c l req] assms(1-5) same by auto
  then show ?thesis using d by simp
qed

end
