(* ===== verification/Session_Server.thy ===== *)
theory Session_Server
  imports Dispatch
begin

text \<open>
  Connections and the server: \<open>session.cc\<close> and \<open>server.cc\<close>. The first part is the classes
  \<open>session\<close> and \<open>server\<close>, one definition for each member function, the asynchronous operation a
  function starts being a field of the state. The second part runs the server as a step relation:
  Boost.Asio completes one outstanding operation and calls its handler, as one step, and no signal
  arrives. In the theory \<open>Threaded_Server\<close> the handlers of the two threads and the logging thread
  interleave; the runs of this theory are those in which they do not.
\<close>

subsection \<open>Sessions\<close>

text \<open>The asynchronous operation that is outstanding on the socket.\<close>

datatype pending_op = Idle | Reading | Writing

record session =
  pending_op :: pending_op
  session_request :: request
  session_response :: response

text \<open>
  The message that \<open>request_ = {}\<close> stores (Beast's default: the unknown method, no target, version
  1.1), and a new session. \<open>handle_read\<close> and \<open>handle_write\<close> start from a session whose operation
  has completed, so none is outstanding unless they start one.
\<close>

definition empty_request :: request where
  "empty_request =
     \<lparr>req_method = Unknown_verb, method_string = [], target = [], version = 11,
      header_fields = [], body = []\<rparr>"

definition new_session :: session where
  "new_session = \<lparr>pending_op = Idle, session_request = empty_request, session_response = new_response Ok 11 []\<rparr>"

definition session_start :: "'a session_scheme \<Rightarrow> bool \<times> 'a session_scheme" where
  "session_start c = (True, c\<lparr>pending_op := Reading\<rparr>)"

definition handle_read ::
  "registry \<Rightarrow> (status \<Rightarrow> string) \<Rightarrow> bool \<Rightarrow> peer \<Rightarrow> 'a session_scheme \<Rightarrow> world \<Rightarrow>
   bool result \<times> 'a session_scheme \<times> world" where
  "handle_read reg reason err p c w =
     (if \<not> err
      then (case dispatch_request reg reason p (session_request c) w of
              (Inl e, w') \<Rightarrow> (Inl e, c, w')
            | (Inr r, w') \<Rightarrow> (Inr True, c\<lparr>session_response := r, pending_op := Writing\<rparr>, w'))
      else (Inr False, c, w))"

definition sending_log :: "peer \<Rightarrow> world \<Rightarrow> world" where
  "sending_log p w =
     (let w1 = wlog INFO (''Sending response to '' @ address1 p) w
      in if not_connected p
         then wlog ERROR ''handle_write: Transport endpoint is not connected'' w1 else w1)"

definition handle_write ::
  "bool \<Rightarrow> peer \<Rightarrow> 'a session_scheme \<Rightarrow> world \<Rightarrow> bool \<times> 'a session_scheme \<times> world" where
  "handle_write err p c w =
     (let w1 = sending_log p w
      in if \<not> err
         then (True, c\<lparr>session_request := empty_request, pending_op := Reading\<rparr>, w1)
         else (False, c, w1))"

subsection \<open>The server\<close>

text \<open>
  A connection is a session with, for the properties only, the requests read from it and the
  responses written to it so far.
\<close>

record connection = session +
  reads :: "request list"
  sent :: "response list"

definition new_connection :: connection where
  "new_connection = session.extend new_session \<lparr>reads = [], sent = []\<rparr>"

text \<open>
  \<open>pending_accept\<close> is the session of the accept that is outstanding, \<open>console\<close> what is logged
  without the buffer, \<open>crash\<close> the exception that left a thread of the pool (which ends the process)
  or the undefined behaviour that was reached. \<open>logging_thread\<close> is where the logging thread is in its
  loop, \<open>written\<close> what it has handed to Boost.Log, \<open>killing\<close> whether a thread of the pool is in
  \<open>kill_server\<close> and waits for it.
\<close>

record server_state =
  endpoint_port :: "16 word"
  threadpool_size :: int
  threadpool :: nat
  program_terminated :: bool
  io_stopped :: bool
  pending_accept :: "connection option"
  connections :: "connection list"
  server_world :: world
  console :: "buffer_entry list"
  joining :: bool
  crash :: "exn option"
  logging_thread :: logger_pc
  written :: "buffer_entry list"
  killing :: bool

text \<open>
  \<open>make_shared\<close> never returns a null pointer, so the early return of \<open>start_accept\<close> is dead code.
\<close>

definition start_accept :: "server_state \<Rightarrow> bool \<times> server_state" where
  "start_accept s =
     (True, s\<lparr>console := console s @ [(INFO, ''Server now accepting requests.'')],
              pending_accept := Some new_connection\<rparr>)"

definition handle_accept :: "connection \<Rightarrow> string option \<Rightarrow> server_state \<Rightarrow> server_state" where
  "handle_accept c err s =
     snd (start_accept
       (case err of
          None \<Rightarrow> s\<lparr>connections := connections s @ [snd (session_start c)]\<rparr>
        | Some e \<Rightarrow> s\<lparr>console := console s @ [(ERROR, ''Error accepting sesssion: '' @ e)]\<rparr>))"

text \<open>
  \<open>"Starting server on port " + port\<close> moves a pointer into the literal; the number is not
  printed. Between 0 and 24 the result is a rest of the literal. Outside, the code reads memory
  that is not the literal's: what it finds there is the parameter \<open>stray\<close>.
\<close>

definition port_message :: "(int \<Rightarrow> string) \<Rightarrow> 16 word \<Rightarrow> string" where
  "port_message stray port =
     (let literal = ''Starting server on port ''
      in if 0 \<le> sint port \<and> sint port \<le> int (length literal)
         then drop (nat (sint port)) literal else stray (sint port))"

text \<open>The constructor; \<open>bind_ok\<close> answers whether the acceptor can be bound to the port.\<close>

definition new_server ::
  "(16 word \<Rightarrow> bool) \<Rightarrow> (int \<Rightarrow> string) \<Rightarrow> int \<Rightarrow> 16 word \<Rightarrow> world \<Rightarrow> server_state result" where
  "new_server bind_ok stray pool_size port w =
     (if bind_ok port
      then Inr (snd (start_accept
        \<lparr>endpoint_port = port, threadpool_size = pool_size, threadpool = 0, program_terminated = False,
         io_stopped = False, pending_accept = None, connections = [],
         server_world = wlog INFO (port_message stray port) w, console = [], joining = False,
         crash = None, logging_thread = Loop_head, written = [], killing = False\<rparr>))
      else Inl (Runtime_error ''bind''))"

definition slog :: "log_severity \<Rightarrow> string \<Rightarrow> server_state \<Rightarrow> server_state" where
  "slog sev msg s = s\<lparr>server_world := wlog sev msg (server_world s)\<rparr>"

text \<open>\<open>run\<close>, up to the loop that makes the threads and from the line that announces the join.\<close>

function make_threads :: "int \<Rightarrow> server_state \<Rightarrow> server_state" where
  "make_threads i s =
     (if i < threadpool_size s
      then make_threads (i + 1) (s\<lparr>threadpool := threadpool s + 1\<rparr>) else s)"
  by pat_completeness auto
termination by (relation "measure (\<lambda>(i, s). nat (threadpool_size s - i))") auto

declare make_threads.simps [simp del]

definition run_threads :: "server_state \<Rightarrow> server_state" where
  "run_threads s = make_threads 0 (slog INFO ''Creating threadpool'' (slog INFO ''Running the server'' s))"

definition run_join :: "server_state \<Rightarrow> server_state" where
  "run_join s = (slog INFO ''Joining threadpool threads'' s)\<lparr>joining := True\<rparr>"

text \<open>
  \<open>handle_logging\<close> runs in a thread of its own, from the constructor on; a step of it is a step of
  the theory \<open>Logging\<close> on the log of the server. What was added is what was written and what is
  still queued.
\<close>

definition log_view :: "server_state \<Rightarrow> log_system" where
  "log_view s =
     \<lparr>lbuf = logs (server_world s), pc = logging_thread s, terminated = program_terminated s,
      logged = written s, added = written s @ pending (logs (server_world s))\<rparr>"

definition handle_logging :: "server_state \<Rightarrow> server_state" where
  "handle_logging s =
     (let v = logger_step (log_view s)
      in s\<lparr>server_world := (server_world s)\<lparr>logs := lbuf v\<rparr>, logging_thread := pc v, written := logged v\<rparr>)"

text \<open>
  \<open>kill_server\<close> waits for the logging thread to leave its loop. It is declared to return a \<open>bool\<close> and
  ends without a return statement, which is undefined behaviour. The two definitions are what it
  does before the wait and after it.
\<close>

definition no_return :: exn where
  "no_return = Undefined_behaviour ''kill_server returns no value''"

definition kill_server :: "server_state \<Rightarrow> server_state" where
  "kill_server s =
     (slog INFO ''Recieved interupt signal. Terminating'' s)
       \<lparr>io_stopped := True, program_terminated := True, killing := True\<rparr>"

definition kill_server_ends :: "server_state \<Rightarrow> bool result \<times> server_state" where
  "kill_server_ends s = (Inl no_return, s\<lparr>crash := Some no_return\<rparr>)"

subsection \<open>The running server\<close>

text \<open>Completing the read or the write that is outstanding on connection \<open>i\<close>.\<close>

definition read_completes ::
  "registry \<Rightarrow> (status \<Rightarrow> string) \<Rightarrow> nat \<Rightarrow> request \<Rightarrow> bool \<Rightarrow> peer \<Rightarrow> server_state \<Rightarrow> server_state" where
  "read_completes reg reason i req err p s =
     (let c = (connections s ! i)\<lparr>pending_op := Idle, session_request := req\<rparr>;
          c1 = (if err then c else c\<lparr>reads := reads c @ [req]\<rparr>)
      in case handle_read reg reason err p c1 (server_world s) of
           (answer, c2, w) \<Rightarrow>
             s\<lparr>connections := (connections s)[i := c2], server_world := w,
               crash := (case answer of Inl e \<Rightarrow> Some e | Inr _ \<Rightarrow> None)\<rparr>)"

definition write_completes :: "nat \<Rightarrow> bool \<Rightarrow> peer \<Rightarrow> server_state \<Rightarrow> server_state" where
  "write_completes i err p s =
     (let c = (connections s ! i)\<lparr>pending_op := Idle\<rparr>;
          c1 = (if err then c else c\<lparr>sent := sent c @ [session_response c]\<rparr>)
      in case handle_write err p c1 (server_world s) of
           (_, c2, w) \<Rightarrow> s\<lparr>connections := (connections s)[i := c2], server_world := w\<rparr>)"

text \<open>The threads of the pool run handlers until the service is stopped or the process ends.\<close>

definition serving :: "server_state \<Rightarrow> bool" where
  "serving s \<longleftrightarrow> 0 < threadpool s \<and> \<not> io_stopped s \<and> crash s = None"

abbreviation outstanding :: "pending_op \<Rightarrow> nat \<Rightarrow> server_state \<Rightarrow> bool" where
  "outstanding a i s \<equiv> i < length (connections s) \<and> pending_op (connections s ! i) = a"

inductive server_step :: "registry \<Rightarrow> (status \<Rightarrow> string) \<Rightarrow> server_state \<Rightarrow> server_state \<Rightarrow> bool"
  for reg reason where
  step_accept: "serving s \<Longrightarrow> pending_accept s = Some c \<Longrightarrow>
    server_step reg reason s (handle_accept c err (s\<lparr>pending_accept := None\<rparr>))"
| step_read: "serving s \<Longrightarrow> outstanding Reading i s \<Longrightarrow>
    server_step reg reason s (read_completes reg reason i req err p s)"
| step_write: "serving s \<Longrightarrow> outstanding Writing i s \<Longrightarrow>
    server_step reg reason s (write_completes i err p s)"
| step_join: "\<not> joining s \<Longrightarrow> crash s = None \<Longrightarrow> server_step reg reason s (run_join s)"

inductive_simps server_step_iff: "server_step reg reason s t"

text \<open>A process that has ended does nothing more, and before the threads exist nothing is handled.\<close>

lemma crashed_stays: "crash s = Some e \<Longrightarrow> \<not> server_step reg reason s t"
  by (simp add: server_step_iff serving_def)

lemma idle_before_run: "threadpool s = 0 \<Longrightarrow> server_step reg reason s t \<Longrightarrow> t = run_join s"
  by (auto simp: server_step_iff serving_def)

subsection \<open>What the functions do\<close>

lemma make_threads_eq:
  "make_threads i s = s\<lparr>threadpool := threadpool s + nat (threadpool_size s - i)\<rparr>"
proof (induction i s rule: make_threads.induct)
  case (1 i s)
  show ?case
  proof (cases "i < threadpool_size s")
    case True
    then have "nat (threadpool_size s - i) = Suc (nat (threadpool_size s - (i + 1)))" by simp
    with True 1 show ?thesis by (simp add: make_threads.simps [of i s])
  qed (simp add: make_threads.simps [of i s])
qed

lemma slog_fields [simp]:
  "endpoint_port (slog sev msg s) = endpoint_port s" "threadpool_size (slog sev msg s) = threadpool_size s"
  "threadpool (slog sev msg s) = threadpool s" "io_stopped (slog sev msg s) = io_stopped s"
  "pending_accept (slog sev msg s) = pending_accept s" "connections (slog sev msg s) = connections s"
  "crash (slog sev msg s) = crash s" "joining (slog sev msg s) = joining s"
  "program_terminated (slog sev msg s) = program_terminated s" "killing (slog sev msg s) = killing s"
  "logging_thread (slog sev msg s) = logging_thread s" "written (slog sev msg s) = written s"
  "interp (server_world (slog sev msg s)) = interp (server_world s)"
  "keeps w (server_world s) \<Longrightarrow> keeps w (server_world (slog sev msg s))"
  by (simp_all add: slog_def)

lemma handle_accept_fields [simp]:
  "pending_accept (handle_accept c err s) = Some new_connection"
  "server_world (handle_accept c err s) = server_world s"
  "crash (handle_accept c err s) = crash s" "io_stopped (handle_accept c err s) = io_stopped s"
  "threadpool (handle_accept c err s) = threadpool s" "killing (handle_accept c err s) = killing s"
  "logging_thread (handle_accept c err s) = logging_thread s" "written (handle_accept c err s) = written s"
  "program_terminated (handle_accept c err s) = program_terminated s"
  "connections (handle_accept c err s) =
     connections s @ (if err = None then [c\<lparr>pending_op := Reading\<rparr>] else [])"
  by (simp_all add: handle_accept_def start_accept_def session_start_def split: option.split)

lemma sending_log_same [simp]: "same_but_logs w (sending_log p w)"
  by (simp add: sending_log_def Let_def)

lemma write_completes_eq:
  "write_completes i err p s = s\<lparr>connections := (connections s)[i :=
      (if err then (connections s ! i)\<lparr>pending_op := Idle\<rparr>
       else (connections s ! i)
         \<lparr>sent := sent (connections s ! i) @ [session_response (connections s ! i)],
          session_request := empty_request, pending_op := Reading\<rparr>)],
     server_world := sending_log p (server_world s)\<rparr>"
  by (simp add: write_completes_def handle_write_def Let_def)

lemma read_completes_eq:
  "read_completes reg reason i req err p s =
     (let c = (connections s ! i)\<lparr>pending_op := Idle, session_request := req\<rparr>
      in if err then s\<lparr>connections := (connections s)[i := c], crash := None\<rparr>
         else (case dispatch_request reg reason p req (server_world s) of
             (Inl e, w) \<Rightarrow> s\<lparr>connections := (connections s)[i := c\<lparr>reads := reads c @ [req]\<rparr>],
                server_world := w, crash := Some e\<rparr>
           | (Inr r, w) \<Rightarrow> s\<lparr>connections := (connections s)[i :=
                c\<lparr>reads := reads c @ [req], session_response := r, pending_op := Writing\<rparr>],
                server_world := w, crash := None\<rparr>))"
  by (simp add: read_completes_def handle_read_def Let_def split: prod.split sum.split)

subsection \<open>One request on a connection\<close>

text \<open>
  If the dispatcher answers, the read and then the write complete: the response is sent, the
  connection reads again, and the other connections are as before.
\<close>

lemma exchange:
  assumes "serving s" and "outstanding Reading i s"
    and "dispatch_request reg reason p req (server_world s) = (Inr r, w')"
  obtains t where "(server_step reg reason)\<^sup>*\<^sup>* s t" and "serving t" and "outstanding Reading i t"
    and "server_world t = sending_log p' w'"
    and "connections t = (connections s)[i := connections t ! i]"
    and "reads (connections t ! i) = reads (connections s ! i) @ [req]"
    and "sent (connections t ! i) = sent (connections s ! i) @ [r]"
proof -
  define u where "u = read_completes reg reason i req False p s"
  define t where "t = write_completes i False p' u"
  have u: "u = s\<lparr>connections := (connections s)[i :=
      (connections s ! i)\<lparr>session_request := req, reads := reads (connections s ! i) @ [req],
        session_response := r, pending_op := Writing\<rparr>], server_world := w', crash := None\<rparr>"
    using assms(3) by (simp add: u_def read_completes_eq Let_def)
  have step1: "server_step reg reason s u" unfolding u_def by (rule step_read [OF assms(1,2)])
  have "serving u" "outstanding Writing i u" using assms(1,2) by (simp_all add: u serving_def)
  then have step2: "server_step reg reason u t" unfolding t_def by (rule step_write)
  show thesis
  proof (rule that [of t])
    show "(server_step reg reason)\<^sup>*\<^sup>* s t" using step1 step2 by (meson rtranclp.simps)
  qed (use assms(1,2) in \<open>simp_all add: t_def u write_completes_eq serving_def\<close>)
qed

subsection \<open>Example servers\<close>

definition sample_server :: "world \<Rightarrow> server_state" where
  "sample_server w =
     snd (start_accept
        \<lparr>endpoint_port = 8080, threadpool_size = 2, threadpool = 0, program_terminated = False,
         io_stopped = False, pending_accept = None, connections = [],
         server_world = wlog INFO [] w, console = [], joining = False, crash = None,
         logging_thread = Loop_head, written = [], killing = False\<rparr>)"

lemma sample_server_new:
  "new_server (\<lambda>_. True) (\<lambda>_. []) 2 8080 w = Inr (sample_server w)"
proof -
  have "port_message (\<lambda>_. []) 8080 = []" by (simp add: port_message_def)
  then show ?thesis by (simp add: new_server_def sample_server_def)
qed

text \<open>The sample server after the first accept.\<close>

definition sample_accepted :: "world \<Rightarrow> server_state" where
  "sample_accepted w =
     handle_accept new_connection None ((run_threads (sample_server w))\<lparr>pending_accept := None\<rparr>)"

lemma sample_accepted_step:
  "server_step reg reason (run_threads (sample_server w)) (sample_accepted w)"
proof -
  have "serving (run_threads (sample_server w))" "pending_accept (run_threads (sample_server w)) = Some new_connection"
    by (simp_all add: serving_def run_threads_def make_threads_eq sample_server_def start_accept_def)
  then show ?thesis unfolding sample_accepted_def by (rule step_accept)
qed

lemma sample_accepted_state:
  "serving (sample_accepted w)" "outstanding Reading 0 (sample_accepted w)"
  "connections (sample_accepted w) = [new_connection\<lparr>pending_op := Reading\<rparr>]"
  "files (server_world (sample_accepted w)) = files w" "interp (server_world (sample_accepted w)) = interp w"
  by (simp_all add: sample_accepted_def serving_def run_threads_def make_threads_eq sample_server_def
      start_accept_def slog_def)

lemma sample_health:
  "\<exists>w'. dispatch_request (server_registry svc) reason p (get_request ''/health'')
      (server_world (sample_accepted sample_world)) = (Inr (text_response Ok ''text/plain'' []), w')"
proof -
  have ty: "fst (getRequestType (get_request ''/health'') (server_world (sample_accepted sample_world))) = Inr Health"
    by code_simp
  have t: "target (get_request ''/health'') \<noteq> []" "req_method (get_request ''/health'') \<noteq> Unknown_verb"
    by (simp_all add: get_request_def)
  have h: "registered_handler Health (server_registry svc) = Some health_handle_request"
    by (simp add: server_registry_lookup)
  show ?thesis
    by (rule dispatch_handler [OF ty t h, of reason p]) (simp add: health_handle_request_def)
qed

subsection \<open>One connection against the abstract store\<close>

text \<open>
  A client that sends well-formed CRUD requests for a configured location one after the other gets
  the responses of the abstract store.
\<close>

lemma serves_store:
  assumes "serving s" and "outstanding Reading i s" and "store_inv dp D (files (server_world s))"
    and "ops_ok cs (abs_store D (files (server_world s)))"
    and "paths_ok (getServerPaths (interp (server_world s)))"
    and "list_all2 (asks (getServerPaths (interp (server_world s))) l) cs reqs"
    and "map_at (crud_paths (getServerPaths (interp (server_world s)))) l = dp"
  shows "\<exists>t. (server_step (server_registry svc) reason)\<^sup>*\<^sup>* s t \<and> serving t \<and> outstanding Reading i t
    \<and> reads (connections t ! i) = reads (connections s ! i) @ reqs
    \<and> sent (connections t ! i) =
        sent (connections s ! i) @ fst (spec_run cs (abs_store D (files (server_world s))))
    \<and> store_inv dp D (files (server_world t))
    \<and> abs_store D (files (server_world t)) = snd (spec_run cs (abs_store D (files (server_world s))))"
  using assms
proof (induction cs arbitrary: s reqs)
  case Nil
  then show ?case by (intro exI [of _ s]) simp
next
  case (Cons c cs)
  let ?w = "server_world s"
  let ?S = "abs_store D (files ?w)"
  obtain req reqs' where reqs: "reqs = req # reqs'" and a: "asks (getServerPaths (interp ?w)) l c req"
    and as: "list_all2 (asks (getServerPaths (interp ?w)) l) cs reqs'"
    using Cons.prems(6) by (auto simp: list_all2_Cons1)
  have ok: "op_ok c ?S" "ops_ok cs (spec_store c ?S)" using Cons.prems(4) by simp_all
  obtain w' where d: "dispatch_request (server_registry svc) reason sample_peer req ?w =
      (Inr (spec_response c ?S), w')"
    and w': "store_inv dp D (files w')" "interp w' = interp ?w" "abs_store D (files w') = spec_store c ?S"
    using dispatch_crud [OF Cons.prems(3) ok(1) Cons.prems(5) a Cons.prems(7)] by blast
  obtain t where t: "(server_step (server_registry svc) reason)\<^sup>*\<^sup>* s t" "serving t" "outstanding Reading i t"
      "server_world t = sending_log sample_peer w'"
      "reads (connections t ! i) = reads (connections s ! i) @ [req]"
      "sent (connections t ! i) = sent (connections s ! i) @ [spec_response c ?S]"
    by (rule exchange [OF Cons.prems(1,2) d])
  have same: "files (server_world t) = files w'" "interp (server_world t) = interp ?w"
    using sending_log_same [of w' sample_peer] t(4) w'(2) by (simp_all add: same_but_logs_def)
  have "store_inv dp D (files (server_world t))" "ops_ok cs (abs_store D (files (server_world t)))"
    using w' ok(2) by (simp_all add: same)
  from Cons.IH [OF t(2,3) this, of reqs'] Cons.prems(5,7) as
  obtain v where v: "(server_step (server_registry svc) reason)\<^sup>*\<^sup>* t v" "serving v" "outstanding Reading i v"
    "reads (connections v ! i) = reads (connections t ! i) @ reqs'"
    "sent (connections v ! i) = sent (connections t ! i) @ fst (spec_run cs (abs_store D (files (server_world t))))"
    "store_inv dp D (files (server_world v))"
    "abs_store D (files (server_world v)) = snd (spec_run cs (abs_store D (files (server_world t))))"
    unfolding same by auto
  show ?case
  proof (intro exI [of _ v] conjI)
    show "(server_step (server_registry svc) reason)\<^sup>*\<^sup>* s v" using t(1) v(1) by (rule rtranclp_trans)
  qed (use v t(5,6) w'(3) same in \<open>simp_all add: reqs split_beta\<close>)
qed

subsection \<open>What goes wrong\<close>

text \<open>
  One PUT with a word for an identifier ends the whole server: the exception of \<open>stoull\<close> leaves
  the thread of the pool.
\<close>

lemma put_word_ends_server:
  "crash (read_completes (server_registry echo_services) (\<lambda>_. []) 0
     (crud_request Put ''/api/Shoes/red'' ''x'') False sample_peer (sample_accepted crud_world)) = Some Invalid_argument"
proof -
  have "fst (dispatch_request (server_registry echo_services) (\<lambda>_. []) sample_peer
      (crud_request Put ''/api/Shoes/red'' ''x'') (server_world (sample_accepted crud_world))) = Inl Invalid_argument"
    by code_simp
  then show ?thesis by (simp add: read_completes_eq Let_def prod.case_eq_if)
qed

text \<open>The start message of a port above 24 is not text of the program.\<close>

lemma port_message_stray:
  "24 < sint port \<Longrightarrow> port_message stray port = stray (sint port)"
  by (simp add: port_message_def)

end
