(* ===== verification/Atomic_Steps.thy ===== *)
theory Atomic_Steps
  imports Crud_Handler
begin

text \<open>
  The CRUD handler as a program of atomic steps, for running two of them at once. A step is a log
  entry, a call of \<open>std::filesystem\<close>, or the use of one file stream from its opening to its closing;
  between two steps another thread may change the files and the log. The mutex of the file
  manager belongs to the thread, since each request has a file manager of its own. Run without
  interruption the program is the handler of theory \<open>Crud_Handler\<close>.
\<close>

subsection \<open>Programs\<close>

text \<open>
  A program has returned, or does a step to the world and goes on with what it saw before the
  step.
\<close>

datatype 'a prog = Ret 'a | Act "world \<Rightarrow> world" "world \<Rightarrow> 'a prog"

primrec run :: "'a prog \<Rightarrow> world \<Rightarrow> 'a \<times> world" where
  "run (Ret a) = (\<lambda>w. (a, w))"
| "run (Act g k) = (\<lambda>w. run (k w) (g w))"

primrec and_then :: "'a prog \<Rightarrow> ('a \<Rightarrow> 'b prog) \<Rightarrow> 'b prog" where
  "and_then (Ret a) f = f a"
| "and_then (Act g k) f = Act g (\<lambda>w. and_then (k w) f)"

text \<open>An operation on the world as one step.\<close>

definition step :: "(world \<Rightarrow> 'a \<times> world) \<Rightarrow> 'a prog" where
  "step op = Act (\<lambda>w. snd (op w)) (\<lambda>w. Ret (fst (op w)))"

lemma run_and_then [simp]: "run (and_then p f) w = run (f (fst (run p w))) (snd (run p w))"
  by (induction p arbitrary: w) simp_all

lemma run_step [simp]: "run (step op) w = op w"
  by (simp add: step_def)

text \<open>
  Rely and guarantee: wherever the world satisfies \<open>I\<close> when the program is to do a step, the step
  is in \<open>R\<close>. What other threads do between the steps is only assumed to keep \<open>I\<close>.
\<close>

primrec each_step :: "(world \<Rightarrow> bool) \<Rightarrow> (world \<Rightarrow> world \<Rightarrow> bool) \<Rightarrow> 'a prog \<Rightarrow> bool" where
  "each_step I R (Ret a) \<longleftrightarrow> True"
| "each_step I R (Act g k) \<longleftrightarrow> (\<forall>w. I w \<longrightarrow> R w (g w) \<and> each_step I R (k w))"

text \<open>The values a program can return if others act between its steps.\<close>

primrec may_return :: "(world \<Rightarrow> bool) \<Rightarrow> 'a prog \<Rightarrow> 'a \<Rightarrow> bool" where
  "may_return I (Ret a) b \<longleftrightarrow> b = a"
| "may_return I (Act g k) b \<longleftrightarrow> (\<exists>w. I w \<and> may_return I (k w) b)"

lemma may_return_and_then:
  "may_return I (and_then p f) b \<longleftrightarrow> (\<exists>a. may_return I p a \<and> may_return I (f a) b)"
  by (induction p) auto

lemma may_return_step [simp]: "may_return I (step op) b \<longleftrightarrow> (\<exists>w. I w \<and> b = fst (op w))"
  by (simp add: step_def)

lemma each_step_and_then:
  "each_step I R p \<Longrightarrow> (\<And>a. may_return I p a \<Longrightarrow> each_step I R (f a)) \<Longrightarrow> each_step I R (and_then p f)"
  by (induction p) auto

lemma each_step_step [simp]: "each_step I R (step op) \<longleftrightarrow> (\<forall>w. I w \<longrightarrow> R w (snd (op w)))"
  by (simp add: step_def)

text \<open>A run without interruption is a chain of steps.\<close>

lemma each_step_run:
  assumes "each_step I R p" and "I w" and "\<And>u v. I u \<Longrightarrow> R u v \<Longrightarrow> I v"
    and "\<And>w. R w w" and "\<And>u v w. R u v \<Longrightarrow> R v w \<Longrightarrow> R u w"
  shows "R w (snd (run p w))"
  using assms(1,2)
proof (induction p arbitrary: w)
  case (Act g k)
  then have s: "R w (g w)" "each_step I R (k w)" by auto
  have "R (g w) (snd (run (k w) (g w)))"
    using Act.IH [OF _ s(2) assms(3) [OF Act.prems(2) s(1)]] by blast
  with s(1) show ?case using assms(5) by auto
qed (simp add: assms(4))

subsection \<open>The file manager\<close>

definition log_entry :: "log_severity \<Rightarrow> string \<Rightarrow> unit prog" where
  "log_entry sev msg = step (\<lambda>w. ((), wlog sev msg w))"

definition exists_step :: "string \<Rightarrow> bool prog" where
  "exists_step s = step (\<lambda>w. (exists_path (files w) s, w))"

definition create_step :: "string \<Rightarrow> bool prog" where
  "create_step s = step (\<lambda>w. (fst (create_directories (files w) s), wfiles (snd (create_directories (files w) s)) w))"

definition write_step :: "string \<Rightarrow> string \<Rightarrow> bool prog" where
  "write_step s txt = step (\<lambda>w. (fst (write_file (files w) s txt), wfiles (snd (write_file (files w) s txt)) w))"

definition append_step :: "string \<Rightarrow> string \<Rightarrow> bool prog" where
  "append_step s txt = step (\<lambda>w. (fst (append_file (files w) s txt), wfiles (snd (append_file (files w) s txt)) w))"

definition remove_step :: "string \<Rightarrow> bool result prog" where
  "remove_step s = step (\<lambda>w. (fst (remove_path (files w) s), wfiles (snd (remove_path (files w) s)) w))"

definition copy_step :: "string \<Rightarrow> string \<Rightarrow> unit result prog" where
  "copy_step from to =
     step (\<lambda>w. (fst (copy_file (files w) from to), wfiles (snd (copy_file (files w) from to)) w))"

definition read_step :: "string \<Rightarrow> fnode option prog" where
  "read_step s = step (\<lambda>w. (open_read (files w) s, w))"

definition read_write_step :: "string \<Rightarrow> string option prog" where
  "read_write_step s = step (\<lambda>w. (open_read_write (files w) s, w))"

text \<open>\<open>entity_id_file_mutex.lock()\<close>: false if the thread itself holds it.\<close>

definition lock_step :: "bool prog" where
  "lock_step = step (\<lambda>w. if entity_mutex w then (False, w) else (True, wlock True w))"

definition unlock_step :: "unit prog" where
  "unlock_step = step (\<lambda>w. ((), wlock False w))"

definition readObject_steps :: "crud_path \<Rightarrow> string option prog" where
  "readObject_steps path =
     and_then (read_step (object_file path)) (\<lambda>r.
       case r of
         None \<Rightarrow> and_then (log_entry ERROR (''unable to open file '' @ object_file path)) (\<lambda>_. Ret None)
       | Some n \<Rightarrow>
           and_then (log_entry INFO (''found read success: '' @ object_file path)) (\<lambda>_. Ret (Some (node_text n))))"

definition deleteObject_steps :: "crud_path \<Rightarrow> bool prog" where
  "deleteObject_steps path =
     and_then (exists_step (object_file path)) (\<lambda>ex.
       if \<not> ex then and_then (log_entry ERROR (''file doesn't exist: '' @ object_file path)) (\<lambda>_. Ret False)
       else and_then (remove_step (object_file path)) (\<lambda>r.
         Ret (case r of Inl e \<Rightarrow> False | Inr b \<Rightarrow> b)))"

definition listObjects_steps :: "crud_path \<Rightarrow> string list prog" where
  "listObjects_steps path =
     (let dir_path = data_path path @ ''/'' @ entity_name path @ ''/'' in
      and_then (step (\<lambda>w. (list_directory (files w) dir_path, w))) (\<lambda>r.
        case r of
          Some names \<Rightarrow> Ret (sort names)
        | None \<Rightarrow> and_then (log_entry ERROR (''Unable to read directory at: '' @ dir_path)) (\<lambda>_. Ret [])))"

definition ensure_directory_steps :: "log_severity \<Rightarrow> string \<Rightarrow> unit prog" where
  "ensure_directory_steps failure directory =
     and_then (exists_step directory) (\<lambda>ex.
       if ex then Ret ()
       else and_then (log_entry INFO (''directory '' @ directory @ '' missing, attempting to create'')) (\<lambda>_.
         and_then (create_step directory) (\<lambda>made.
           if made then Ret ()
           else log_entry failure (''error creating directory '' @ directory @ '' for CRUD request''))))"

definition generateEntityId_steps :: "crud_path \<Rightarrow> string result prog" where
  "generateEntityId_steps path =
     and_then lock_step (\<lambda>locked. if \<not> locked then Ret (Inl Deadlock) else
     and_then (ensure_directory_steps INFO (data_path path)) (\<lambda>_.
     and_then (exists_step (max_ids_file path)) (\<lambda>ex.
     and_then (if ex then Ret () else
         and_then (log_entry INFO ''Max file doesn't exist'') (\<lambda>_.
         and_then (write_step (max_ids_file path) []) (\<lambda>_. Ret ()))) (\<lambda>_.
     and_then (read_write_step (max_ids_file path)) (\<lambda>file.
       case file of
         None \<Rightarrow>
           and_then (log_entry ERROR (''Could not open '' @ max_ids_file path @ '' to get max entity IDs'')) (\<lambda>_.
           and_then unlock_step (\<lambda>_. Ret (Inr ''1'')))
       | Some text \<Rightarrow>
           and_then unlock_step (\<lambda>_. Ret
             (case find (is_id_line (entity_name path)) (words_of text) of
                None \<Rightarrow> Inr ''1''
              | Some line \<Rightarrow>
                  (case bind_result (substr1 line (length (entity_name path) + 1)) stoull of
                     Inl e \<Rightarrow> Inl e
                   | Inr max_id \<Rightarrow> Inr (to_string_u64 (max_id + 1))))))))))"

text \<open>
  In \<open>writeEntityId\<close> the stream \<open>filein\<close> is read after \<open>fileout\<close> has emptied the temporary file; both
  are used before either is closed. The steps are the reading of one and the writing of the other.
\<close>

definition replace_ids_steps :: "crud_path \<Rightarrow> 64 word \<Rightarrow> bool result prog" where
  "replace_ids_steps path max_id =
     and_then (read_step (max_ids_file path)) (\<lambda>filein.
     and_then (write_step temp_file
         (case filein of None \<Rightarrow> []
          | Some n \<Rightarrow> unlines (rewrite_ids (entity_name path) max_id (words_of (node_text n))))) (\<lambda>opened.
       if \<not> opened \<or> filein = None then and_then unlock_step (\<lambda>_. Ret (Inr False))
       else and_then (copy_step temp_file (max_ids_file path)) (\<lambda>r.
         case r of
           Inl e \<Rightarrow> Ret (Inl e)
         | Inr _ \<Rightarrow> and_then (remove_step temp_file) (\<lambda>r.
             case r of
               Inl e \<Rightarrow> Ret (Inl e)
             | Inr _ \<Rightarrow> and_then unlock_step (\<lambda>_. Ret (Inr True))))))"

definition writeEntityId_steps :: "crud_path \<Rightarrow> 64 word \<Rightarrow> bool result prog" where
  "writeEntityId_steps path max_id =
     and_then lock_step (\<lambda>locked. if \<not> locked then Ret (Inl Deadlock) else
     and_then (ensure_directory_steps ERROR (data_path path)) (\<lambda>_.
     and_then (exists_step (entity_dir path)) (\<lambda>ex.
       if \<not> ex then
         and_then (append_step (max_ids_file path) ([CHR 0x0A] @ id_line (entity_name path) max_id)) (\<lambda>opened.
           if \<not> opened then
             and_then (log_entry ERROR (''Could not open '' @ max_ids_file path @ '' to write to it.'')) (\<lambda>_.
             and_then unlock_step (\<lambda>_. Ret (Inr False)))
           else and_then unlock_step (\<lambda>_. Ret (Inr True)))
       else replace_ids_steps path max_id)))"

definition new_entity_steps :: "crud_path \<Rightarrow> unit result prog" where
  "new_entity_steps path =
     (let failed = and_then (log_entry ERROR (''error creating directory '' @ entity_dir path @ '' for CRUD request''))
                     (\<lambda>_. Ret (Inr ()))
      in and_then (exists_step (entity_dir path)) (\<lambda>ex.
        if ex then Ret (Inr ())
        else
          and_then (log_entry INFO (''directory '' @ entity_dir path @ '' missing, attempting to create'')) (\<lambda>_.
          and_then (writeEntityId_steps path 1) (\<lambda>r.
            case r of
              Inl e \<Rightarrow> if e = Filesystem_error then failed else Ret (Inl e)
            | Inr _ \<Rightarrow> and_then (create_step (entity_dir path)) (\<lambda>made.
                if made then Ret (Inr ()) else failed)))))"

definition record_id_steps :: "crud_path \<Rightarrow> unit result prog" where
  "record_id_steps path =
     (if entity_id path = [] then Ret (Inr ())
      else case stoull (entity_id path) of
        Inl e \<Rightarrow> Ret (Inl e)
      | Inr this_id \<Rightarrow>
          and_then (generateEntityId_steps path) (\<lambda>r.
            case bind_result r stoull of
              Inl e \<Rightarrow> Ret (Inl e)
            | Inr unused_id \<Rightarrow>
                if this_id \<ge> unused_id then
                  and_then (writeEntityId_steps path this_id) (\<lambda>r.
                    Ret (case r of Inl e \<Rightarrow> Inl e | Inr _ \<Rightarrow> Inr ()))
                else Ret (Inr ())))"

definition writeObject_steps :: "crud_path \<Rightarrow> string \<Rightarrow> bool result prog" where
  "writeObject_steps path json =
     and_then (new_entity_steps path) (\<lambda>r. case r of Inl e \<Rightarrow> Ret (Inl e) | Inr _ \<Rightarrow>
     and_then (log_entry INFO (''creating Entity '' @ entity_name path @ '' at path '' @ object_file path)) (\<lambda>_.
     and_then (record_id_steps path) (\<lambda>r. case r of Inl e \<Rightarrow> Ret (Inl e) | Inr _ \<Rightarrow>
     and_then (write_step (object_file path) json) (\<lambda>opened.
       if \<not> opened then Ret (Inr False)
       else and_then (log_entry INFO ''file creation success'') (\<lambda>_. Ret (Inr True))))))"

subsection \<open>The handler\<close>

definition handle_post_steps :: "crud_path \<Rightarrow> request \<Rightarrow> response result prog" where
  "handle_post_steps path req =
     (if entity_id path \<noteq> [] then
        and_then (log_entry ERROR ''Invalid CRUD POST request. Request may not contain Entity ID'') (\<lambda>_.
        Ret (Inr bad_request))
      else
        and_then (generateEntityId_steps path) (\<lambda>r. case r of Inl e \<Rightarrow> Ret (Inl e) | Inr new_id \<Rightarrow>
          (case stoull new_id of
             Inl e \<Rightarrow> Ret (Inl e)
           | Inr v \<Rightarrow>
               and_then (log_entry INFO (''POST request body: '' @ body req)) (\<lambda>_.
               and_then (writeObject_steps (path\<lparr>entity_id := to_string_u64 v\<rparr>) (body req)) (\<lambda>r.
                 Ret (case r of
                        Inl e \<Rightarrow> Inl e
                      | Inr _ \<Rightarrow> Inr (text_response Created ''text/plain'' (id_json new_id))))))))"

definition handle_list_steps :: "crud_path \<Rightarrow> request \<Rightarrow> response result prog" where
  "handle_list_steps path req =
     (if entity_name path = [] then
        and_then (log_entry ERROR ''Invalid CRUD GET request. Request must contain Entity Name'') (\<lambda>_.
        Ret (Inr bad_request))
      else
        and_then (listObjects_steps path) (\<lambda>file_names_list.
        Ret (Inr (text_response Ok ''application/json'' (list_body file_names_list)))))"

definition handle_get_steps :: "crud_path \<Rightarrow> request \<Rightarrow> response result prog" where
  "handle_get_steps path req =
     (if entity_id path = [] then handle_list_steps path req
      else
        and_then (readObject_steps path) (\<lambda>r. case r of
          None \<Rightarrow>
            and_then (log_entry ERROR ''Error reading requested file.'') (\<lambda>_.
            Ret (Inr (text_response Not_found ''text/plain'' (''404 Not Found'' @ CRLF @ CRLF))))
        | Some file_contents \<Rightarrow> Ret (Inr (text_response Ok ''application/json'' file_contents))))"

definition handle_put_steps :: "crud_path \<Rightarrow> request \<Rightarrow> response result prog" where
  "handle_put_steps path req =
     (if entity_name path = [] \<or> entity_id path = [] then
        and_then (log_entry ERROR ''Invalid CRUD POST request. Request must contain Entity Name and Entity ID'') (\<lambda>_.
        Ret (Inr bad_request))
      else
        and_then (log_entry INFO (''PUT request body: '' @ body req)) (\<lambda>_.
        and_then (exists_step (object_file path)) (\<lambda>entity_exists.
        and_then (writeObject_steps path (body req)) (\<lambda>r. Ret (case r of
            Inl e \<Rightarrow> Inl e
          | Inr _ \<Rightarrow>
              Inr (if \<not> entity_exists then text_response Created ''text/plain'' (id_json (entity_id path))
                   else text_response Ok ''text/plain'' ''Successful update.''))))))"

definition handle_del_steps :: "crud_path \<Rightarrow> request \<Rightarrow> response result prog" where
  "handle_del_steps path req =
     (if entity_name path = [] \<or> entity_id path = [] then
        and_then (log_entry ERROR ''Invalid CRUD DELETE request. Request must contain Entity Name and Entity ID'') (\<lambda>_.
        Ret (Inr bad_request))
      else
        and_then (deleteObject_steps path) (\<lambda>object_existed.
        Ret (Inr (if object_existed then text_response Ok ''text/plain'' ''Successful delete.''
                  else text_response No_content ''text/plain'' []))))"

text \<open>Finding the path only logs and reads the configuration; it is one step.\<close>

definition crud_method_steps :: "crud_path \<Rightarrow> request \<Rightarrow> response result prog" where
  "crud_method_steps path req =
     (if req_method req \<noteq> Get \<and> req_method req \<noteq> Post \<and> req_method req \<noteq> Put \<and> req_method req \<noteq> Delete then
        and_then (log_entry ERROR ''Invalid CRUD request method. Must be one of POST/GET/PUT/DELETE'') (\<lambda>_.
        Ret (Inr (text_response Bad_request ''text/plain'' bad_method_body)))
      else if entity_name path = [] then
        and_then (log_entry ERROR ''Invalid CRUD request. Missing Entity name'') (\<lambda>_.
        Ret (Inr (text_response Bad_request ''text/plain'' no_entity_body)))
      else if req_method req = Post then handle_post_steps path req
      else if req_method req = Get then handle_get_steps path req
      else if req_method req = Put then handle_put_steps path req
      else handle_del_steps path req)"

definition crud_handle_request_steps :: "request \<Rightarrow> response result prog" where
  "crud_handle_request_steps req =
     and_then (step (getCrudEntityPath req)) (\<lambda>r. case r of
       Inl e \<Rightarrow> Ret (Inl e)
     | Inr path \<Rightarrow> crud_method_steps path req)"

definition crud_handler_steps :: "request \<Rightarrow> response result prog" where
  "crud_handler_steps req = and_then unlock_step (\<lambda>_. crud_handle_request_steps req)"

subsection \<open>Without interruption the steps are the operations\<close>

lemmas file_steps =
  log_entry_def exists_step_def create_step_def write_step_def append_step_def remove_step_def
  copy_step_def read_step_def read_write_step_def lock_step_def unlock_step_def

lemma wfiles_same [simp]: "wfiles (files w) w = w"
  by (simp add: wfiles_def)

lemma run_readObject [simp]: "run (readObject_steps path) w = readObject path w"
  by (simp add: readObject_steps_def readObject_def file_steps split: option.split)

lemma run_deleteObject [simp]: "run (deleteObject_steps path) w = deleteObject path w"
  by (simp add: deleteObject_steps_def deleteObject_def existsObject_def file_steps prod.case_eq_if sum.case_eq_if)

lemma run_listObjects [simp]: "run (listObjects_steps path) w = listObjects path w"
  by (simp add: listObjects_steps_def listObjects_def file_steps Let_def split: option.split)

lemma run_ensure_directory [simp]:
  "run (ensure_directory_steps failure d) w = ((), ensure_directory failure d w)"
  by (simp add: ensure_directory_steps_def ensure_directory_def file_steps prod.case_eq_if Let_def)

lemma run_generateEntityId [simp]: "run (generateEntityId_steps path) w = generateEntityId path w"
  by (simp add: generateEntityId_steps_def generateEntityId_def file_steps prod.case_eq_if Let_def
      split: option.split sum.split)

lemma run_replace_ids:
  "run (replace_ids_steps path v) w =
     (let filein = open_read (files w) (max_ids_file path);
          lines = rewrite_ids (entity_name path) v
                    (case filein of None \<Rightarrow> [] | Some n \<Rightarrow> words_of (node_text n))
      in case write_file (files w) temp_file (if filein = None then [] else unlines lines) of
           (False, _) \<Rightarrow> (Inr False, wlock False w)
         | (True, f) \<Rightarrow>
             (if filein = None then (Inr False, wlock False (wfiles f w))
              else case copy_file f temp_file (max_ids_file path) of
                     (Inl e, f1) \<Rightarrow> (Inl e, wfiles f1 w)
                   | (Inr _, f1) \<Rightarrow>
                       (case remove_path f1 temp_file of
                          (Inl e, f2) \<Rightarrow> (Inl e, wfiles f2 w)
                        | (Inr _, f2) \<Rightarrow> (Inr True, wlock False (wfiles f2 w)))))"
proof -
  have closed: "write_file f s t = (False, f') \<Longrightarrow> f' = f" for f s t f'
    by (auto simp: write_file_def write_with_def split: option.splits fnode.splits if_splits)
  show ?thesis
    by (auto simp: replace_ids_steps_def file_steps Let_def dest!: closed
        split: option.split sum.split prod.split bool.split)
qed

lemma run_writeEntityId [simp]: "run (writeEntityId_steps path v) w = writeEntityId path v w"
proof -
  have closed: "append_file f s t = (False, f') \<Longrightarrow> f' = f" for f s t f'
    by (auto simp: append_file_def write_with_def split: option.splits fnode.splits if_splits)
  show ?thesis
    unfolding writeEntityId_def Let_def
    by (auto simp: writeEntityId_steps_def run_replace_ids file_steps Let_def dest!: closed
        split: prod.split bool.split)
qed

lemma run_new_entity [simp]: "run (new_entity_steps path) w = new_entity path w"
  unfolding new_entity_def
  by (auto simp: new_entity_steps_def file_steps Let_def split: prod.split sum.split exn.split bool.split)

lemma run_record_id [simp]: "run (record_id_steps path) w = record_id path w"
  by (simp add: record_id_steps_def record_id_def prod.case_eq_if sum.case_eq_if bind_result_def)

lemma run_writeObject [simp]: "run (writeObject_steps path json) w = writeObject path json w"
proof -
  have closed: "write_file f s t = (False, f') \<Longrightarrow> f' = f" for f s t f'
    by (auto simp: write_file_def write_with_def split: option.splits fnode.splits if_splits)
  show ?thesis
    unfolding writeObject_def Let_def
    by (auto simp: writeObject_steps_def file_steps dest!: closed split: sum.split prod.split bool.split)
qed

lemma run_handle_post [simp]: "run (handle_post_steps path req) w = handle_post CrudFileManager path req w"
  by (simp add: handle_post_steps_def handle_post_def CrudFileManager_def file_steps Let_def
      split: sum.split prod.split)

lemma run_handle_get [simp]: "run (handle_get_steps path req) w = handle_get CrudFileManager path req w"
  by (simp add: handle_get_steps_def handle_get_def handle_list_steps_def handle_list_def
      CrudFileManager_def file_steps Let_def split: option.split prod.split)

lemma run_handle_put [simp]: "run (handle_put_steps path req) w = handle_put CrudFileManager path req w"
  by (simp add: handle_put_steps_def handle_put_def existsObject_def CrudFileManager_def file_steps Let_def
      split: sum.split prod.split)

lemma run_handle_del [simp]: "run (handle_del_steps path req) w = handle_del CrudFileManager path req w"
  by (simp add: handle_del_steps_def handle_del_def CrudFileManager_def file_steps Let_def split: prod.split)

lemma run_crud_handler [simp]: "run (crud_handler_steps req) w = crud_handler req w"
  by (simp add: crud_handler_steps_def crud_handler_def crud_handle_request_steps_def
      crud_handle_request_def crud_method_steps_def file_steps split: sum.split prod.split)

end
