(* ===== verification/Data_Directories.thy ===== *)
theory Data_Directories
  imports Atomic_Steps
begin

text \<open>
  What the CRUD handler can do to the files, whatever the state of the data directories and
  however its steps interleave with those of other threads: the files stay a tree, and nothing
  changes outside the data directories but the temporary file of the working directory. The second
  needs requests whose name and identifier do not climb with two dots; the code does not check that.
\<close>

subsection \<open>The tree\<close>

definition tree_ok :: "filesystem \<Rightarrow> bool" where
  "tree_ok f \<longleftrightarrow> fs_tree f \<and> is_dir f []"

lemma tree_parent: "tree_ok f \<Longrightarrow> node f p \<noteq> None \<Longrightarrow> is_dir f (butlast p)"
  by (cases p rule: rev_cases) (auto simp: tree_ok_def fs_tree_def)

lemma walk_parent:
  "tree_ok f \<Longrightarrow> walk f cur cs = Some p \<Longrightarrow> p = cur \<or> is_dir f (butlast p)"
proof (induction f cur cs rule: walk.induct)
  case (2 f cur c cs)
  then have cur: "is_dir f cur" by (auto split: if_splits)
  then have up: "is_dir f (butlast cur)" using tree_parent [OF 2(4)] by (simp add: is_dir_def)
  then have "is_dir f (butlast (butlast cur))" using tree_parent [OF 2(4)] by (simp add: is_dir_def)
  then show ?case using 2 cur up by (auto split: if_splits)
qed simp

lemma split_slash_nonempty: "split_slash s \<noteq> []"
proof -
  have "split_slash_acc cur s \<noteq> []" for cur by (induction s arbitrary: cur) auto
  then show ?thesis by (simp add: split_slash_def)
qed

text \<open>A path that is resolved is the root, or its parent is a directory.\<close>

lemma locate_parent:
  assumes "tree_ok f" and "locate f s = Some p"
  shows "is_dir f (butlast p)"
proof -
  have "split_slash s \<noteq> []" by (simp add: split_slash_nonempty)
  then obtain c cs where "split_slash s = c # cs" by (cases "split_slash s") auto
  with assms(2) have w: "walk f (start_dir f s) (c # cs) = Some p"
    by (simp add: locate_def del: walk.simps split: if_splits)
  then have "is_dir f (start_dir f s)" by (auto split: if_splits)
  then have "is_dir f (butlast (start_dir f s))" using tree_parent [OF assms(1)] by (simp add: is_dir_def)
  with walk_parent [OF assms(1) w] show ?thesis by auto
qed

lemma tree_put:
  assumes "tree_ok f" and "is_dir f (butlast p)" and "\<not> is_dir f p"
  shows "tree_ok (put_node p n f)"
proof -
  have "p \<noteq> []" using assms(1,3) by (auto simp: tree_ok_def)
  then obtain q c where p: "p = q @ [c]" by (cases p rule: rev_cases) auto
  then show ?thesis
    using assms fs_tree_put [of f q c n] by (auto simp: tree_ok_def is_dir_put)
qed

lemma tree_write: "tree_ok f \<Longrightarrow> tree_ok (snd (write_with g f s))"
  unfolding write_with_def
  by (auto split: option.split fnode.split simp: is_dir_def
      intro!: tree_put locate_parent)

lemma tree_make_dirs: "tree_ok f \<Longrightarrow> tree_ok (snd (make_dirs f cur cs))"
proof (induction f cur cs rule: make_dirs.induct)
  case (2 f cur c cs)
  then show ?case
    using tree_put [of f "cur @ [c]" Directory] by (auto split: option.split fnode.split simp: is_dir_def)
qed simp

lemma tree_create: "tree_ok f \<Longrightarrow> tree_ok (snd (create_directories f s))"
  by (simp add: create_directories_def tree_make_dirs)

lemma tree_del:
  assumes "tree_ok f" and "p \<noteq> []" and "\<And>q. strict_prefix p q \<Longrightarrow> node f q = None"
  shows "tree_ok (del_node p f)"
  using assms unfolding tree_ok_def fs_tree_def
  by (auto simp: is_dir_del strict_prefix_def split: if_splits)

lemma no_node_below:
  "\<not> (\<exists>q \<in> set (map fst (nodes f)). strict_prefix p q) \<Longrightarrow> strict_prefix p q \<Longrightarrow> node f q = None"
  using node_keys [of q f] by auto

lemma remove_path_cases:
  obtains "snd (remove_path f s) = f"
  | p where "locate f s = Some p" "p \<noteq> []" "node f p \<noteq> None" "\<And>q. strict_prefix p q \<Longrightarrow> node f q = None"
      "snd (remove_path f s) = del_node p f"
proof (cases "snd (remove_path f s) = f")
  case False
  then obtain p where p: "locate f s = Some p" by (auto simp: remove_path_def split: option.splits)
  with False have n: "node f p \<noteq> None" by (auto simp: remove_path_def split: option.splits)
  with False p have "p \<noteq> []" and e: "\<not> (\<exists>q \<in> set (map fst (nodes f)). strict_prefix p q)"
    and d: "snd (remove_path f s) = del_node p f"
    by (auto simp: remove_path_def split: if_splits)
  show thesis using that(2) p \<open>p \<noteq> []\<close> n no_node_below [OF e] d by blast
qed (rule that(1))

lemma tree_remove: "tree_ok f \<Longrightarrow> tree_ok (snd (remove_path f s))"
  by (cases rule: remove_path_cases [of f s]) (simp_all add: tree_del)

lemma tree_copy: "tree_ok f \<Longrightarrow> tree_ok (snd (copy_file f a b))"
  using tree_write [of f] unfolding copy_file_def write_file_def
  by (auto simp: prod.case_eq_if split: option.split fnode.split bool.split)

subsection \<open>Every step keeps the tree, the configuration and the log\<close>

definition tidy :: "world \<Rightarrow> world \<Rightarrow> bool" where
  "tidy w w' \<longleftrightarrow> keeps w w' \<and> (tree_ok (files w) \<longrightarrow> tree_ok (files w'))"

lemma tidy_refl [simp]: "tidy w w"
  by (simp add: tidy_def)

lemma tidy_trans: "tidy u v \<Longrightarrow> tidy v w \<Longrightarrow> tidy u w"
  unfolding tidy_def using keeps_trans by blast

lemma tidy_frames [simp]:
  "tidy w (wlog sev msg w)" "tidy w (wlock b w)"
  "(tree_ok (files w) \<Longrightarrow> tree_ok f) \<Longrightarrow> tidy w (wfiles f w)"
  by (simp_all add: tidy_def)

lemma same_but_logs_tidy: "same_but_logs w w' \<Longrightarrow> tidy w w'"
  by (simp add: tidy_def same_but_logs_def)

text \<open>The same without the log, which the logging thread takes from.\<close>

definition tidy_files :: "world \<Rightarrow> world \<Rightarrow> bool" where
  "tidy_files w w' \<longleftrightarrow> interp w' = interp w \<and> (tree_ok (files w) \<longrightarrow> tree_ok (files w'))"

lemma tidy_tidy_files: "tidy w w' \<Longrightarrow> tidy_files w w'"
  by (simp add: tidy_def tidy_files_def keeps_def)

abbreviation tidy_steps :: "(world \<Rightarrow> bool) \<Rightarrow> 'a prog \<Rightarrow> bool" where
  "tidy_steps I \<equiv> each_step I tidy"

lemma file_steps_tidy [simp]:
  "tidy_steps I (log_entry sev msg)" "tidy_steps I (exists_step s)" "tidy_steps I (create_step s)"
  "tidy_steps I (write_step s t)" "tidy_steps I (append_step s t)" "tidy_steps I (remove_step s)"
  "tidy_steps I (copy_step s s')" "tidy_steps I (read_step s)" "tidy_steps I (read_write_step s)"
  "tidy_steps I lock_step" "tidy_steps I unlock_step"
  by (simp_all add: file_steps tree_create tree_write write_file_def append_file_def tree_remove tree_copy)

lemma manager_steps_tidy:
  "tidy_steps I (readObject_steps path)" "tidy_steps I (deleteObject_steps path)"
  "tidy_steps I (listObjects_steps path)" "tidy_steps I (ensure_directory_steps sev d)"
  unfolding readObject_steps_def deleteObject_steps_def listObjects_steps_def ensure_directory_steps_def Let_def
  by (auto intro!: each_step_and_then split: option.split)

lemma generateEntityId_tidy: "tidy_steps I (generateEntityId_steps path)"
  unfolding generateEntityId_steps_def
  by (auto intro!: each_step_and_then manager_steps_tidy split: option.split)

lemma writeEntityId_tidy: "tidy_steps I (writeEntityId_steps path v)"
  unfolding writeEntityId_steps_def replace_ids_steps_def
  by (auto intro!: each_step_and_then manager_steps_tidy split: sum.split)

lemma writeObject_tidy: "tidy_steps I (writeObject_steps path json)"
  unfolding writeObject_steps_def new_entity_steps_def record_id_steps_def Let_def
  by (auto intro!: each_step_and_then generateEntityId_tidy writeEntityId_tidy split: sum.split)

lemma crud_request_tidy: "tidy_steps I (crud_handle_request_steps req)"
  unfolding crud_handle_request_steps_def crud_method_steps_def handle_post_steps_def handle_get_steps_def
    handle_list_steps_def handle_put_steps_def handle_del_steps_def
  by (auto intro!: each_step_and_then manager_steps_tidy generateEntityId_tidy writeObject_tidy
      same_but_logs_tidy [OF getCrudEntityPath_same] split: sum.split option.split)

subsection \<open>Where a path goes\<close>

text \<open>The directories through which a walk passes, of which there is no test.\<close>

fun stations :: "path \<Rightarrow> string list \<Rightarrow> path list" where
  "stations cur [] = []"
| "stations cur (c # cs) =
     cur # stations (if c = [] \<or> c = ''.'' then cur else if c = ''..'' then butlast cur else cur @ [c]) cs"

lemma walk_stations_cong:
  "(\<And>q. q \<in> set (stations cur cs) \<Longrightarrow> is_dir f' q = is_dir f q) \<Longrightarrow> walk f' cur cs = walk f cur cs"
  by (induction f cur cs rule: walk.induct) auto

text \<open>Components that do not climb stay at or below where they start.\<close>

lemma walk_below: "walk f D cs = Some q \<Longrightarrow> ''..'' \<notin> set cs \<Longrightarrow> prefix D q"
proof (induction f D cs rule: walk.induct)
  case (2 f cur c cs)
  then show ?case by (auto split: if_splits dest: append_prefixD)
qed simp

lemma walk_strictly_below:
  assumes "walk f D (n # cs) = Some q" and "plain_name n" and "''..'' \<notin> set cs"
  shows "strict_prefix D q"
proof -
  from assms have "walk f (D @ [n]) cs = Some q" by (auto simp: plain_name_def split: if_splits)
  from walk_below [OF this assms(3)] show ?thesis
    by (auto simp: strict_prefix_def prefix_def)
qed

text \<open>The same for the directories that \<open>create_directories\<close> makes.\<close>

definition only_below :: "path \<Rightarrow> filesystem \<Rightarrow> filesystem \<Rightarrow> bool" where
  "only_below D f f' \<longleftrightarrow>
     (\<forall>q. \<not> strict_prefix D q \<longrightarrow> node f' q = node f q) \<and>
     cwd f' = cwd f \<and> unreadable f' = unreadable f \<and> unwritable f' = unwritable f \<and> dir_end f' = dir_end f"

lemma only_below_refl [simp]: "only_below D f f"
  by (simp add: only_below_def)

lemma only_below_put: "strict_prefix D p \<Longrightarrow> only_below D f (put_node p n f)"
  by (auto simp: only_below_def)

lemma only_below_del: "strict_prefix D p \<Longrightarrow> only_below D f (del_node p f)"
  by (auto simp: only_below_def)

lemma only_below_trans: "only_below D f g \<Longrightarrow> only_below D g h \<Longrightarrow> only_below D f h"
  by (simp add: only_below_def)

lemma make_dirs_below:
  "prefix D cur \<Longrightarrow> ''..'' \<notin> set cs \<Longrightarrow> only_below D f (snd (make_dirs f cur cs))"
proof (induction f cur cs rule: make_dirs.induct)
  case (2 f cur c cs)
  have new: "prefix D (cur @ [c])" "strict_prefix D (cur @ [c])"
    using 2(5) by (auto simp: strict_prefix_def dest: prefix_length_le)
  show ?case
    using 2 new only_below_trans [OF only_below_put [OF new(2), of f Directory]]
    by (auto split: option.split fnode.split)
qed simp

lemma make_dirs_from:
  "walk f cur xs = Some D \<Longrightarrow> is_dir f D \<Longrightarrow> make_dirs f cur (xs @ ys) = make_dirs f D ys"
proof (induction f cur xs rule: walk.induct)
  case (2 f cur b cs)
  show ?case
  proof (cases "b = [] \<or> b = ''.'' \<or> b = ''..''")
    case True
    with 2 show ?thesis by (auto split: if_splits)
  next
    case False
    with 2 have "is_dir f cur" and w: "walk f (cur @ [b]) cs = Some D" by (auto split: if_splits)
    have "is_dir f (cur @ [b])"
      using w 2(5) by (cases cs) (auto split: if_splits)
    with False 2 w show ?thesis by (auto simp: is_dir_def)
  qed
qed simp

subsection \<open>Confinement\<close>

definition outside :: "path set \<Rightarrow> path \<Rightarrow> bool" where
  "outside Ds q \<longleftrightarrow> (\<forall>d \<in> Ds. \<not> strict_prefix d q)"

text \<open>
  Outside the data directories \<open>Ds\<close> no directory comes or goes and no file changes but the
  temporary file.
\<close>

definition confined :: "path set \<Rightarrow> filesystem \<Rightarrow> filesystem \<Rightarrow> bool" where
  "confined Ds f f' \<longleftrightarrow>
     (\<forall>q. outside Ds q \<longrightarrow> is_dir f' q = is_dir f q \<and> (q \<noteq> temp_path f \<longrightarrow> node f' q = node f q)) \<and>
     cwd f' = cwd f \<and> unreadable f' = unreadable f \<and> unwritable f' = unwritable f \<and> dir_end f' = dir_end f"

lemma confined_refl [simp]: "confined Ds f f"
  by (simp add: confined_def)

lemma confined_temp: "confined Ds f f' \<Longrightarrow> temp_path f' = temp_path f"
  by (simp add: confined_def temp_path_def)

lemma confined_trans: "confined Ds f g \<Longrightarrow> confined Ds g h \<Longrightarrow> confined Ds f h"
  using confined_temp [of Ds f g] by (auto simp: confined_def)

lemma only_below_confined: "only_below d f f' \<Longrightarrow> d \<in> Ds \<Longrightarrow> confined Ds f f'"
  by (auto simp: only_below_def confined_def outside_def is_dir_def)

lemma confined_put_below: "strict_prefix d q \<Longrightarrow> d \<in> Ds \<Longrightarrow> confined Ds f (put_node q n f)"
  using only_below_confined [OF only_below_put] .

lemma confined_del_below: "strict_prefix d q \<Longrightarrow> d \<in> Ds \<Longrightarrow> confined Ds f (del_node q f)"
  using only_below_confined [OF only_below_del] .

text \<open>
  The environment: every data path of the routing table leads to one of the directories \<open>Ds\<close>, on a
  way that does not pass below one of them; they do not lie below one another; and the temporary
  file is not a directory and does not lie below them.
\<close>

definition data_paths :: "server_paths \<Rightarrow> string set" where
  "data_paths p = snd ` set (crud_paths p)"

definition dirs_ok :: "server_paths \<Rightarrow> path set \<Rightarrow> filesystem \<Rightarrow> bool" where
  "dirs_ok p Ds f \<longleftrightarrow>
     (\<forall>dp \<in> data_paths p. dp \<noteq> [] \<and> (\<exists>d \<in> Ds. locate f dp = Some d \<and> is_dir f d) \<and>
        (\<forall>q \<in> set (stations (start_dir f dp) (split_slash dp)). outside Ds q)) \<and>
     (\<forall>d \<in> Ds. outside Ds d) \<and> outside Ds (temp_path f) \<and> \<not> is_dir f (temp_path f)"

lemma dirs_ok_confined:
  assumes ok: "dirs_ok p Ds f" and c: "confined Ds f f'"
  shows "dirs_ok p Ds f'"
proof -
  have cwd: "cwd f' = cwd f" and dir: "\<And>q. outside Ds q \<Longrightarrow> is_dir f' q = is_dir f q"
    using c by (simp_all add: confined_def)
  have sd: "start_dir f' dp = start_dir f dp" for dp by (simp add: start_dir_def cwd)
  have "(\<exists>d \<in> Ds. locate f' dp = Some d \<and> is_dir f' d)" if dp: "dp \<in> data_paths p" for dp
  proof -
    obtain d where d: "d \<in> Ds" "locate f dp = Some d" "is_dir f d" using ok dp unfolding dirs_ok_def by blast
    have st: "outside Ds q" if "q \<in> set (stations (start_dir f dp) (split_slash dp))" for q
      using ok dp that unfolding dirs_ok_def by blast
    have "locate f' dp = locate f dp"
      unfolding locate_def sd using walk_stations_cong [of _ _ f' f] dir [OF st] by simp
    moreover have "outside Ds d" using ok d(1) unfolding dirs_ok_def by blast
    ultimately show ?thesis using d dir by auto
  qed
  then show ?thesis using ok dir confined_temp [OF c] by (simp add: dirs_ok_def sd)
qed

text \<open>A path below a data path, one real component and none that climbs, is below the directory.\<close>

lemma locate_data:
  assumes ok: "dirs_ok p Ds f" and dp: "dp \<in> data_paths p"
    and n: "plain_name n" and cs: "split_slash r = n # cs" "''..'' \<notin> set cs"
    and q: "locate f (dp @ ''/'' @ r) = Some q"
  shows "\<exists>d \<in> Ds. strict_prefix d q"
proof -
  obtain d where d: "d \<in> Ds" "locate f dp = Some d" "dp \<noteq> []" using ok dp unfolding dirs_ok_def by blast
  then have "walk f d (n # cs) = Some q"
    using q cs(1) locate_append [OF d(3), of f r] by (simp del: walk.simps)
  from walk_strictly_below [OF this n cs(2)] d(1) show ?thesis by blast
qed

lemma locate_temp_file: "locate f temp_file = Some q \<Longrightarrow> q = temp_path f"
  by (auto simp: locate_def temp_file_def temp_path_def start_dir_def split_slash_def split: if_splits)

text \<open>The writing operations on such paths and on the temporary file.\<close>

definition writable_path :: "path set \<Rightarrow> filesystem \<Rightarrow> string \<Rightarrow> bool" where
  "writable_path Ds f s \<longleftrightarrow>
     (\<forall>q. locate f s = Some q \<longrightarrow> (\<exists>d \<in> Ds. strict_prefix d q) \<or> (q = temp_path f \<and> \<not> is_dir f q))"

lemma confined_put:
  assumes "writable_path Ds f s" and "locate f s = Some q" and "\<not> is_dir f q"
  shows "confined Ds f (put_node q (Regular c) f)"
proof -
  consider d where "d \<in> Ds" "strict_prefix d q" | "q = temp_path f" "\<not> is_dir f q"
    using assms(1,2) unfolding writable_path_def by blast
  then show ?thesis
  proof cases
    case 1
    then show ?thesis by (intro confined_put_below)
  qed (auto simp: confined_def is_dir_put)
qed

lemma confined_write: "writable_path Ds f s \<Longrightarrow> confined Ds f (snd (write_with g f s))"
  using confined_put [of Ds f s] unfolding write_with_def
  by (auto split: option.split fnode.split simp: is_dir_def)

lemma confined_copy: "writable_path Ds f b \<Longrightarrow> confined Ds f (snd (copy_file f a b))"
  using confined_write [of Ds f b] unfolding copy_file_def write_file_def
  by (auto simp: prod.case_eq_if split: option.split fnode.split bool.split)

lemma confined_remove:
  assumes "writable_path Ds f s"
  shows "confined Ds f (snd (remove_path f s))"
proof (cases rule: remove_path_cases [of f s])
  case (2 q)
  consider d where "d \<in> Ds" "strict_prefix d q" | "q = temp_path f" "\<not> is_dir f q"
    using assms 2(1) unfolding writable_path_def by blast
  then show ?thesis
    using 2(5) confined_del_below [of _ q Ds f] by cases (auto simp: confined_def is_dir_del)
qed simp

lemma confined_create:
  assumes ok: "dirs_ok p Ds f" and dp: "dp \<in> data_paths p" and n: "''..'' \<notin> set (split_slash r)"
  shows "confined Ds f (snd (create_directories f (dp @ ''/'' @ r)))"
proof -
  obtain d where d: "d \<in> Ds" "locate f dp = Some d" "is_dir f d" "dp \<noteq> []"
    using ok dp unfolding dirs_ok_def by blast
  then have "walk f (start_dir f dp) (split_slash dp) = Some d" by (simp add: locate_def)
  from make_dirs_from [OF this d(3)] d(4)
  have "create_directories f (dp @ ''/'' @ r) = make_dirs f d (split_slash r)"
    by (simp add: create_directories_def start_dir_append split_slash_append)
  with only_below_confined [OF make_dirs_below [OF prefix_order.order_refl n] d(1)] show ?thesis by simp
qed

subsection \<open>The steps of the file manager\<close>

definition safe_path :: "server_paths \<Rightarrow> crud_path \<Rightarrow> bool" where
  "safe_path p path \<longleftrightarrow>
     data_path path \<in> data_paths p \<and> plain_name (entity_name path) \<and>
     ''..'' \<notin> set (split_slash (entity_id path))"

lemma writable_object:
  assumes "dirs_ok p Ds f" and "safe_path p path"
  shows "writable_path Ds f (object_file path)"
proof -
  have "split_slash (entity_name path @ ''/'' @ entity_id path) = entity_name path # split_slash (entity_id path)"
    using assms(2) by (simp add: safe_path_def split_slash_append split_slash_plain)
  with locate_data [OF assms(1), of "data_path path" "entity_name path"] assms(2) show ?thesis
    by (auto simp: writable_path_def object_file_def safe_path_def)
qed

lemma writable_max:
  assumes "dirs_ok p Ds f" and "data_path path \<in> data_paths p"
  shows "writable_path Ds f (max_ids_file path)"
proof -
  have plain: "plain_name ''maxEntityIds''" by (simp add: plain_name_def)
  from locate_data [OF assms plain, of "''maxEntityIds''"] split_slash_plain [OF plain] show ?thesis
    by (auto simp: writable_path_def max_ids_file_def)
qed

lemma writable_temp: "dirs_ok p Ds f \<Longrightarrow> writable_path Ds f temp_file"
  using locate_temp_file [of f] by (auto simp: writable_path_def dirs_ok_def)

lemma confined_entity_dir:
  assumes "dirs_ok p Ds f" and "safe_path p path"
  shows "confined Ds f (snd (create_directories f (entity_dir path)))"
  using confined_create [OF assms(1), of "data_path path" "entity_name path"] assms(2)
  by (auto simp: entity_dir_def safe_path_def split_slash_plain plain_name_def)

lemma data_directory_exists: "dirs_ok p Ds f \<Longrightarrow> dp \<in> data_paths p \<Longrightarrow> exists_path f dp"
  by (force simp: dirs_ok_def exists_path_def is_dir_def)

text \<open>What is relied on, and what every step guarantees.\<close>

definition data_inv :: "interpreter \<Rightarrow> path set \<Rightarrow> world \<Rightarrow> bool" where
  "data_inv cfg Ds w \<longleftrightarrow> interp w = cfg \<and> dirs_ok (getServerPaths cfg) Ds (files w)"

definition files_kept :: "path set \<Rightarrow> world \<Rightarrow> world \<Rightarrow> bool" where
  "files_kept Ds w w' \<longleftrightarrow>
     interp w' = interp w \<and> confined Ds (files w) (files w') \<and> (tree_ok (files w) \<longrightarrow> tree_ok (files w'))"

lemma files_kept_refl [simp]: "files_kept Ds w w"
  by (simp add: files_kept_def)

lemma files_kept_trans: "files_kept Ds u v \<Longrightarrow> files_kept Ds v w \<Longrightarrow> files_kept Ds u w"
  unfolding files_kept_def using confined_trans [of Ds "files u" "files v" "files w"] by simp

lemma files_kept_wlog [simp]: "files_kept Ds w (wlog sev msg w)"
  by (simp add: files_kept_def)

lemma files_kept_wlock [simp]: "files_kept Ds w (wlock b w)"
  by (simp add: files_kept_def)

lemma same_but_logs_kept: "same_but_logs w w' \<Longrightarrow> files_kept Ds w w'"
  by (simp add: files_kept_def same_but_logs_def)

lemma data_inv_kept: "data_inv cfg Ds w \<Longrightarrow> files_kept Ds w w' \<Longrightarrow> data_inv cfg Ds w'"
  unfolding data_inv_def files_kept_def using dirs_ok_confined by metis

lemma files_kept_wfiles:
  "confined Ds (files w) f \<Longrightarrow> (tree_ok (files w) \<Longrightarrow> tree_ok f) \<Longrightarrow> files_kept Ds w (wfiles f w)"
  by (simp add: files_kept_def)

abbreviation safe_steps :: "interpreter \<Rightarrow> path set \<Rightarrow> 'a prog \<Rightarrow> bool" where
  "safe_steps cfg Ds \<equiv> each_step (data_inv cfg Ds) (files_kept Ds)"

lemma log_safe [simp]: "safe_steps cfg Ds (log_entry sev msg)"
  by (simp add: log_entry_def)

lemma exists_safe [simp]: "safe_steps cfg Ds (exists_step s)"
  by (simp add: exists_step_def)

lemma read_safe [simp]: "safe_steps cfg Ds (read_step s)" "safe_steps cfg Ds (read_write_step s)"
  by (simp_all add: read_step_def read_write_step_def)

lemma lock_safe [simp]: "safe_steps cfg Ds lock_step" "safe_steps cfg Ds unlock_step"
  by (simp_all add: lock_step_def unlock_step_def)

lemma write_safe:
  "(\<And>f. dirs_ok (getServerPaths cfg) Ds f \<Longrightarrow> writable_path Ds f s) \<Longrightarrow> safe_steps cfg Ds (write_step s txt)"
  "(\<And>f. dirs_ok (getServerPaths cfg) Ds f \<Longrightarrow> writable_path Ds f s) \<Longrightarrow> safe_steps cfg Ds (append_step s txt)"
  by (auto simp: write_step_def append_step_def write_file_def append_file_def data_inv_def
      intro!: files_kept_wfiles confined_write tree_write)

lemma remove_safe:
  "(\<And>f. dirs_ok (getServerPaths cfg) Ds f \<Longrightarrow> writable_path Ds f s) \<Longrightarrow> safe_steps cfg Ds (remove_step s)"
  by (auto simp: remove_step_def data_inv_def intro!: files_kept_wfiles confined_remove tree_remove)

lemma copy_safe:
  "(\<And>f. dirs_ok (getServerPaths cfg) Ds f \<Longrightarrow> writable_path Ds f b) \<Longrightarrow> safe_steps cfg Ds (copy_step a b)"
  by (auto simp: copy_step_def data_inv_def intro!: files_kept_wfiles confined_copy tree_copy)

lemma create_entity_safe:
  "safe_path (getServerPaths cfg) path \<Longrightarrow> safe_steps cfg Ds (create_step (entity_dir path))"
  by (auto simp: create_step_def data_inv_def intro!: files_kept_wfiles confined_entity_dir tree_create)

text \<open>The data directory exists, so it is never made.\<close>

lemma ensure_directory_safe:
  assumes "dp \<in> data_paths (getServerPaths cfg)"
  shows "safe_steps cfg Ds (ensure_directory_steps sev dp)"
proof -
  have "ex" if "may_return (data_inv cfg Ds) (exists_step dp) ex" for ex
    using that assms by (auto simp: exists_step_def data_inv_def data_directory_exists)
  then show ?thesis unfolding ensure_directory_steps_def by (intro each_step_and_then) auto
qed

lemmas safe_intros =
  each_step_and_then write_safe remove_safe copy_safe create_entity_safe ensure_directory_safe
  writable_max writable_object writable_temp

lemma generateEntityId_safe:
  assumes "data_path path \<in> data_paths (getServerPaths cfg)"
  shows "safe_steps cfg Ds (generateEntityId_steps path)"
  unfolding generateEntityId_steps_def using assms
  by (intro safe_intros) (auto split: option.split intro!: safe_intros)

lemma replace_ids_safe:
  assumes "data_path path \<in> data_paths (getServerPaths cfg)"
  shows "safe_steps cfg Ds (replace_ids_steps path v)"
  unfolding replace_ids_steps_def using assms
  by (intro safe_intros) (auto split: sum.split intro!: safe_intros)

lemma writeEntityId_safe:
  assumes "data_path path \<in> data_paths (getServerPaths cfg)"
  shows "safe_steps cfg Ds (writeEntityId_steps path v)"
  unfolding writeEntityId_steps_def using assms
  by (intro safe_intros) (auto intro!: safe_intros replace_ids_safe)

lemma safe_path_data: "safe_path p path \<Longrightarrow> data_path path \<in> data_paths p"
  by (simp add: safe_path_def)

lemma new_entity_safe:
  assumes "safe_path (getServerPaths cfg) path"
  shows "safe_steps cfg Ds (new_entity_steps path)"
  unfolding new_entity_steps_def Let_def using assms safe_path_data [OF assms]
  by (intro safe_intros) (auto split: sum.split intro!: safe_intros writeEntityId_safe)

lemma record_id_safe:
  assumes "safe_path (getServerPaths cfg) path"
  shows "safe_steps cfg Ds (record_id_steps path)"
  unfolding record_id_steps_def using safe_path_data [OF assms]
  by (auto split: sum.split intro!: safe_intros generateEntityId_safe writeEntityId_safe)

lemma writeObject_safe:
  assumes "safe_path (getServerPaths cfg) path"
  shows "safe_steps cfg Ds (writeObject_steps path json)"
  unfolding writeObject_steps_def using assms
  by (intro safe_intros new_entity_safe)
    (auto split: sum.split intro!: safe_intros record_id_safe)

lemma deleteObject_safe:
  assumes "safe_path (getServerPaths cfg) path"
  shows "safe_steps cfg Ds (deleteObject_steps path)"
  unfolding deleteObject_steps_def using assms
  by (auto intro!: safe_intros)

text \<open>Reading needs no care about the path.\<close>

lemma readObject_safe [simp]: "safe_steps cfg Ds (readObject_steps path)"
  unfolding readObject_steps_def by (auto split: option.split intro!: safe_intros)

lemma listObjects_safe [simp]: "safe_steps cfg Ds (listObjects_steps path)"
  unfolding listObjects_steps_def Let_def by (auto split: option.split intro!: safe_intros)

subsection \<open>The steps of the handler\<close>

text \<open>The digits of a new identifier do not climb.\<close>

lemma digits_safe:
  assumes "safe_path p path" and "entity_id path = []"
  shows "safe_path p (path\<lparr>entity_id := to_string_u64 v\<rparr>)"
proof -
  have no: "c \<noteq> CHR ''/'' \<and> c \<noteq> CHR ''.''" if "c \<in> set (digits_str n)" for c n
    using digits_str_digitD [OF that] by (auto simp: is_digit_def byte_def)
  have "split_slash (to_string_u64 v) = [to_string_u64 v]"
    using no [of "CHR ''/''" "unat v"] split_slash_acc_plain [of "digits_str (unat v)" "[]"]
    by (auto simp: split_slash_def to_string_u64_def)
  moreover have "to_string_u64 v \<noteq> ''..''"
    using no [of "CHR ''.''" "unat v"] by (auto simp: to_string_u64_def)
  ultimately show ?thesis using assms by (simp add: safe_path_def)
qed

text \<open>
  The requests that write: their path must be safe. The path of a CRUD request is below a data
  path of the table, and its name has no slash, so what is asked is that no component is two dots
  and the name is not empty or a dot.
\<close>

definition writes_safely :: "interpreter \<Rightarrow> request \<Rightarrow> bool" where
  "writes_safely cfg req \<longleftrightarrow>
     (req_method req \<in> {Post, Put, Delete} \<longrightarrow>
        (\<forall>w path. interp w = cfg \<longrightarrow> fst (getCrudEntityPath req w) = Inr path \<longrightarrow>
           entity_name path \<noteq> [] \<longrightarrow> safe_path (getServerPaths cfg) path))"

text \<open>What the path of a request is made of.\<close>

lemma pop_slashes_set: "pop_slashes s = Inr r \<Longrightarrow> set r \<subseteq> set s"
proof (induction s rule: pop_slashes.induct)
  case (1 s)
  then show ?case
    by (subst (asm) (2) pop_slashes.simps) (auto split: if_splits dest: in_set_butlastD)
qed

lemma normalised_set: "normalised_target t = Inr r \<Longrightarrow> set r \<subseteq> set t"
proof -
  have "set (collapse_slashes b s) \<subseteq> set s" for b s
    by (induction b s rule: collapse_slashes.induct) auto
  then show "normalised_target t = Inr r \<Longrightarrow> set r \<subseteq> set t"
    using pop_slashes_set unfolding normalised_target_def by blast
qed

lemma split_entity_set:
  assumes "split_entity_path s = Inr (name, ident)"
  shows "set name \<subseteq> set s" and "set ident \<subseteq> set s"
  using assms set_take_subset set_drop_subset
  by (auto simp: split_entity_path_def substr_def substr1_def bind_result_def
      split: option.splits if_splits sum.splits dest!: in_set_takeD in_set_dropD)

lemma crud_match_found:
  assumes "match_type (crud_match p r) = CRUD"
  shows "map_at (crud_paths p) (longest_path (crud_match p r)) \<in> data_paths p"
proof -
  have "longest_among (set (crud_candidates p)) r (longest_path (crud_match p r)) CRUD"
    using scan_all_found [of r "crud_candidates p"] assms
    by (auto simp: crud_match_all found_in_def no_match_def)
  then have "longest_path (crud_match p r) \<in> fst ` set (crud_paths p)"
    by (auto simp: longest_among_def crud_candidates_def static_candidates_def)
  then obtain v where "map_of (crud_paths p) (longest_path (crud_match p r)) = Some v"
    by (metis map_of_eq_None_iff option.exhaust)
  then show ?thesis
    by (auto simp: map_at_def data_paths_def dest!: map_of_SomeD intro: rev_image_eqI)
qed

lemma crud_path_parts:
  assumes "fst (getCrudEntityPath req w) = Inr path" and "entity_name path \<noteq> []"
  shows "data_path path \<in> data_paths (getServerPaths (interp w))" and "CHR ''/'' \<notin> set (entity_name path)"
    and "set (entity_name path) \<subseteq> set (target req)" and "set (entity_id path) \<subseteq> set (target req)"
proof -
  let ?p = "getServerPaths (interp w)"
  obtain r rest name ident where r: "normalised_target (target req) = Inr r"
    and m: "match_type (crud_match ?p r) = CRUD"
    and rest: "after_match r (longest_path (crud_match ?p r)) = Inr rest"
    and split: "split_entity_path rest = Inr (name, ident)"
    and path: "path = \<lparr>data_path = map_at (crud_paths ?p) (longest_path (crud_match ?p r)),
      entity_name = name, entity_id = ident\<rparr>"
    using assms by (auto simp: getCrudEntityPath_def Let_def bind_result_def split: sum.splits prod.splits if_splits)
  have "set rest \<subseteq> set (target req)"
    using rest normalised_set [OF r] by (auto simp: after_match_def substr1_def split: if_splits dest!: in_set_dropD)
  with split_entity_set [OF split] crud_match_found [OF m] split_entity_total [of rest] split path
  show "data_path path \<in> data_paths ?p" "CHR ''/'' \<notin> set (entity_name path)"
    "set (entity_name path) \<subseteq> set (target req)" "set (entity_id path) \<subseteq> set (target req)"
    by auto
qed

lemma split_slash_set: "c \<in> set (split_slash s) \<Longrightarrow> set c \<subseteq> set s"
proof -
  have "c \<in> set (split_slash_acc cur s) \<Longrightarrow> set c \<subseteq> set cur \<union> set s" for cur
    by (induction s arbitrary: cur) (fastforce split: if_splits)+
  then show "c \<in> set (split_slash s) \<Longrightarrow> set c \<subseteq> set s" by (fastforce simp: split_slash_def)
qed

text \<open>A target without a dot writes safely.\<close>

lemma dotless_writes_safely:
  assumes "CHR ''.'' \<notin> set (target req)"
  shows "writes_safely cfg req"
  unfolding writes_safely_def
proof (intro impI allI)
  fix w path
  assume w: "interp w = cfg" and p: "fst (getCrudEntityPath req w) = Inr path" and n: "entity_name path \<noteq> []"
  note parts = crud_path_parts [OF p n, unfolded w]
  have "''..'' \<notin> set (split_slash (entity_id path))"
    using split_slash_set [of "''..''" "entity_id path"] parts(4) assms by auto
  with parts n assms show "safe_path (getServerPaths cfg) path"
    by (auto simp: safe_path_def plain_name_def)
qed

lemma crud_method_safe:
  assumes "req_method req \<in> {Post, Put, Delete} \<longrightarrow> entity_name path \<noteq> [] \<longrightarrow>
    safe_path (getServerPaths cfg) path"
  shows "safe_steps cfg Ds (crud_method_steps path req)"
proof (cases "entity_name path = [] \<or> req_method req \<notin> {Post, Put, Delete}")
  case True
  then show ?thesis
    unfolding crud_method_steps_def handle_get_steps_def handle_list_steps_def
    by (auto intro!: safe_intros split: option.split)
next
  case False
  with assms have s: "safe_path (getServerPaths cfg) path" by blast
  note w = writeObject_safe generateEntityId_safe deleteObject_safe
  have "safe_steps cfg Ds (handle_post_steps path req)"
    unfolding handle_post_steps_def using s safe_path_data [OF s] digits_safe [OF s]
    by (auto intro!: safe_intros w split: sum.split)
  moreover have "safe_steps cfg Ds (handle_put_steps path req)"
    unfolding handle_put_steps_def using s by (auto intro!: safe_intros w)
  moreover have "safe_steps cfg Ds (handle_del_steps path req)"
    unfolding handle_del_steps_def using s by (auto intro!: safe_intros w)
  moreover have "safe_steps cfg Ds (handle_get_steps path req)"
    unfolding handle_get_steps_def handle_list_steps_def by (auto intro!: safe_intros split: option.split)
  ultimately show ?thesis
    unfolding crud_method_steps_def by (auto intro!: safe_intros)
qed

lemma crud_request_safe:
  assumes "writes_safely cfg req"
  shows "safe_steps cfg Ds (crud_handle_request_steps req)"
proof -
  have "safe_steps cfg Ds (crud_method_steps path req)"
    if w: "data_inv cfg Ds w" "fst (getCrudEntityPath req w) = Inr path" for w path
  proof (rule crud_method_safe)
    from w assms show "req_method req \<in> {Post, Put, Delete} \<longrightarrow> entity_name path \<noteq> [] \<longrightarrow>
        safe_path (getServerPaths cfg) path"
      unfolding writes_safely_def data_inv_def by blast
  qed
  then show ?thesis
    unfolding crud_handle_request_steps_def
    by (auto intro!: safe_intros same_but_logs_kept getCrudEntityPath_same split: sum.split)
qed

end
