(* ===== verification/Threaded_Server.thy ===== *)
theory Threaded_Server
  imports Session_Server Data_Directories
begin

text \<open>
  The server with its thread pool: \<open>handle_read\<close> of different connections run at once, one atomic
  step of one thread at a time, and so does the logging thread, from the constructor of the server to
  the end of the process, for which \<open>kill_server\<close> waits. The theory \<open>Session_Server\<close> runs a whole
  handler as one step; its runs are runs of this server (\<open>server_steps_threaded\<close>). What holds in every
  state this server can reach holds under every interleaving of two handlers and the logging thread.
\<close>

subsection \<open>Dispatching in steps\<close>

text \<open>
  The CRUD handler in the steps of \<open>Atomic_Steps\<close>. The sleep handler logs, sleeps and logs. The other
  handlers touch nothing of the world but the log, and are one step.
\<close>

fun handle_request_steps :: "handler_object \<Rightarrow> request \<Rightarrow> response result prog" where
  "handle_request_steps (CrudHandler this) req = crud_handle_request_steps req"
| "handle_request_steps SleepHandler req =
     and_then (log_entry INFO ''Going to sleep'') (\<lambda>_.
     and_then (step (\<lambda>w. ((), wsleep 1000 w))) (\<lambda>_.
     and_then (log_entry INFO ''Now awake'') (\<lambda>_.
     Ret (Inr (text_response Ok ''text/plain'' [])))))"
| "handle_request_steps h req = step (handle_request h req)"

definition answer_request_steps :: "registry \<Rightarrow> request_type \<Rightarrow> request \<Rightarrow> response result prog" where
  "answer_request_steps reg ty req =
     (if target req = [] \<or> req_method req = Unknown_verb then
        and_then (log_entry ERROR ''Empty request or unknown method'') (\<lambda>_.
        Ret (Inr (prepare_payload (new_response Bad_request 11 []))))
      else
        and_then (step (GetRequestHandler ty reg)) (\<lambda>found.
          case found of
            None \<Rightarrow> Ret (Inl null_handler)
          | Some h \<Rightarrow> handle_request_steps h req))"

definition dispatch_request_steps ::
  "registry \<Rightarrow> (status \<Rightarrow> string) \<Rightarrow> peer \<Rightarrow> request \<Rightarrow> response result prog" where
  "dispatch_request_steps reg reason p req =
     and_then (step (getRequestType req)) (\<lambda>r. case r of Inl e \<Rightarrow> Ret (Inl e) | Inr ty \<Rightarrow>
     and_then (step (\<lambda>w. ((), log_request p req w))) (\<lambda>_.
     and_then (answer_request_steps reg ty req) (\<lambda>r. case r of Inl e \<Rightarrow> Ret (Inl e) | Inr response \<Rightarrow>
     and_then (log_entry INFO (metrics_line reason p req response ty)) (\<lambda>_. Ret (Inr response)))))"

lemma run_crud_request [simp]:
  "run (crud_handle_request_steps req) w = crud_handle_request CrudFileManager req w"
  by (simp add: crud_handle_request_steps_def crud_handle_request_def crud_method_steps_def file_steps
      split: sum.split prod.split)

lemma run_handle_request: "made_by_main svc h \<Longrightarrow> run (handle_request_steps h req) w = handle_request h req w"
  by (auto simp: made_by_main_def sleep_handle_request_def file_steps)

lemma registry_makes:
  assumes "GetRequestHandler ty (server_registry svc) w = (found, w')"
  shows "keeps w w' \<and> files w' = files w \<and> (\<forall>h. found = Some h \<longrightarrow> made_by_main svc h)"
proof (cases "ty = BogusType")
  case True
  have "registered_handler BogusType (server_registry svc) = None" by (simp add: server_registry_lookup)
  then show ?thesis using assms True by (simp add: registered_handler_def GetRequestHandler_def)
qed (use server_registry_makes [of ty svc w] assms in auto)

lemma run_answer_request:
  "run (answer_request_steps (server_registry svc) ty req) w = answer_request (server_registry svc) ty req w"
  using registry_makes [of ty svc w]
  by (auto simp: answer_request_steps_def answer_request_def file_steps run_handle_request
      split: prod.split option.split)

text \<open>If no other thread comes between, the steps of the dispatcher are the dispatcher.\<close>

lemma dispatch_steps_run:
  "run (dispatch_request_steps (server_registry svc) reason p req) w =
     dispatch_request (server_registry svc) reason p req w"
  by (simp add: dispatch_request_steps_def dispatch_request_def run_answer_request file_steps
      split: sum.split prod.split)

subsection \<open>Threads\<close>

text \<open>
  A task is a call of \<open>handle_read\<close> that has begun: the number of its connection, the mutex of the
  file manager it made (before it made one, the value means nothing), and what is left to do.
\<close>

record task =
  task_connection :: nat
  task_mutex :: bool
  task_code :: "response result prog"

record threaded_server =
  server :: server_state
  tasks :: "task list"

definition single :: "server_state \<Rightarrow> threaded_server" where
  "single s = \<lparr>server = s, tasks = []\<rparr>"

text \<open>One thread for each task; the handlers that are one step need a thread for that step.\<close>

definition free_thread :: "threaded_server \<Rightarrow> bool" where
  "free_thread ts \<longleftrightarrow> serving (server ts) \<and> length (tasks ts) < threadpool (server ts)"

definition begin_read ::
  "registry \<Rightarrow> (status \<Rightarrow> string) \<Rightarrow> nat \<Rightarrow> request \<Rightarrow> bool \<Rightarrow> peer \<Rightarrow> threaded_server \<Rightarrow> threaded_server" where
  "begin_read reg reason i req err p ts =
     (let s = server ts; c = (connections s ! i)\<lparr>pending_op := Idle, session_request := req\<rparr>
      in if err then ts\<lparr>server := s\<lparr>connections := (connections s)[i := c]\<rparr>\<rparr>
         else \<lparr>server = s\<lparr>connections := (connections s)[i := c\<lparr>reads := reads c @ [req]\<rparr>]\<rparr>,
               tasks = tasks ts @
                 [\<lparr>task_connection = i, task_mutex = entity_mutex (server_world s),
                   task_code = dispatch_request_steps reg reason p req\<rparr>]\<rparr>)"

definition do_step :: "nat \<Rightarrow> threaded_server \<Rightarrow> threaded_server" where
  "do_step j ts =
     (let t = tasks ts ! j; s = server ts
      in case task_code t of
           Ret r \<Rightarrow> ts
         | Act g k \<Rightarrow>
             (let w = wlock (task_mutex t) (server_world s)
              in \<lparr>server = s\<lparr>server_world := g w\<rparr>,
                  tasks = (tasks ts)[j := t\<lparr>task_mutex := entity_mutex (g w), task_code := k w\<rparr>]\<rparr>))"

definition without :: "nat \<Rightarrow> 'a list \<Rightarrow> 'a list" where
  "without j xs = take j xs @ drop (Suc j) xs"

text \<open>The answer is there: \<open>response_\<close> is set and the write begins, or the exception ends the process.\<close>

definition end_read :: "nat \<Rightarrow> response result \<Rightarrow> threaded_server \<Rightarrow> threaded_server" where
  "end_read j answer ts =
     (let s = server ts; i = task_connection (tasks ts ! j); c = connections s ! i
      in \<lparr>server = (case answer of
            Inl e \<Rightarrow> s\<lparr>crash := Some e\<rparr>
          | Inr r \<Rightarrow> s\<lparr>connections := (connections s)[i := c\<lparr>session_response := r, pending_op := Writing\<rparr>]\<rparr>),
          tasks = without j (tasks ts)\<rparr>)"

definition on_server :: "(server_state \<Rightarrow> server_state) \<Rightarrow> threaded_server \<Rightarrow> threaded_server" where
  "on_server f ts = ts\<lparr>server := f (server ts)\<rparr>"

inductive threaded_step :: "registry \<Rightarrow> (status \<Rightarrow> string) \<Rightarrow> threaded_server \<Rightarrow> threaded_server \<Rightarrow> bool"
  for reg reason where
  thread_accept: "free_thread ts \<Longrightarrow> pending_accept (server ts) = Some c \<Longrightarrow>
    threaded_step reg reason ts (on_server (\<lambda>s. handle_accept c err (s\<lparr>pending_accept := None\<rparr>)) ts)"
| thread_begin: "free_thread ts \<Longrightarrow> outstanding Reading i (server ts) \<Longrightarrow>
    threaded_step reg reason ts (begin_read reg reason i req err p ts)"
| thread_step: "crash (server ts) = None \<Longrightarrow> j < length (tasks ts) \<Longrightarrow>
    task_code (tasks ts ! j) = Act g k \<Longrightarrow> threaded_step reg reason ts (do_step j ts)"
| thread_end: "crash (server ts) = None \<Longrightarrow> j < length (tasks ts) \<Longrightarrow>
    task_code (tasks ts ! j) = Ret answer \<Longrightarrow> threaded_step reg reason ts (end_read j answer ts)"
| thread_write: "free_thread ts \<Longrightarrow> outstanding Writing i (server ts) \<Longrightarrow>
    threaded_step reg reason ts (on_server (write_completes i err p) ts)"
| thread_signal: "free_thread ts \<Longrightarrow> threaded_step reg reason ts (on_server kill_server ts)"
| thread_killed: "killing (server ts) \<Longrightarrow> logging_thread (server ts) = Exited \<Longrightarrow> crash (server ts) = None \<Longrightarrow>
    threaded_step reg reason ts (on_server (\<lambda>s. snd (kill_server_ends s)) ts)"
| thread_log: "logging_thread (server ts) \<noteq> Exited \<Longrightarrow> crash (server ts) = None \<Longrightarrow>
    threaded_step reg reason ts (on_server handle_logging ts)"
| thread_join: "\<not> joining (server ts) \<Longrightarrow> crash (server ts) = None \<Longrightarrow>
    threaded_step reg reason ts (on_server run_join ts)"

abbreviation threaded_steps :: "registry \<Rightarrow> (status \<Rightarrow> string) \<Rightarrow> threaded_server \<Rightarrow> threaded_server \<Rightarrow> bool" where
  "threaded_steps reg reason \<equiv> (threaded_step reg reason)\<^sup>*\<^sup>*"

text \<open>
  What the server \<open>s0\<close> of the constructor can reach: the logging thread works, \<open>run\<close> makes the
  threads of the pool, and all of them work.
\<close>

primrec log_alone :: "nat \<Rightarrow> server_state \<Rightarrow> server_state" where
  "log_alone 0 s = s"
| "log_alone (Suc n) s = log_alone n (if logging_thread s = Exited then s else handle_logging s)"

definition threaded_reachable ::
  "registry \<Rightarrow> (status \<Rightarrow> string) \<Rightarrow> server_state \<Rightarrow> threaded_server \<Rightarrow> bool" where
  "threaded_reachable reg reason s0 ts \<longleftrightarrow>
     (\<exists>n. threaded_steps reg reason (single (run_threads (log_alone n s0))) ts)"

lemma reach_start: "threaded_reachable reg reason s0 (single (run_threads s0))"
  unfolding threaded_reachable_def by (intro exI [of _ 0]) simp

lemma reachable_steps:
  "threaded_reachable reg reason s0 ts \<Longrightarrow> threaded_steps reg reason ts ts' \<Longrightarrow> threaded_reachable reg reason s0 ts'"
  unfolding threaded_reachable_def by (blast intro: rtranclp_trans)

text \<open>The logging thread takes from the log and touches nothing else.\<close>

lemma handle_logging_fields [simp]:
  "connections (handle_logging s) = connections s" "pending_accept (handle_logging s) = pending_accept s"
  "threadpool (handle_logging s) = threadpool s" "io_stopped (handle_logging s) = io_stopped s"
  "program_terminated (handle_logging s) = program_terminated s" "joining (handle_logging s) = joining s"
  "crash (handle_logging s) = crash s" "killing (handle_logging s) = killing s"
  "endpoint_port (handle_logging s) = endpoint_port s" "threadpool_size (handle_logging s) = threadpool_size s"
  "server_world (handle_logging s) = (server_world s)\<lparr>logs := lbuf (logger_step (log_view s))\<rparr>"
  "logging_thread (handle_logging s) = pc (logger_step (log_view s))"
  "written (handle_logging s) = logged (logger_step (log_view s))"
  by (simp_all add: handle_logging_def Let_def)

lemma log_alone_fields [simp]:
  "connections (log_alone n s) = connections s" "pending_accept (log_alone n s) = pending_accept s"
  "threadpool (log_alone n s) = threadpool s" "io_stopped (log_alone n s) = io_stopped s"
  "program_terminated (log_alone n s) = program_terminated s" "joining (log_alone n s) = joining s"
  "crash (log_alone n s) = crash s" "killing (log_alone n s) = killing s"
  "threadpool_size (log_alone n s) = threadpool_size s"
  by (induction n arbitrary: s) simp_all

lemma log_alone_world: "\<exists>b. server_world (log_alone n s) = (server_world s)\<lparr>logs := b\<rparr>"
proof (induction n arbitrary: s)
  case 0
  show ?case by (intro exI [of _ "logs (server_world s)"]) simp
next
  case (Suc n)
  from Suc [of "handle_logging s"] Suc [of s] show ?case by auto
qed

subsection \<open>Runs of whole handlers are runs\<close>

lemma wlock_same: "wlock (entity_mutex w) w = w"
  by (simp add: wlock_def)

lemma threaded_run:
  assumes "crash s = None"
  shows "threaded_steps reg reason
    \<lparr>server = s\<lparr>server_world := w\<rparr>, tasks = [\<lparr>task_connection = i, task_mutex = entity_mutex w, task_code = p\<rparr>]\<rparr>
    \<lparr>server = s\<lparr>server_world := snd (run p w)\<rparr>,
     tasks = [\<lparr>task_connection = i, task_mutex = entity_mutex (snd (run p w)), task_code = Ret (fst (run p w))\<rparr>]\<rparr>"
proof (induction p arbitrary: w)
  case (Act g k)
  let ?ts = "\<lparr>server = s\<lparr>server_world := w\<rparr>,
    tasks = [\<lparr>task_connection = i, task_mutex = entity_mutex w, task_code = Act g k\<rparr>]\<rparr>"
  have "threaded_step reg reason ?ts (do_step 0 ?ts)"
    by (rule thread_step [where g = g and k = k]) (simp_all add: assms)
  moreover have "do_step 0 ?ts = \<lparr>server = s\<lparr>server_world := g w\<rparr>,
    tasks = [\<lparr>task_connection = i, task_mutex = entity_mutex (g w), task_code = k w\<rparr>]\<rparr>"
    by (simp add: do_step_def wlock_same)
  ultimately show ?case using Act.IH [of "k w" "g w"] by (simp add: converse_rtranclp_into_rtranclp)
qed simp

text \<open>Every step of the server that runs whole handlers is a sequence of steps of the threads.\<close>

lemma read_threaded:
  assumes "serving s" and "outstanding Reading i s"
  shows "threaded_steps (server_registry svc) reason (single s)
    (single (read_completes (server_registry svc) reason i req err p s))"
proof -
  let ?reg = "server_registry svc"
  let ?c = "(connections s ! i)\<lparr>pending_op := Idle, session_request := req\<rparr>"
  let ?code = "dispatch_request_steps ?reg reason p req"
  have ok: "crash s = None" using assms(1) by (simp add: serving_def)
  have "free_thread (single s)" using assms(1) by (simp add: free_thread_def single_def serving_def)
  then have begun: "threaded_step ?reg reason (single s) (begin_read ?reg reason i req err p (single s))"
    by (rule thread_begin) (use assms(2) in \<open>simp add: single_def\<close>)
  show ?thesis
  proof (cases err)
    case True
    then have "begin_read ?reg reason i req err p (single s) =
        single (read_completes ?reg reason i req err p s)"
      using ok by (simp add: begin_read_def read_completes_eq single_def Let_def)
    with begun show ?thesis by auto
  next
    case False
    define u where "u = s\<lparr>connections := (connections s)[i := ?c\<lparr>reads := reads ?c @ [req]\<rparr>]\<rparr>"
    let ?w = "server_world s" and ?r = "run ?code (server_world s)"
    let ?ts = "\<lparr>server = u\<lparr>server_world := snd ?r\<rparr>,
      tasks = [\<lparr>task_connection = i, task_mutex = entity_mutex (snd ?r), task_code = Ret (fst ?r)\<rparr>]\<rparr>"
    have "begin_read ?reg reason i req err p (single s) =
        \<lparr>server = u\<lparr>server_world := ?w\<rparr>,
         tasks = [\<lparr>task_connection = i, task_mutex = entity_mutex ?w, task_code = ?code\<rparr>]\<rparr>"
      using False by (simp add: begin_read_def u_def single_def Let_def)
    with threaded_run [of u ?reg reason ?w i ?code] ok
    have "threaded_steps ?reg reason (begin_read ?reg reason i req err p (single s)) ?ts"
      by (simp add: u_def)
    moreover have "threaded_step ?reg reason ?ts (end_read 0 (fst ?r) ?ts)"
      by (rule thread_end) (simp_all add: u_def ok)
    moreover have "end_read 0 (fst ?r) ?ts = single (read_completes ?reg reason i req err p s)"
      using False ok assms(2) unfolding dispatch_steps_run
      by (simp add: end_read_def read_completes_eq u_def single_def without_def Let_def split: prod.split sum.split)
    ultimately show ?thesis using begun by (metis (no_types, lifting) converse_rtranclp_into_rtranclp rtranclp.rtrancl_into_rtrancl)
  qed
qed

lemma server_step_threaded:
  assumes "server_step (server_registry svc) reason s t"
  shows "threaded_steps (server_registry svc) reason (single s) (single t)"
  using assms
proof (cases rule: server_step.cases)
  case (step_accept c err)
  then show ?thesis
    using thread_accept [of "single s" c "server_registry svc" reason err]
    by (auto simp: free_thread_def single_def serving_def on_server_def)
next
  case (step_read i req err p)
  then show ?thesis by (auto intro: read_threaded)
next
  case (step_write i err p)
  then show ?thesis
    using thread_write [of "single s" i "server_registry svc" reason err p]
    by (auto simp: free_thread_def single_def serving_def on_server_def)
next
  case step_join
  then show ?thesis
    using thread_join [of "single s" "server_registry svc" reason]
    by (auto simp: single_def on_server_def)
qed

lemma server_steps_threaded:
  "(server_step (server_registry svc) reason)\<^sup>*\<^sup>* s t \<Longrightarrow>
    threaded_steps (server_registry svc) reason (single s) (single t)"
  by (induction rule: rtranclp_induct) (auto intro: rtranclp_trans server_step_threaded)

subsection \<open>What every thread guarantees\<close>

text \<open>
  \<open>I\<close> is what the threads may rely on, \<open>R\<close> what each step of a thread of the pool guarantees, \<open>S\<close> what
  they achieve together with the logging thread. The laws ask that the steps of the dispatcher
  guarantee \<open>R\<close> for the requests in \<open>Q\<close>, that adding to the log does, and that \<open>S\<close> does not depend on
  what is in the log; then every state that the server reaches with requests in \<open>Q\<close> is related by
  \<open>S\<close> to the first.
\<close>

definition all_reads :: "(request \<Rightarrow> bool) \<Rightarrow> threaded_server \<Rightarrow> bool" where
  "all_reads Q ts \<longleftrightarrow> (\<forall>c \<in> set (connections (server ts)). \<forall>req \<in> set (reads c). Q req)"

text \<open>Reads are only added.\<close>

definition reads_grow :: "connection list \<Rightarrow> connection list \<Rightarrow> bool" where
  "reads_grow cs cs' \<longleftrightarrow> length cs \<le> length cs' \<and>
     (\<forall>i < length cs. set (reads (cs ! i)) \<subseteq> set (reads (cs' ! i)))"

lemma reads_grow_refl [simp]: "reads_grow cs cs"
  by (simp add: reads_grow_def)

lemma reads_grow_update:
  "(i < length cs \<Longrightarrow> set (reads (cs ! i)) \<subseteq> set (reads c)) \<Longrightarrow> reads_grow cs (cs[i := c])"
  by (cases "i < length cs") (auto simp: reads_grow_def nth_list_update split: if_splits)

lemma threaded_reads_grow:
  "threaded_step reg reason ts ts' \<Longrightarrow> reads_grow (connections (server ts)) (connections (server ts'))"
proof (induction rule: threaded_step.induct)
  case (thread_accept ts c err)
  show ?case by (simp add: on_server_def reads_grow_def nth_append)
next
  case (thread_step ts j g k)
  then show ?case by (simp add: do_step_def Let_def)
next
  case (thread_end ts j answer)
  show ?case by (auto simp: end_read_def Let_def intro!: reads_grow_update split: sum.split)
qed (auto simp: begin_read_def Let_def on_server_def write_completes_eq kill_server_def kill_server_ends_def
    slog_def run_join_def intro!: reads_grow_update)

lemma all_reads_back:
  assumes "threaded_step reg reason ts ts'" and "all_reads Q ts'"
  shows "all_reads Q ts"
  unfolding all_reads_def
proof (intro ballI)
  fix c req assume "c \<in> set (connections (server ts))" and req: "req \<in> set (reads c)"
  then obtain i where i: "i < length (connections (server ts))" "c = connections (server ts) ! i"
    by (metis in_set_conv_nth)
  with threaded_reads_grow [OF assms(1)] req
  have "req \<in> set (reads (connections (server ts') ! i))" "i < length (connections (server ts'))"
    by (auto simp: reads_grow_def)
  with assms(2) show "Q req" unfolding all_reads_def by (meson nth_mem)
qed

definition kept ::
  "(world \<Rightarrow> bool) \<Rightarrow> (world \<Rightarrow> world \<Rightarrow> bool) \<Rightarrow> (world \<Rightarrow> world \<Rightarrow> bool) \<Rightarrow> world \<Rightarrow> threaded_server \<Rightarrow> bool"
  where
  "kept I R S w0 ts \<longleftrightarrow> S w0 (server_world (server ts)) \<and> I (server_world (server ts)) \<and>
     (\<forall>t \<in> set (tasks ts). each_step I R (task_code t))"

locale guarantee =
  fixes I :: "world \<Rightarrow> bool" and R S :: "world \<Rightarrow> world \<Rightarrow> bool" and Q :: "request \<Rightarrow> bool"
    and reg :: registry and reason :: "status \<Rightarrow> string"
  assumes refl_law: "S w w"
    and trans_law: "S u v \<Longrightarrow> S v w \<Longrightarrow> S u w"
    and stable_law: "I w \<Longrightarrow> S w w' \<Longrightarrow> I w'"
    and step_law: "R w w' \<Longrightarrow> S w w'"
    and log_law: "same_but_logs w w' \<Longrightarrow> S w w'"
    and lock_law: "S w (wlock b w)"
    and drain_law: "S w (w\<lparr>logs := q\<rparr>)"
    and dispatch_law: "Q req \<Longrightarrow> each_step I R (dispatch_request_steps reg reason p req)"
begin

lemma kept_world:
  "kept I R S w0 ts \<Longrightarrow> S (server_world (server ts)) w \<Longrightarrow> server_world (server ts') = w \<Longrightarrow>
    set (tasks ts') \<subseteq> set (tasks ts) \<Longrightarrow> kept I R S w0 ts'"
  unfolding kept_def using trans_law stable_law by blast

lemma kept_begin:
  assumes "kept I R S w0 ts" and "Q req \<or> err"
  shows "kept I R S w0 (begin_read reg reason i req err p ts)"
  using assms dispatch_law by (auto simp: kept_def begin_read_def Let_def)

lemma kept_do_step:
  assumes k: "kept I R S w0 ts" and j: "j < length (tasks ts)" and code: "task_code (tasks ts ! j) = Act g f"
  shows "kept I R S w0 (do_step j ts)"
proof -
  let ?w = "wlock (task_mutex (tasks ts ! j)) (server_world (server ts))"
  have safe: "each_step I R (Act g f)" and w0: "S w0 (server_world (server ts))"
    using k code nth_mem [OF j] unfolding kept_def by metis+
  have I: "I ?w" using k lock_law stable_law by (auto simp: kept_def)
  with safe have "S ?w (g ?w)" and f: "each_step I R (f ?w)" using step_law by auto
  then have "S w0 (g ?w)" "I (g ?w)" using w0 lock_law trans_law stable_law [OF I] by blast+
  moreover have "each_step I R (task_code t)"
    if "t \<in> set ((tasks ts)[j := (tasks ts ! j)\<lparr>task_mutex := b, task_code := f ?w\<rparr>])" for t b
    using set_update_subset_insert that f k by (fastforce simp: kept_def)
  ultimately show ?thesis by (simp add: kept_def do_step_def code Let_def)
qed

lemma kept_step:
  assumes "threaded_step reg reason ts ts'" and "all_reads Q ts'" and "kept I R S w0 ts"
  shows "kept I R S w0 ts'"
  using assms
proof (induction rule: threaded_step.induct)
  case (thread_accept ts c err)
  then show ?case
    by (elim kept_world) (simp_all add: on_server_def refl_law)
next
  case (thread_begin ts i req err p)
  have "Q req \<or> err"
    using thread_begin set_update_memI [of i "connections (server ts)"]
    by (fastforce simp: all_reads_def begin_read_def Let_def)
  with thread_begin show ?case by (blast intro: kept_begin)
next
  case (thread_step ts j g k)
  then show ?case by (blast intro: kept_do_step)
next
  case (thread_end ts j answer)
  then show ?case
    by (elim kept_world) (auto simp: end_read_def Let_def without_def refl_law split: sum.split dest: in_set_takeD in_set_dropD)
next
  case (thread_write ts i err p)
  then show ?case
    by (elim kept_world) (simp_all add: on_server_def write_completes_eq log_law)
next
  case (thread_signal ts)
  then show ?case
    by (elim kept_world) (simp_all add: on_server_def kill_server_def slog_def log_law)
next
  case (thread_killed ts)
  then show ?case
    by (elim kept_world) (simp_all add: on_server_def kill_server_ends_def refl_law)
next
  case (thread_log ts)
  then show ?case
    by (elim kept_world) (simp_all add: on_server_def drain_law)
next
  case (thread_join ts)
  then show ?case
    by (elim kept_world) (simp_all add: on_server_def run_join_def slog_def log_law)
qed

lemma kept_steps:
  "threaded_steps reg reason ts0 ts \<Longrightarrow> all_reads Q ts \<Longrightarrow> kept I R S w0 ts0 \<Longrightarrow> kept I R S w0 ts"
  by (induction rule: rtranclp_induct) (blast intro: kept_step all_reads_back)+

text \<open>From the constructor of the server.\<close>

lemma kept_start:
  assumes "I (server_world s0)"
  shows "kept I R S (server_world s0) (single (run_threads (log_alone n s0)))"
proof -
  obtain b where b: "server_world (log_alone n s0) = (server_world s0)\<lparr>logs := b\<rparr>"
    using log_alone_world by blast
  have "same_but_logs (server_world (log_alone n s0)) (server_world (run_threads (log_alone n s0)))"
    by (simp add: run_threads_def make_threads_eq slog_def)
  then have "S (server_world s0) (server_world (run_threads (log_alone n s0)))"
    using log_law trans_law [OF drain_law] unfolding b by blast
  then show ?thesis using stable_law [OF assms] by (simp add: kept_def single_def)
qed

lemma kept_reachable:
  assumes "threaded_reachable reg reason s0 ts" and "all_reads Q ts" and "I (server_world s0)"
  shows "kept I R S (server_world s0) ts"
  using assms(1) kept_steps [OF _ assms(2) kept_start [OF assms(3)]] unfolding threaded_reachable_def by blast

end

subsection \<open>The steps of the dispatcher\<close>

text \<open>The handlers but the CRUD handler change nothing but the log and the time slept.\<close>

definition no_files :: "world \<Rightarrow> world \<Rightarrow> bool" where
  "no_files w w' \<longleftrightarrow> keeps w w' \<and> files w' = files w"

lemma no_files_logs: "same_but_logs w w' \<Longrightarrow> no_files w w'"
  by (simp add: no_files_def same_but_logs_def)

lemma app_object_same: "same_but_logs w (snd (app_handle_request svc req w))"
proof -
  have "same_but_logs w (snd (process_post svc req (wlog b n w)))" for b n
    using same_but_logs_trans [OF _ process_post_same [of "wlog b n w" svc req], of w] by simp
  moreover have "same_but_logs w (snd (generate_landing_page req (wlog b n w)))" for b n
    using same_but_logs_trans [OF _ landing_page_same [of "wlog b n w" req], of w] by simp
  ultimately show ?thesis by (simp add: app_handle_request_def Let_def)
qed

lemma dispatch_steps_guarantee:
  assumes crud: "each_step I R (crud_handle_request_steps req)"
    and other: "\<And>w w'. no_files w w' \<Longrightarrow> R w w'"
  shows "each_step I R (dispatch_request_steps (server_registry svc) reason p req)"
proof -
  have logs: "R w w'" if "same_but_logs w w'" for w w' using other no_files_logs that by blast
  have handler: "each_step I R (handle_request_steps h req)" if "made_by_main svc h" for h
    using that crud logs static_same app_object_same
    by (auto simp: made_by_main_def file_steps echo_handle_request_def health_handle_request_def
        not_found_handle_request_def Let_def no_files_def
        intro!: each_step_and_then other)
  have get: "no_files w (snd (GetRequestHandler ty (server_registry svc) w))" for ty w
    using registry_makes [of ty svc w] by (auto simp: no_files_def prod_eq_iff)
  have made: "made_by_main svc h" if "fst (GetRequestHandler ty (server_registry svc) w) = Some h" for h ty w
    using that registry_makes [of ty svc w] by (auto simp: prod_eq_iff)
  have answer: "each_step I R (answer_request_steps (server_registry svc) ty req)" for ty
    unfolding answer_request_steps_def
    by (auto simp: file_steps intro!: each_step_and_then logs other [OF get] handler split: option.split dest: made)
  show ?thesis
    unfolding dispatch_request_steps_def
    by (auto simp: file_steps intro!: each_step_and_then logs getRequestType_same answer split: sum.split)
qed

text \<open>Whatever is requested, every step keeps the configuration, adds to the log, and leaves a tree.\<close>

definition under :: "interpreter \<Rightarrow> world \<Rightarrow> bool" where
  "under cfg w \<longleftrightarrow> interp w = cfg"

lemma no_files_tidy: "no_files w w' \<Longrightarrow> tidy w w'"
  by (simp add: no_files_def tidy_def)

lemma under_tidy: "under cfg w \<Longrightarrow> tidy w w' \<Longrightarrow> under cfg w'"
  by (auto simp: under_def tidy_def dest: keeps_interp)

lemma tidy_files_logs: "tidy_files w (w\<lparr>logs := q\<rparr>)"
  by (simp add: tidy_files_def)

interpretation tidiness: guarantee "under cfg" tidy tidy_files "\<lambda>_. True" "server_registry svc" reason
  for cfg :: interpreter and svc :: services and reason :: "status \<Rightarrow> string"
proof (rule guarantee.intro)
  show "each_step (under cfg) tidy (dispatch_request_steps (server_registry svc) reason p req)" for p req
    by (rule dispatch_steps_guarantee [OF crud_request_tidy no_files_tidy])
qed (auto simp: under_def tidy_files_def same_but_logs_def tidy_def keeps_interp)

text \<open>If the requests write safely, the data directories are the only place where files change.\<close>

lemma files_kept_logs: "files_kept Ds w (w\<lparr>logs := q\<rparr>)"
  by (simp add: files_kept_def)

lemma no_files_kept: "no_files w w' \<Longrightarrow> files_kept Ds w w'"
  by (simp add: no_files_def files_kept_def keeps_interp)

interpretation confinement: guarantee "data_inv cfg Ds" "files_kept Ds" "files_kept Ds" "writes_safely cfg" "server_registry svc" reason
  for cfg :: interpreter and Ds :: "path set" and svc :: services and reason :: "status \<Rightarrow> string"
proof (rule guarantee.intro)
  show "each_step (data_inv cfg Ds) (files_kept Ds) (dispatch_request_steps (server_registry svc) reason p req)"
    if "writes_safely cfg req" for p req
    by (rule dispatch_steps_guarantee [OF crud_request_safe [OF that] no_files_kept])
qed (auto intro: files_kept_trans data_inv_kept same_but_logs_kept files_kept_logs)

end
