(* ===== verification/Threaded_Order.thy ===== *)
theory Threaded_Order
  imports Threaded_Server
begin

text \<open>
  The order of requests and responses on the connections of the threaded server, and what can end
  the process: the invariant of all its states.
\<close>

subsection \<open>The invariant\<close>

text \<open>
  What the dispatcher can answer to a request if other threads act between its steps. They leave
  the configuration alone and can do anything else.
\<close>

definition possible ::
  "registry \<Rightarrow> (status \<Rightarrow> string) \<Rightarrow> interpreter \<Rightarrow> request \<Rightarrow> response result \<Rightarrow> bool" where
  "possible reg reason cfg req a \<longleftrightarrow>
     (\<exists>p. may_return (under cfg) (dispatch_request_steps reg reason p req) a)"

text \<open>A connection that is \<open>busy\<close> has a task at work on its last request.\<close>

definition orderly ::
  "registry \<Rightarrow> (status \<Rightarrow> string) \<Rightarrow> interpreter \<Rightarrow> bool \<Rightarrow> connection \<Rightarrow> bool" where
  "orderly reg reason cfg busy c \<longleftrightarrow>
     (\<exists>answered open_reqs.
        reads c = answered @ open_reqs \<and>
        list_all2 (\<lambda>req r. possible reg reason cfg req (Inr r)) answered (sent c) \<and>
        (case pending_op c of
           Reading \<Rightarrow> open_reqs = [] \<and> session_request c = empty_request \<and> \<not> busy
         | Writing \<Rightarrow> open_reqs = [session_request c] \<and> \<not> busy \<and>
                      possible reg reason cfg (session_request c) (Inr (session_response c))
         | Idle \<Rightarrow> length open_reqs \<le> 1 \<and> (busy \<longrightarrow> open_reqs = [session_request c])))"

definition task_ok ::
  "registry \<Rightarrow> (status \<Rightarrow> string) \<Rightarrow> interpreter \<Rightarrow> connection list \<Rightarrow> task \<Rightarrow> bool" where
  "task_ok reg reason cfg cs t \<longleftrightarrow>
     task_connection t < length cs \<and>
     (\<forall>a. may_return (under cfg) (task_code t) a \<longrightarrow>
        possible reg reason cfg (session_request (cs ! task_connection t)) a)"

definition busy_in :: "task list \<Rightarrow> nat \<Rightarrow> bool" where
  "busy_in tks i \<longleftrightarrow> i \<in> task_connection ` set tks"

definition threads_inv :: "registry \<Rightarrow> (status \<Rightarrow> string) \<Rightarrow> interpreter \<Rightarrow> threaded_server \<Rightarrow> bool" where
  "threads_inv reg reason cfg ts \<longleftrightarrow>
     pending_accept (server ts) = Some new_connection \<and>
     (\<forall>i < length (connections (server ts)).
        orderly reg reason cfg (busy_in (tasks ts) i) (connections (server ts) ! i)) \<and>
     (\<forall>t \<in> set (tasks ts). task_ok reg reason cfg (connections (server ts)) t) \<and>
     distinct (map task_connection (tasks ts)) \<and>
     length (tasks ts) \<le> threadpool (server ts) \<and>
     (\<forall>e. crash (server ts) = Some e \<longrightarrow>
        (e = no_return \<and> killing (server ts) \<and> logging_thread (server ts) = Exited) \<or>
        (\<exists>req. possible reg reason cfg req (Inl e)))"

lemma orderlyI:
  "reads c = answered @ open_reqs \<Longrightarrow>
   list_all2 (\<lambda>req r. possible reg reason cfg req (Inr r)) answered (sent c) \<Longrightarrow>
   (case pending_op c of
      Reading \<Rightarrow> open_reqs = [] \<and> session_request c = empty_request \<and> \<not> busy
    | Writing \<Rightarrow> open_reqs = [session_request c] \<and> \<not> busy \<and>
                 possible reg reason cfg (session_request c) (Inr (session_response c))
    | Idle \<Rightarrow> length open_reqs \<le> 1 \<and> (busy \<longrightarrow> open_reqs = [session_request c])) \<Longrightarrow>
   orderly reg reason cfg busy c"
  unfolding orderly_def by blast

subsection \<open>What the steps do to one connection\<close>

lemma orderly_new: "orderly reg reason cfg False (new_connection\<lparr>pending_op := Reading\<rparr>)"
  by (simp add: orderly_def new_connection_def new_session_def session.defs connection.defs)

lemma orderly_begin:
  assumes "orderly reg reason cfg busy c" and "pending_op c = Reading"
  shows "\<not> busy"
    and "orderly reg reason cfg False (c\<lparr>pending_op := Idle, session_request := req\<rparr>)"
    and "orderly reg reason cfg True
      (c\<lparr>pending_op := Idle, session_request := req, reads := reads c @ [req]\<rparr>)"
proof -
  have c: "list_all2 (\<lambda>req r. possible reg reason cfg req (Inr r)) (reads c) (sent c)" "\<not> busy"
    using assms by (auto simp: orderly_def)
  then show "\<not> busy" by simp
  show "orderly reg reason cfg False (c\<lparr>pending_op := Idle, session_request := req\<rparr>)"
    by (rule orderlyI [of _ "reads c" "[]"]) (simp_all add: c)
  show "orderly reg reason cfg True
      (c\<lparr>pending_op := Idle, session_request := req, reads := reads c @ [req]\<rparr>)"
    by (rule orderlyI [of _ "reads c" "[req]"]) (simp_all add: c)
qed

lemma orderly_end:
  assumes "orderly reg reason cfg True c"
  shows "pending_op c = Idle" and "orderly reg reason cfg False c"
    and "possible reg reason cfg (session_request c) (Inr r) \<Longrightarrow>
      orderly reg reason cfg False (c\<lparr>session_response := r, pending_op := Writing\<rparr>)"
proof -
  obtain answered where c: "reads c = answered @ [session_request c]"
    "list_all2 (\<lambda>req r. possible reg reason cfg req (Inr r)) answered (sent c)" "pending_op c = Idle"
    using assms by (cases "pending_op c") (auto simp: orderly_def)
  then show "pending_op c = Idle" by simp
  show "orderly reg reason cfg False c"
    by (rule orderlyI [OF c(1,2)]) (simp add: c(3))
  show "orderly reg reason cfg False (c\<lparr>session_response := r, pending_op := Writing\<rparr>)"
    if "possible reg reason cfg (session_request c) (Inr r)"
    by (rule orderlyI [of _ answered "[session_request c]"]) (use c that in simp_all)
qed

lemma orderly_write:
  assumes "orderly reg reason cfg busy c" and "pending_op c = Writing"
  shows "\<not> busy" and "orderly reg reason cfg False (c\<lparr>pending_op := Idle\<rparr>)"
    and "orderly reg reason cfg False
      (c\<lparr>sent := sent c @ [session_response c], session_request := empty_request, pending_op := Reading\<rparr>)"
proof -
  obtain answered where c: "reads c = answered @ [session_request c]" "\<not> busy"
    "list_all2 (\<lambda>req r. possible reg reason cfg req (Inr r)) answered (sent c)"
    "possible reg reason cfg (session_request c) (Inr (session_response c))"
    using assms by (auto simp: orderly_def)
  then show "\<not> busy" by simp
  show "orderly reg reason cfg False (c\<lparr>pending_op := Idle\<rparr>)"
    by (rule orderlyI [of _ answered "[session_request c]"]) (use c in simp_all)
  show "orderly reg reason cfg False
      (c\<lparr>sent := sent c @ [session_response c], session_request := empty_request, pending_op := Reading\<rparr>)"
    by (rule orderlyI [of _ "answered @ [session_request c]" "[]"])
      (use c in \<open>simp_all add: list_all2_appendI\<close>)
qed

subsection \<open>Every step keeps the invariant\<close>

text \<open>A change of one connection that no task is at work on.\<close>

lemma task_ok_other:
  "task_ok reg reason cfg cs t \<Longrightarrow> task_connection t \<noteq> i \<Longrightarrow> task_ok reg reason cfg (cs[i := c]) t"
  by (simp add: task_ok_def)

lemma threads_inv_idle:
  assumes inv: "threads_inv reg reason cfg ts" and free: "\<not> busy_in (tasks ts) i"
    and c: "orderly reg reason cfg False c"
    and s: "connections s = (connections (server ts))[i := c]" "pending_accept s = pending_accept (server ts)"
      "threadpool s = threadpool (server ts)" "crash s = crash (server ts)" "killing s = killing (server ts)"
      "logging_thread s = logging_thread (server ts)"
  shows "threads_inv reg reason cfg (ts\<lparr>server := s\<rparr>)"
proof -
  have "orderly reg reason cfg (busy_in (tasks ts) k) (connections s ! k)" if "k < length (connections s)" for k
    using inv that c free s(1) by (cases "k = i") (auto simp: threads_inv_def)
  moreover have "task_ok reg reason cfg (connections s) t" if t: "t \<in> set (tasks ts)" for t
    using inv t free unfolding s(1) threads_inv_def busy_in_def by (blast intro: task_ok_other)
  ultimately show ?thesis using inv s by (simp add: threads_inv_def)
qed

lemma threads_inv_begin:
  assumes inv: "threads_inv reg reason cfg ts" and free: "free_thread ts"
    and i: "outstanding Reading i (server ts)"
  shows "threads_inv reg reason cfg (begin_read reg reason i req err p ts)"
proof -
  let ?c = "connections (server ts) ! i"
  let ?c1 = "?c\<lparr>pending_op := Idle, session_request := req, reads := reads ?c @ [req]\<rparr>"
  have o: "orderly reg reason cfg (busy_in (tasks ts) i) ?c" using inv i by (simp add: threads_inv_def)
  note o1 = orderly_begin [OF o conjunct2 [OF i]]
  show ?thesis
  proof (cases err)
    case True
    with threads_inv_idle [OF inv o1(1,2)] show ?thesis by (simp add: begin_read_def Let_def)
  next
    case False
    define u where "u = (server ts)\<lparr>connections := (connections (server ts))[i := ?c1]\<rparr>"
    define t where "t = \<lparr>task_connection = i, task_mutex = entity_mutex (server_world (server ts)),
      task_code = dispatch_request_steps reg reason p req\<rparr>"
    have b: "begin_read reg reason i req err p ts = \<lparr>server = u, tasks = tasks ts @ [t]\<rparr>"
      using False by (simp add: begin_read_def u_def t_def Let_def)
    have "orderly reg reason cfg (busy_in (tasks ts @ [t]) k) (connections u ! k)"
      if "k < length (connections u)" for k
      using inv that o1(3) by (cases "k = i") (auto simp: threads_inv_def u_def busy_in_def t_def)
    moreover have "task_ok reg reason cfg (connections u) t"
      using i by (auto simp: task_ok_def t_def u_def possible_def)
    moreover have "task_ok reg reason cfg (connections u) t'" if "t' \<in> set (tasks ts)" for t'
      using inv that o1(1) unfolding threads_inv_def busy_in_def u_def by (auto intro: task_ok_other)
    moreover have "distinct (map task_connection (tasks ts @ [t]))"
      using inv o1(1) by (auto simp: threads_inv_def busy_in_def t_def)
    ultimately show ?thesis
      using inv free unfolding b by (auto simp: threads_inv_def u_def free_thread_def)
  qed
qed

lemma threads_inv_do_step:
  assumes inv: "threads_inv reg reason cfg ts" and w: "under cfg (server_world (server ts))"
    and j: "j < length (tasks ts)" and code: "task_code (tasks ts ! j) = Act g k"
  shows "threads_inv reg reason cfg (do_step j ts)"
proof -
  let ?t = "tasks ts ! j" and ?w = "wlock (task_mutex (tasks ts ! j)) (server_world (server ts))"
  let ?t1 = "?t\<lparr>task_mutex := entity_mutex (g ?w), task_code := k ?w\<rparr>"
  have "under cfg ?w" using w by (simp add: under_def)
  then have "may_return (under cfg) (task_code ?t) a" if "may_return (under cfg) (k ?w) a" for a
    using that code by auto
  then have t1: "task_ok reg reason cfg (connections (server ts)) ?t1"
    using inv nth_mem [OF j] by (auto simp: threads_inv_def task_ok_def)
  have conns: "map task_connection ((tasks ts)[j := ?t1]) = map task_connection (tasks ts)"
    using j by (simp add: map_update) (metis list_update_id nth_map)
  then have busy: "busy_in ((tasks ts)[j := ?t1]) = busy_in (tasks ts)"
    unfolding busy_in_def by (metis image_set)
  have "set ((tasks ts)[j := ?t1]) \<subseteq> insert ?t1 (set (tasks ts))" by (rule set_update_subset_insert)
  with inv t1 show ?thesis
    unfolding do_step_def code Let_def
    by (auto simp: threads_inv_def conns busy)
qed

lemma threads_inv_end:
  assumes inv: "threads_inv reg reason cfg ts"
    and j: "j < length (tasks ts)" and code: "task_code (tasks ts ! j) = Ret answer"
  shows "threads_inv reg reason cfg (end_read j answer ts)"
proof -
  let ?i = "task_connection (tasks ts ! j)" and ?tks = "without j (tasks ts)"
  let ?c = "connections (server ts) ! ?i"
  have split: "tasks ts = take j (tasks ts) @ tasks ts ! j # drop (Suc j) (tasks ts)"
    using j by (rule id_take_nth_drop)
  have "distinct (map task_connection (take j (tasks ts) @ tasks ts ! j # drop (Suc j) (tasks ts)))"
    using inv split by (simp add: threads_inv_def)
  then have dist: "distinct (map task_connection ?tks)" and gone: "\<not> busy_in ?tks ?i"
    by (auto simp: without_def busy_in_def)
  have sub: "set ?tks \<subseteq> set (tasks ts)" by (auto simp: without_def dest: in_set_takeD in_set_dropD)
  have set: "set (tasks ts) = insert (tasks ts ! j) (set ?tks)"
    by (subst split) (auto simp: without_def)
  have busy: "busy_in (tasks ts) k = busy_in ?tks k" if "k \<noteq> ?i" for k
    using that unfolding busy_in_def set by auto
  have len: "length ?tks \<le> length (tasks ts)" by (simp add: without_def)
  have tj: "task_ok reg reason cfg (connections (server ts)) (tasks ts ! j)"
    using inv nth_mem [OF j] by (simp add: threads_inv_def)
  then have i: "?i < length (connections (server ts))" and poss: "possible reg reason cfg (session_request ?c) answer"
    by (auto simp: task_ok_def code)
  have "busy_in (tasks ts) ?i" using nth_mem [OF j] by (simp add: busy_in_def)
  then have o: "orderly reg reason cfg True ?c" using inv i unfolding threads_inv_def by metis
  note o1 = orderly_end [OF o]
  have rest: "threads_inv reg reason cfg \<lparr>server = server ts, tasks = ?tks\<rparr>"
  proof -
    have "orderly reg reason cfg (busy_in ?tks k) (connections (server ts) ! k)"
      if "k < length (connections (server ts))" for k
      using inv that o1(2) busy gone by (cases "k = ?i") (auto simp: threads_inv_def)
    then show ?thesis using inv sub dist len by (auto simp: threads_inv_def)
  qed
  show ?thesis
  proof (cases answer)
    case (Inl e)
    with rest poss show ?thesis
      by (auto simp: end_read_def threads_inv_def Let_def)
  next
    case (Inr r)
    from threads_inv_idle [OF rest, of ?i "?c\<lparr>session_response := r, pending_op := Writing\<rparr>"
        "(server ts)\<lparr>connections := (connections (server ts))[?i := ?c\<lparr>session_response := r, pending_op := Writing\<rparr>]\<rparr>"]
      gone o1(3) poss Inr
    show ?thesis by (simp add: end_read_def Let_def)
  qed
qed

lemma threads_inv_write:
  assumes inv: "threads_inv reg reason cfg ts" and i: "outstanding Writing i (server ts)"
  shows "threads_inv reg reason cfg (on_server (write_completes i err p) ts)"
proof -
  have "orderly reg reason cfg (busy_in (tasks ts) i) (connections (server ts) ! i)"
    using inv i by (simp add: threads_inv_def)
  note o = orderly_write [OF this conjunct2 [OF i]]
  show ?thesis
    unfolding on_server_def using threads_inv_idle [OF inv o(1) o(2)] threads_inv_idle [OF inv o(1) o(3)]
    by (simp add: write_completes_eq)
qed

lemma threads_inv_accept:
  assumes inv: "threads_inv reg reason cfg ts" and c: "pending_accept (server ts) = Some c"
  shows "threads_inv reg reason cfg (on_server (\<lambda>s. handle_accept c err (s\<lparr>pending_accept := None\<rparr>)) ts)"
proof -
  let ?cs = "connections (server ts)"
  have c: "c = new_connection" using inv c by (simp add: threads_inv_def)
  have "\<not> busy_in (tasks ts) (length ?cs)"
    using inv by (auto simp: threads_inv_def busy_in_def task_ok_def)
  then have "orderly reg reason cfg (busy_in (tasks ts) k)
      ((?cs @ (if err = None then [c\<lparr>pending_op := Reading\<rparr>] else [])) ! k)"
    if "k < length (?cs @ (if err = None then [c\<lparr>pending_op := Reading\<rparr>] else []))" for k
    using inv that orderly_new [of reg reason cfg] unfolding c
    by (auto simp: threads_inv_def nth_append less_Suc_eq split: if_splits)
  moreover have "task_ok reg reason cfg (?cs @ xs) t" if "t \<in> set (tasks ts)" for t xs
    using inv that by (auto simp: threads_inv_def task_ok_def nth_append)
  ultimately show ?thesis using inv unfolding threads_inv_def on_server_def by simp
qed

lemma threads_inv_step:
  assumes "threaded_step reg reason ts ts'" and "threads_inv reg reason cfg ts"
    and "under cfg (server_world (server ts))"
  shows "threads_inv reg reason cfg ts'"
  using assms
proof (induction rule: threaded_step.induct)
  case (thread_signal ts)
  then show ?case by (auto simp: threads_inv_def on_server_def kill_server_def free_thread_def serving_def)
next
  case (thread_killed ts)
  then show ?case by (simp add: threads_inv_def on_server_def kill_server_ends_def)
next
  case (thread_log ts)
  then show ?case by (auto simp: threads_inv_def on_server_def)
next
  case (thread_join ts)
  then show ?case by (simp add: threads_inv_def on_server_def run_join_def)
qed (simp_all add: threads_inv_accept threads_inv_begin threads_inv_do_step threads_inv_end threads_inv_write)

lemma threads_inv_reachable:
  assumes "new_server bind_ok stray pool_size port w = Inr s0"
    and "threaded_reachable (server_registry svc) reason s0 ts"
  shows "threads_inv (server_registry svc) reason (interp w) ts
    \<and> kept (under (interp w)) tidy tidy_files (server_world s0) ts"
proof -
  let ?inv = "\<lambda>ts. threads_inv (server_registry svc) reason (interp w) ts \<and>
    kept (under (interp w)) tidy tidy_files (server_world s0) ts"
  have s0: "under (interp w) (server_world s0)" "connections s0 = []" "crash s0 = None"
      "pending_accept s0 = Some new_connection"
    using assms(1) by (auto simp: under_def new_server_def start_accept_def split: if_splits)
  obtain n where steps: "threaded_steps (server_registry svc) reason (single (run_threads (log_alone n s0))) ts"
    using assms(2) unfolding threaded_reachable_def by blast
  have start: "?inv (single (run_threads (log_alone n s0)))"
    using s0 tidiness.kept_start [of "interp w" s0 n]
    by (auto simp: threads_inv_def single_def run_threads_def make_threads_eq)
  from steps show ?thesis
  proof (induction rule: rtranclp_induct)
    case (step t u)
    then show ?case
      using threads_inv_step [OF step.hyps(2)] tidiness.kept_step [OF step.hyps(2)]
      by (auto simp: kept_def all_reads_def)
  qed (rule start)
qed

subsection \<open>What a response can be\<close>

text \<open>Whatever a program sees, its results satisfy \<open>P\<close>.\<close>

primrec always :: "('a \<Rightarrow> bool) \<Rightarrow> 'a prog \<Rightarrow> bool" where
  "always P (Ret a) \<longleftrightarrow> P a"
| "always P (Act g k) \<longleftrightarrow> (\<forall>w. always P (k w))"

lemma always_and_then:
  "(\<And>a. may_return (\<lambda>_. True) p a \<Longrightarrow> always P (f a)) \<Longrightarrow> always P (and_then p f)"
  by (induction p) auto

lemma always_may_return: "always P p \<Longrightarrow> may_return I p a \<Longrightarrow> P a"
  by (induction p) auto

definition framed_result :: "response result \<Rightarrow> bool" where
  "framed_result a \<longleftrightarrow> (\<forall>r. a = Inr r \<longrightarrow> framed r)"

lemma framed_results [simp]:
  "framed_result (Inl e)" "framed_result (Inr (text_response st c b))"
  by (simp_all add: framed_result_def)

lemma always_method:
  "always framed_result (handle_post_steps path req)" "always framed_result (handle_get_steps path req)"
  "always framed_result (handle_put_steps path req)" "always framed_result (handle_del_steps path req)"
  unfolding handle_post_steps_def handle_get_steps_def handle_list_steps_def handle_put_steps_def
    handle_del_steps_def bad_request_def
  by (auto intro!: always_and_then split: sum.split option.split)

lemma always_crud: "always framed_result (crud_handle_request_steps req)"
  unfolding crud_handle_request_steps_def crud_method_steps_def
  by (auto intro!: always_and_then always_method split: sum.split)

lemma always_handler:
  assumes "made_by_main svc h" and "length (echo_text req) < 2 ^ 31"
  shows "always framed_result (handle_request_steps h req)"
proof -
  have "framed_result (fst (handle_request h req w))" for w
    using request_handler.framed_law [OF made_by_main_contract [OF assms(1)] assms(2)]
    by (auto simp: framed_result_def)
  then have "always framed_result (step (handle_request h req))" by (simp add: step_def)
  then show ?thesis by (cases h) (auto intro!: always_and_then always_crud)
qed

lemma always_answer:
  assumes "length (echo_text req) < 2 ^ 31"
  shows "always framed_result (answer_request_steps (server_registry svc) ty req)"
proof -
  have "made_by_main svc h" if "may_return (\<lambda>_. True) (step (GetRequestHandler ty (server_registry svc))) (Some h)" for h
    using that registry_makes [of ty svc] by (auto simp: prod_eq_iff)
  then have "always framed_result (and_then (step (GetRequestHandler ty (server_registry svc)))
      (case_option (Ret (Inl null_handler)) (\<lambda>h. handle_request_steps h req)))"
    by (intro always_and_then) (auto simp del: may_return_step intro: always_handler [OF _ assms] split: option.split)
  then show ?thesis
    unfolding answer_request_steps_def by (auto intro!: always_and_then simp: framed_result_def)
qed

lemma possible_framed:
  assumes "length (echo_text req) < 2 ^ 31" and "possible (server_registry svc) reason cfg req (Inr r)"
  shows "framed r"
proof -
  have "framed_result (Inr x)" if "may_return (\<lambda>_. True) (answer_request_steps (server_registry svc) ty req) (Inr x)" for x ty
    by (rule always_may_return [OF always_answer [OF assms(1)] that])
  then have "always framed_result (dispatch_request_steps (server_registry svc) reason p req)" for p
    unfolding dispatch_request_steps_def
    by (intro always_and_then) (auto split: sum.split intro!: always_and_then)
  from always_may_return [OF this] assms(2) show ?thesis
    unfolding possible_def framed_result_def by blast
qed

text \<open>An answer that the dispatcher gives undisturbed is a possible one.\<close>

lemma run_may_return:
  "(\<And>w w'. I w \<Longrightarrow> R w w' \<Longrightarrow> I w') \<Longrightarrow> each_step I R p \<Longrightarrow> I w \<Longrightarrow> may_return I p (fst (run p w))"
proof (induction p arbitrary: w)
  case (Act g k)
  then have "R w (g w)" "each_step I R (k w)" by auto
  then have "may_return I (k w) (fst (run (k w) (g w)))"
    using Act.IH [of "k w" "g w"] Act.prems(1) [OF Act.prems(3)] Act.prems(1) by blast
  with Act.prems(3) show ?case by auto
qed simp

lemma dispatch_possible:
  assumes "dispatch_request (server_registry svc) reason p req w = (a, w')"
  shows "possible (server_registry svc) reason (interp w) req a"
proof -
  have "under (interp w) w" by (simp add: under_def)
  moreover have "each_step (under (interp w)) tidy (dispatch_request_steps (server_registry svc) reason p req)"
    by (rule tidiness.dispatch_law) simp
  ultimately have "may_return (under (interp w)) (dispatch_request_steps (server_registry svc) reason p req)
      (fst (run (dispatch_request_steps (server_registry svc) reason p req) w))"
    by (intro run_may_return [where R = tidy]) (blast intro: under_tidy)
  then show ?thesis using assms unfolding possible_def by (auto simp: dispatch_steps_run)
qed

subsection \<open>Properties\<close>

text \<open>
  C6: On every connection of the running server, however its threads interleave, the responses
  answer the requests one by one and in order: each response sent is one that the dispatcher can
  give to the request read at the same place, under the configuration the server was started with,
  and it is framed. At most one request is unanswered, and none while the next is being read, into
  an empty \<open>request_\<close>; no two handlers work on one connection, and no more than there are threads.
\<close>

theorem connection_in_order:
  assumes "new_server bind_ok stray pool_size port w = Inr s0"
    and "threaded_reachable (server_registry svc) reason s0 ts" and "c \<in> set (connections (server ts))"
  shows "(\<exists>answered open_reqs. reads c = answered @ open_reqs \<and> length open_reqs \<le> 1
    \<and> list_all2 (\<lambda>req r. possible (server_registry svc) reason (interp w) req (Inr r) \<and>
          (length (echo_text req) < 2 ^ 31 \<longrightarrow> framed r)) answered (sent c)
    \<and> (pending_op c = Reading \<longrightarrow> open_reqs = [] \<and> session_request c = empty_request))
    \<and> distinct (map task_connection (tasks ts)) \<and> length (tasks ts) \<le> threadpool (server ts)"
proof -
  have inv: "threads_inv (server_registry svc) reason (interp w) ts"
    using threads_inv_reachable [OF assms(1,2)] by blast
  then obtain i where "c = connections (server ts) ! i"
      "orderly (server_registry svc) reason (interp w) (busy_in (tasks ts) i) c"
    using assms(3) unfolding threads_inv_def by (metis in_set_conv_nth)
  then obtain answered open_reqs where c: "reads c = answered @ open_reqs"
    "list_all2 (\<lambda>req r. possible (server_registry svc) reason (interp w) req (Inr r)) answered (sent c)"
    "length open_reqs \<le> 1" "pending_op c = Reading \<longrightarrow> open_reqs = [] \<and> session_request c = empty_request"
    by (cases "pending_op c") (auto simp: orderly_def)
  have "list_all2 (\<lambda>req r. possible (server_registry svc) reason (interp w) req (Inr r) \<and>
      (length (echo_text req) < 2 ^ 31 \<longrightarrow> framed r)) answered (sent c)"
    by (rule list_all2_mono [OF c(2)]) (use possible_framed in blast)
  with c inv show ?thesis unfolding threads_inv_def by blast
qed

text \<open>
  C9: The server keeps serving. In every state the threads can reach an accept is outstanding with
  a fresh session; the configuration is the one it was started with; and if the process has ended
  then because of the signal, in a thread that is in \<open>kill_server\<close> and has waited for the logging
  thread to leave its loop, or because the dispatcher let an exception (or undefined behaviour) of
  some request out.
\<close>

theorem server_keeps_accepting:
  assumes "new_server bind_ok stray pool_size port w = Inr s0"
    and "threaded_reachable (server_registry svc) reason s0 ts"
  shows "pending_accept (server ts) = Some new_connection \<and> interp (server_world (server ts)) = interp w
    \<and> (\<forall>e. crash (server ts) = Some e \<longrightarrow>
        (e = no_return \<and> killing (server ts) \<and> logging_thread (server ts) = Exited) \<or>
        (\<exists>req. possible (server_registry svc) reason (interp w) req (Inl e)))"
  using threads_inv_reachable [OF assms] unfolding threads_inv_def kept_def under_def by blast

text \<open>The servers of the examples.\<close>

lemma sample_accepted_reachable:
  "threaded_reachable (server_registry svc) reason (sample_server w) (single (sample_accepted w))"
  by (rule reachable_steps [OF reach_start server_step_threaded [OF sample_accepted_step]])

theorem connection_in_order_witness:
  "\<exists>c :: connection. reads c = [get_request ''/health''] \<and> sent c = [text_response Ok ''text/plain'' []]
    \<and> pending_op c = Reading \<and> session_request c = empty_request
    \<and> possible (server_registry echo_services) (\<lambda>_. ''OK'') (interp sample_world)
        (get_request ''/health'') (Inr (text_response Ok ''text/plain'' []))"
proof -
  obtain w' where d: "dispatch_request (server_registry echo_services) (\<lambda>_. ''OK'') sample_peer
      (get_request ''/health'') (server_world (sample_accepted sample_world))
      = (Inr (text_response Ok ''text/plain'' []), w')"
    using sample_health by blast
  obtain t where t: "(server_step (server_registry echo_services) (\<lambda>_. ''OK''))\<^sup>*\<^sup>* (sample_accepted sample_world) t"
      "outstanding Reading 0 t" "reads (connections t ! 0) = [get_request ''/health'']"
      "sent (connections t ! 0) = [text_response Ok ''text/plain'' []]"
    by (rule exchange [OF sample_accepted_state(1,2) d, of undefined])
      (simp add: sample_accepted_state new_connection_def session.defs connection.defs)
  have "connections t ! 0 \<in> set (connections (server (single t)))" using t(2) by (simp add: single_def)
  note inv = connection_in_order [OF sample_server_new
    reachable_steps [OF sample_accepted_reachable server_steps_threaded [OF t(1)]] this]
  from inv t(2-4) show ?thesis
    by (intro exI [of _ "connections t ! 0"]) (auto simp: list_all2_Cons2)
qed

theorem server_keeps_accepting_witness:
  "\<exists>s :: server_state. pending_accept s = Some new_connection \<and> interp (server_world s) = interp sample_world
    \<and> crash s = None \<and> killing s \<and> io_stopped s"
proof -
  let ?ts = "on_server kill_server (single (sample_accepted sample_world))"
  have "threaded_step (server_registry echo_services) (\<lambda>_. ''OK'') (single (sample_accepted sample_world)) ?ts"
    by (rule thread_signal) (use sample_accepted_state(1) in \<open>simp add: free_thread_def single_def serving_def\<close>)
  then have r: "threaded_reachable (server_registry echo_services) (\<lambda>_. ''OK'') (sample_server sample_world) ?ts"
    using reachable_steps [OF sample_accepted_reachable] by blast
  have "crash (sample_accepted sample_world) = None"
    using sample_accepted_state(1) [of sample_world] by (simp add: serving_def)
  with server_keeps_accepting [OF sample_server_new r] show ?thesis
    by (intro exI [of _ "server ?ts"]) (simp add: single_def on_server_def kill_server_def)
qed

text \<open>
  C4: One connection against the abstract store. A client that sends well-formed CRUD requests
  for a configured location one after the other, with no other client, gets on its connection
  exactly the responses of the abstract store, in order, and the files represent the store after
  the last; the server then waits for the next request.
\<close>

theorem connection_serves_store:
  assumes "serving s" and "outstanding Reading i s" and "store_inv dp D (files (server_world s))"
    and "ops_ok cs (abs_store D (files (server_world s)))"
    and "paths_ok (getServerPaths (interp (server_world s)))"
    and "list_all2 (asks (getServerPaths (interp (server_world s))) l) cs reqs"
    and "map_at (crud_paths (getServerPaths (interp (server_world s)))) l = dp"
  shows "\<exists>t. threaded_steps (server_registry svc) reason (single s) (single t)
    \<and> serving t \<and> outstanding Reading i t
    \<and> reads (connections t ! i) = reads (connections s ! i) @ reqs
    \<and> sent (connections t ! i) =
        sent (connections s ! i) @ fst (spec_run cs (abs_store D (files (server_world s))))
    \<and> store_inv dp D (files (server_world t))
    \<and> abs_store D (files (server_world t)) = snd (spec_run cs (abs_store D (files (server_world s))))"
  using serves_store [OF assms, of svc reason] server_steps_threaded by blast

theorem connection_serves_store_witness:
  "\<exists>t. threaded_steps (server_registry echo_services) (\<lambda>_. []) (single (sample_accepted crud_world)) (single t)
    \<and> serving t \<and> outstanding Reading 0 t
    \<and> reads (connections t ! 0) = reads (connections (sample_accepted crud_world) ! 0)
        @ [crud_request Post ''/api/Shoes'' ''red'', crud_request Get ''/api/Shoes'' []]
    \<and> sent (connections t ! 0) = sent (connections (sample_accepted crud_world) ! 0)
        @ fst (spec_run [Create_op ''Shoes'' ''red'', List_op ''Shoes'']
            (abs_store [''crud''] (files (server_world (sample_accepted crud_world)))))
    \<and> store_inv ''crud'' [''crud''] (files (server_world t))
    \<and> abs_store [''crud''] (files (server_world t)) =
        snd (spec_run [Create_op ''Shoes'' ''red'', List_op ''Shoes'']
            (abs_store [''crud''] (files (server_world (sample_accepted crud_world)))))"
  by (rule connection_serves_store [of _ _ _ _ _ "''/api''"])
    (simp_all add: sample_accepted_state crud_world_simps crud_files_inv sample_paths_ok sample_paths_api
      sample_asks crud_world_empty entity_ok_Shoes next_number_def)

end
