(* ===== verification/Concurrent_Posts.thy ===== *)
theory Concurrent_Posts
  imports Threaded_Order
begin

text \<open>
  Two POSTs of one entity at once. Each has a file manager with a mutex of its own, and both write
  the counter file through the one file \<open>temp\<close>. If the second does all of its work between the
  moment the first has written \<open>temp\<close> and the moment it copies it, the file is gone: \<open>copy_file\<close>
  throws, nothing catches the exception, and the process ends.
\<close>

subsection \<open>Running a program up to a point\<close>

inductive own_step :: "'a prog \<times> world \<Rightarrow> 'a prog \<times> world \<Rightarrow> bool" where
  own: "own_step (Act g k, w) (k w, g w)"

abbreviation own_steps :: "'a prog \<times> world \<Rightarrow> 'a prog \<times> world \<Rightarrow> bool" where
  "own_steps \<equiv> own_step\<^sup>*\<^sup>*"

lemma own_steps_and_then:
  "own_steps (p, w) (p', w') \<Longrightarrow> own_steps (and_then p f, w) (and_then p' f, w')"
proof (induction rule: rtranclp_induct2)
  case (step q v q' v')
  then have "own_step (and_then q f, v) (and_then q' f, v')" by (auto simp: own_step.simps)
  with step(3) show ?case by (rule rtranclp.rtrancl_into_rtrancl)
qed simp

lemma own_steps_run: "own_steps (p, w) (Ret (fst (run p w)), snd (run p w))"
proof (induction p arbitrary: w)
  case (Act g k)
  have "own_step (Act g k, w) (k w, g w)" by (rule own)
  with Act.IH [of "k w" "g w"] show ?case by (simp add: converse_rtranclp_into_rtranclp)
qed simp

text \<open>
  A program pauses in a world \<open>v\<close>: it can get there by its own steps, and what is left of it throws
  if it goes on without the temporary file.
\<close>

definition pauses :: "'a result prog \<Rightarrow> world \<Rightarrow> world \<Rightarrow> bool" where
  "pauses p w v \<longleftrightarrow> (\<exists>rest. own_steps (p, w) (rest, v) \<and>
     (\<forall>u. open_read (files u) temp_file = None \<longrightarrow> fst (run rest u) = Inl Filesystem_error))"

lemma pauses_after:
  assumes "run p w = (a, w')" and "pauses (f a) w' v"
  shows "pauses (and_then p f) w v"
proof -
  obtain rest where rest: "own_steps (f a, w') (rest, v)"
    "\<forall>u. open_read (files u) temp_file = None \<longrightarrow> fst (run rest u) = Inl Filesystem_error"
    using assms(2) unfolding pauses_def by blast
  have "own_steps (and_then p f, w) (f a, w')"
    using own_steps_and_then [OF own_steps_run [of p w], of f] assms(1) by simp
  from this rest(1) have "own_steps (and_then p f, w) (rest, v)" by (rule rtranclp_trans)
  with rest(2) show ?thesis unfolding pauses_def by blast
qed

lemma pauses_inside:
  assumes "pauses p w v" and "\<And>u. fst (run (f (Inl Filesystem_error)) u) = Inl Filesystem_error"
  shows "pauses (and_then p f) w v"
proof -
  obtain rest where rest: "own_steps (p, w) (rest, v)"
    "\<forall>u. open_read (files u) temp_file = None \<longrightarrow> fst (run rest u) = Inl Filesystem_error"
    using assms(1) unfolding pauses_def by blast
  with assms(2) own_steps_and_then [OF rest(1), of f] show ?thesis
    unfolding pauses_def by (intro exI [of _ "and_then rest f"]) simp
qed

subsection \<open>A POST pauses\<close>

lemma plain_not_empty: "plain_name c \<Longrightarrow> c \<noteq> []"
  by (simp add: plain_name_def)

text \<open>The temporary file lies outside the store.\<close>

lemma store_inv_temp:
  assumes inv: "store_inv dp D f"
  shows "store_inv dp D (put_node (temp_path f) (Regular t) f)"
    and "abs_store D (put_node (temp_path f) (Regular t) f) = abs_store D f"
proof -
  let ?f' = "put_node (temp_path f) (Regular t) f"
  note env = store_inv_env [OF inv]
  have nodes: "node ?f' (D @ xs) = node f (D @ xs)" for xs using temp_outside [OF env, of xs] by simp
  have dirs: "is_dir ?f' (D @ xs) = is_dir f (D @ xs)" for xs using nodes [of xs] by (simp add: is_dir_def)
  have id: "id_at D ?f' n = id_at D f n" for n
    using nodes [of "[max_name]"] by (simp add: id_at_def max_text_def)
  have "store_env dp D ?f'"
    using store_env_put [OF env, of "cwd f" "''temp''" t] store_envD [OF env] by (simp add: temp_path_def)
  moreover have "entity_inv D ?f' n" if "entity_ok n" for n
    using store_inv_entity [OF inv that] nodes dirs id by (intro entity_inv_cong [of ?f' D n f]) simp_all
  ultimately show "store_inv dp D ?f'" by (simp add: store_inv_def)
  show "abs_store D ?f' = abs_store D f"
    using nodes dirs id by (intro ext abs_store_cong) simp_all
qed

lemma replace_pauses:
  assumes inv: "store_inv dp D (files w)" and n: "entity_ok n"
    and p: "data_path p = dp" "entity_name p = n" and e: "abs_store D (files w) n = Some e"
  shows "\<exists>t. pauses (replace_ids_steps p v) w (wfiles (put_node (temp_path (files w)) (Regular t) (files w)) w)"
proof -
  let ?f = "files w"
  note env = store_inv_env [OF inv]
  have "node ?f (D @ [max_name]) \<noteq> None"
    using abs_store_Some(3) [OF inv e] by (auto simp: id_at_def max_text_def id_in_def words_of_def split: option.splits)
  then have rd: "open_read ?f (max_ids_file p) = Some (Regular (max_text D ?f))"
    using max_file_text [OF env] store_envD [OF env] locate_max [OF env] p
    by (simp add: open_read_def max_ids_file_def)
  have wr: "write_file ?f temp_file t = (True, put_node (temp_path ?f) (Regular t) ?f)" for t
    using store_envD [OF env] locate_temp [OF env]
    by (auto simp: write_file_def write_with_def temp_file_def is_dir_def split: option.split fnode.split)
  let ?t = "unlines (rewrite_ids n v (words_of (max_text D ?f)))"
  let ?v = "wfiles (put_node (temp_path ?f) (Regular ?t) ?f) w"
  define rest where "rest = and_then (copy_step temp_file (max_ids_file p)) (\<lambda>r.
         case r of
           Inl e \<Rightarrow> Ret (Inl e)
         | Inr _ \<Rightarrow> and_then (remove_step temp_file) (\<lambda>r.
             case r of
               Inl e \<Rightarrow> Ret (Inl e)
             | Inr _ \<Rightarrow> and_then unlock_step (\<lambda>_. Ret (Inr True))))"
  have "fst (run rest u) = Inl Filesystem_error" if "open_read (files u) temp_file = None" for u
    using that by (simp add: rest_def file_steps copy_file_def)
  then have last: "pauses rest ?v ?v" unfolding pauses_def by blast
  have r1: "run (read_step (max_ids_file p)) w = (Some (Regular (max_text D ?f)), w)"
    by (simp add: file_steps rd)
  have r2: "run (write_step temp_file ?t) w = (True, ?v)" by (simp add: file_steps wr)
  have "pauses (replace_ids_steps p v) w ?v"
    unfolding replace_ids_steps_def rest_def [symmetric]
    by (rule pauses_after [OF r1], simp only: option.case fnode.case node_text.simps p,
        rule pauses_after [OF r2]) (use last in simp)
  then show ?thesis by blast
qed

text \<open>
  The state in which the POST of an entity \<open>n\<close> that exists pauses: its files are those before it
  but for the temporary file, as far as the store and the next identifier go.
\<close>

definition paused_at :: "string \<Rightarrow> path \<Rightarrow> world \<Rightarrow> world \<Rightarrow> bool" where
  "paused_at dp D w v \<longleftrightarrow>
     store_inv dp D (files v) \<and> abs_store D (files v) = abs_store D (files w) \<and> interp v = interp w"

lemma paused_atI:
  "store_inv dp D (files u) \<Longrightarrow> abs_store D (files u) = abs_store D (files w) \<Longrightarrow> interp u = interp w \<Longrightarrow>
   paused_at dp D u v \<Longrightarrow> paused_at dp D w v"
  by (simp add: paused_at_def)

lemma writeEntityId_pauses:
  assumes inv: "store_inv dp D (files w)" and m: "\<not> entity_mutex w" and n: "entity_ok n"
    and p: "data_path p = dp" "entity_name p = n" and e: "abs_store D (files w) n = Some e"
  shows "\<exists>u. pauses (writeEntityId_steps p v) w u \<and> paused_at dp D w u"
proof -
  note env = store_inv_env [OF inv]
  let ?w = "wlock True w"
  have ex: "exists_path (files w) (entity_dir p)"
    using store_exists_entity [OF env n] abs_store_Some(2) [OF inv e] p by (simp add: entity_dir_def is_dir_def)
  have "\<exists>t. pauses (replace_ids_steps p v) ?w (wfiles (put_node (temp_path (files w)) (Regular t) (files w)) ?w)"
    using replace_pauses [of dp D ?w n p e v] assms by simp
  then obtain t where t: "pauses (replace_ids_steps p v) ?w (wfiles (put_node (temp_path (files w)) (Regular t) (files w)) ?w)"
    by blast
  have r1: "run lock_step w = (True, ?w)" using m by (simp add: file_steps)
  have r2: "run (ensure_directory_steps ERROR (data_path p)) ?w = ((), ?w)"
    using store_exists_dir [OF env] p by (simp add: ensure_directory_def)
  have r3: "run (exists_step (entity_dir p)) ?w = (True, ?w)" using ex by (simp add: file_steps)
  have "pauses (writeEntityId_steps p v) w (wfiles (put_node (temp_path (files w)) (Regular t) (files w)) ?w)"
    unfolding writeEntityId_steps_def
    by (rule pauses_after [OF r1], simp, rule pauses_after [OF r2], rule pauses_after [OF r3]) (simp add: t)
  then show ?thesis
    using store_inv_temp [OF inv, of t] by (auto simp: paused_at_def)
qed

lemma record_id_pauses:
  assumes inv: "store_inv dp D (files w)" and m: "\<not> entity_mutex w" and n: "entity_ok n"
    and p: "data_path p = dp" "entity_name p = n" "entity_id p = next_id n (abs_store D (files w))"
    and e: "abs_store D (files w) n = Some e"
  shows "\<exists>u. pauses (record_id_steps p) w u \<and> paused_at dp D w u"
proof -
  let ?S = "abs_store D (files w)"
  obtain w1 where g: "generateEntityId p w = (Inr (next_id n ?S), w1)"
    and same: "same_but_logs (wfiles (files w1) w) w1"
    and w1: "store_inv dp D (files w1)" "abs_store D (files w1) = ?S"
    using generate_refines [OF inv m n p(1,2)] by blast
  have m1: "\<not> entity_mutex w1" and i1: "interp w1 = interp w" using same m by (simp_all add: same_but_logs_def)
  have k: "stoull (next_id n ?S) = Inr (next_number n ?S)" by (rule next_id_next_number)
  have ne: "next_id n ?S \<noteq> []" using next_id_plain [of n ?S] by (simp add: plain_name_def)
  obtain u where u: "pauses (writeEntityId_steps p (next_number n ?S)) w1 u" "paused_at dp D w1 u"
    using writeEntityId_pauses [OF w1(1) m1 n p(1,2), of e] w1(2) e by auto
  have r: "run (generateEntityId_steps p) w = (Inr (next_id n ?S), w1)" using g by simp
  have "pauses (record_id_steps p) w u"
    unfolding record_id_steps_def p(3) k
    by (simp add: ne, rule pauses_after [OF r], simp add: k, rule pauses_inside [OF u(1)]) simp
  with paused_atI [OF w1 i1 u(2)] show ?thesis by blast
qed

lemma writeObject_pauses:
  assumes inv: "store_inv dp D (files w)" and m: "\<not> entity_mutex w" and n: "entity_ok n"
    and p: "data_path p = dp" "entity_name p = n" "entity_id p = next_id n (abs_store D (files w))"
    and e: "abs_store D (files w) n = Some e"
  shows "\<exists>u. pauses (writeObject_steps p json) w u \<and> paused_at dp D w u"
proof -
  note env = store_inv_env [OF inv]
  let ?w = "wlog INFO (''creating Entity '' @ entity_name p @ '' at path '' @ object_file p) w"
  have "exists_path (files w) (entity_dir p)"
    using store_exists_entity [OF env n] abs_store_Some(2) [OF inv e] p by (simp add: entity_dir_def is_dir_def)
  then have r1: "run (new_entity_steps p) w = (Inr (), w)" by (simp add: new_entity_def)
  have r2: "run (log_entry INFO (''creating Entity '' @ entity_name p @ '' at path '' @ object_file p)) w = ((), ?w)"
    by (simp add: file_steps)
  obtain u where u: "pauses (record_id_steps p) ?w u" "paused_at dp D ?w u"
    using record_id_pauses [of dp D ?w n p e] assms by auto
  have "pauses (writeObject_steps p json) w u"
    unfolding writeObject_steps_def
    by (rule pauses_after [OF r1], simp only: sum.case, rule pauses_after [OF r2], rule pauses_inside [OF u(1)]) simp
  moreover have "paused_at dp D w u" using u(2) by (simp add: paused_at_def)
  ultimately show ?thesis by blast
qed

lemma handle_post_pauses:
  assumes inv: "store_inv dp D (files w)" and m: "\<not> entity_mutex w" and n: "entity_ok n"
    and e: "abs_store D (files w) n = Some e"
  shows "\<exists>u. pauses (handle_post_steps \<lparr>data_path = dp, entity_name = n, entity_id = []\<rparr> req) w u \<and> paused_at dp D w u"
proof -
  let ?S = "abs_store D (files w)" and ?p = "\<lparr>data_path = dp, entity_name = n, entity_id = []\<rparr>"
  obtain w1 where g: "generateEntityId ?p w = (Inr (next_id n ?S), w1)"
    and same: "same_but_logs (wfiles (files w1) w) w1"
    and w1: "store_inv dp D (files w1)" "abs_store D (files w1) = ?S"
    using generate_refines [OF inv m n, of ?p] by auto
  have m1: "\<not> entity_mutex w1" and i1: "interp w1 = interp w" using same m by (simp_all add: same_but_logs_def)
  let ?w2 = "wlog INFO (''POST request body: '' @ body req) w1"
  let ?p2 = "\<lparr>data_path = dp, entity_name = n, entity_id = next_id n ?S\<rparr>"
  obtain u where u: "pauses (writeObject_steps ?p2 (body req)) ?w2 u" "paused_at dp D ?w2 u"
    using writeObject_pauses [of dp D ?w2 n ?p2 e] w1 m1 n e by auto
  have r1: "run (generateEntityId_steps ?p) w = (Inr (next_id n ?S), w1)" using g by simp
  have r2: "run (log_entry INFO (''POST request body: '' @ body req)) w1 = ((), ?w2)" by (simp add: file_steps)
  have "pauses (handle_post_steps ?p req) w u"
    unfolding handle_post_steps_def
    by (simp, rule pauses_after [OF r1], simp only: sum.case next_id_next_number, rule pauses_after [OF r2])
      (rule pauses_inside, use u(1) in \<open>simp_all add: next_id_to_string\<close>)
  moreover have "paused_at dp D w u" using u(2) paused_atI [OF w1 i1, of u] by (simp add: paused_at_def)
  ultimately show ?thesis by blast
qed

text \<open>A well-formed POST in the dispatcher.\<close>

lemma get_CrudHandler:
  "GetRequestHandler CRUD (server_registry svc) w =
     (Some (CrudHandler \<lparr>object_manager = CrudFileManager, max_unused_entity_id = 1\<rparr>), wlock False w)"
proof -
  have ok: "map_ok (RegisterRequestHandler t c m)" if "map_ok m" for t c m
    using that by (simp add: RegisterRequestHandler_def smap.mok_set)
  have get: "map_of (RegisterRequestHandler t c m) = (map_of m)(t \<mapsto> c)" if "map_ok m" for t c m
    using that by (simp add: RegisterRequestHandler_def smap.mget_set)
  show ?thesis unfolding GetRequestHandler_def server_registry_def by (simp add: ok get factories)
qed

lemma dispatch_post_pauses:
  assumes inv: "store_inv dp D (files w)" and n: "entity_ok n" and e: "abs_store D (files w) n = Some e"
    and paths: "paths_ok (getServerPaths (interp w))"
    and asks: "asks (getServerPaths (interp w)) l (Create_op n t) req"
    and dp: "map_at (crud_paths (getServerPaths (interp w))) l = dp"
  shows "\<exists>u. pauses (dispatch_request_steps (server_registry svc) reason p req) w u \<and> paused_at dp D w u"
proof -
  let ?reg = "server_registry svc" and ?p = "\<lparr>data_path = dp, entity_name = n, entity_id = []\<rparr>"
  have ty: "fst (getRequestType req w) = Inr CRUD"
    using getRequestType_routed [OF paths, of req "l @ op_suffix (Create_op n t)" l CRUD] asks
    by (simp add: asks_def served_type_def)
  define w1 where "w1 = snd (getRequestType req w)"
  have r1: "run (step (getRequestType req)) w = (Inr CRUD, w1)" and s1: "same_but_logs w w1"
    using ty getRequestType_same [of w req] by (simp_all add: w1_def prod_eq_iff)
  let ?w2 = "log_request p req w1"
  let ?w3 = "wlock False ?w2"
  have s2: "same_but_logs w ?w2" using s1 by simp
  have r2: "run (step (\<lambda>w. ((), log_request p req w))) w1 = ((), ?w2)" by simp
  have r3: "run (step (GetRequestHandler CRUD ?reg)) ?w2 =
      (Some (CrudHandler \<lparr>object_manager = CrudFileManager, max_unused_entity_id = 1\<rparr>), ?w3)"
    by (simp add: get_CrudHandler)
  have i3: "interp ?w3 = interp w" "files ?w3 = files w" using s2 by (simp_all add: same_but_logs_def)
  have plain: "plain_name n" using n by (rule entity_plain)
  have path: "fst (getCrudEntityPath req ?w3) = Inr ?p"
    using asks_path [of ?w3 l "Create_op n t" req] paths asks dp plain unfolding i3 by simp
  let ?w4 = "snd (getCrudEntityPath req ?w3)"
  have s4: "same_but_logs ?w3 ?w4" by (rule getCrudEntityPath_same)
  have r4: "run (step (getCrudEntityPath req)) ?w3 = (Inr ?p, ?w4)" using path by (simp add: prod_eq_iff)
  have w4: "files ?w4 = files w" "interp ?w4 = interp w" "\<not> entity_mutex ?w4"
    using s4 i3 by (simp_all add: same_but_logs_def)
  obtain u where u: "pauses (handle_post_steps ?p req) ?w4 u" "paused_at dp D ?w4 u"
    using handle_post_pauses [of dp D ?w4 n e req] inv n e w4 by auto
  have m: "req_method req = Post" using asks by (simp add: asks_def)
  have t: "target req \<noteq> []" using asks_target [OF asks] .
  have "crud_method_steps ?p req = handle_post_steps ?p req"
    using m plain_not_empty [OF plain] by (simp add: crud_method_steps_def)
  then have "pauses (crud_handle_request_steps req) ?w3 u"
    unfolding crud_handle_request_steps_def by (intro pauses_after [OF r4]) (simp add: u(1))
  then have "pauses (answer_request_steps ?reg CRUD req) ?w2 u"
    unfolding answer_request_steps_def using t m
    by (simp, intro pauses_after [OF r3]) simp
  then have "pauses (dispatch_request_steps ?reg reason p req) w u"
    unfolding dispatch_request_steps_def
    by (rule_tac pauses_after [OF r1], simp only: sum.case)
      (rule pauses_after [OF r2], rule pauses_inside, assumption, simp)
  moreover have "paused_at dp D w u" using u(2) w4 by (simp add: paused_at_def)
  ultimately show ?thesis by blast
qed

subsection \<open>A POST removes the temporary file\<close>

lemma less_successor: "c \<noteq> - 1 \<Longrightarrow> c < c + 1" for c :: "64 word"
  using unatSuc [of c] by (metis add.commute add_eq_0_iff lessI word_less_nat_alt)

lemma post_removes_temp:
  assumes inv: "store_inv dp D (files w)" and ok: "op_ok (Create_op n t) (abs_store D (files w))"
    and e: "abs_store D (files w) n = Some e"
    and paths: "paths_ok (getServerPaths (interp w))"
    and asks: "asks (getServerPaths (interp w)) l (Create_op n t) req"
    and dp: "map_at (crud_paths (getServerPaths (interp w))) l = dp"
  shows "open_read (files (snd (crud_handler req w))) temp_file = None"
proof -
  let ?p = "\<lparr>data_path = dp, entity_name = n, entity_id = []\<rparr>" and ?S = "abs_store D (files w)"
  let ?p2 = "\<lparr>data_path = dp, entity_name = n, entity_id = next_id n ?S\<rparr>"
  have n: "entity_ok n" and k: "next_number n ?S \<noteq> - 1" using ok by simp_all
  have plain: "plain_name n" using n by (rule entity_plain)
  have "fst (getCrudEntityPath req (wlock False w)) = Inr ?p"
    using asks_path [of "wlock False w" l "Create_op n t" req] paths asks dp plain by simp
  then obtain w1 where path: "getCrudEntityPath req (wlock False w) = (Inr ?p, w1)"
    by (metis prod.collapse)
  have w1: "files w1 = files w" "\<not> entity_mutex w1"
    using getCrudEntityPath_same [of "wlock False w" req] path by (simp_all add: same_but_logs_def)
  obtain w2 where g: "generateEntityId ?p w1 = (Inr (next_id n ?S), w2)"
    and same: "same_but_logs (wfiles (files w2) w1) w2"
    and w2: "store_inv dp D (files w2)" "abs_store D (files w2) = ?S"
    using generate_refines [of dp D w1 n ?p] inv n w1 by auto
  have m2: "\<not> entity_mutex w2" using same w1 by (simp add: same_but_logs_def)
  let ?w3 = "wlog INFO (''POST request body: '' @ body req) w2"
  obtain w4 where wr: "writeObject ?p2 (body req) ?w3 = (Inr True, w4)"
    and wrote: "wrote dp D n (next_id n ?S) (next_number n ?S) (body req) (files ?w3) (files w4)"
    using writeObject_wrote [of dp D ?w3 n ?p2 "next_id n ?S" "next_number n ?S" "body req"]
      w2 m2 n next_id_plain [of n ?S] next_id_next_number [of n ?S] by auto
  have "counter e \<noteq> - 1" using abs_store_Some(4) [OF inv e] .
  then have "counter_or_1 n ?S < next_number n ?S"
    using e by (simp add: counter_or_1_def next_number_def less_successor)
  then have gone: "node (files w4) (temp_path (files w4)) = None" and env: "store_env dp D (files w4)"
    using wrote w2 by (auto simp: wrote_def)
  have "locate (files w4) temp_file = Some (temp_path (files w4))"
    using locate_temp [OF env] by (simp add: temp_file_def)
  then have "open_read (files w4) temp_file = None" using gone by (simp add: open_read_def)
  moreover have "snd (crud_handler req w) = w4"
    using path g wr asks plain_not_empty [OF plain]
    by (simp add: crud_handler_def crud_handle_request_def asks_def handle_post_def CrudFileManager_def
        next_id_next_number next_id_to_string)
  ultimately show ?thesis by simp
qed

text \<open>The same through the dispatcher.\<close>

lemma dispatch_post_cleans:
  assumes inv: "store_inv dp D (files w)" and ok: "op_ok (Create_op n t) (abs_store D (files w))"
    and e: "abs_store D (files w) n = Some e"
    and paths: "paths_ok (getServerPaths (interp w))"
    and asks: "asks (getServerPaths (interp w)) l (Create_op n t) req"
    and dp: "map_at (crud_paths (getServerPaths (interp w))) l = dp"
  shows "\<exists>r v. dispatch_request (server_registry svc) reason p req w = (Inr r, v)
    \<and> open_read (files v) temp_file = None"
proof -
  have ty: "fst (getRequestType req w) = Inr CRUD"
    using getRequestType_routed [OF paths, of req "l @ op_suffix (Create_op n t)" l CRUD] asks
    by (simp add: asks_def served_type_def)
  have m: "req_method req \<noteq> Unknown_verb" using asks by (simp add: asks_def)
  have h: "registered_handler CRUD (server_registry svc) = Some crud_handler"
    by (simp add: server_registry_lookup)
  obtain w3 where w3: "same_but_logs w w3" and d: "dispatch_request (server_registry svc) reason p req w =
      (case crud_handler req w3 of
         (Inl e, w4) \<Rightarrow> (Inl e, w4)
       | (Inr r, w4) \<Rightarrow> (Inr r, wlog INFO (metrics_line reason p req r CRUD) w4))"
    by (rule dispatch_handler [OF ty asks_target [OF asks] m h])
  have same: "files w3 = files w" "interp w3 = interp w" using w3 by (simp_all add: same_but_logs_def)
  have gone: "open_read (files (snd (crud_handler req w3))) temp_file = None"
    using post_removes_temp [of dp D w3 n t e l req] assms by (simp add: same)
  obtain r w4 where "crud_handler req w3 = (Inr r, w4)"
    using crud_handler_refines [of dp D w3 "Create_op n t" l req] assms by (auto simp: same)
  with d gone show ?thesis by simp
qed

subsection \<open>The two threads\<close>

text \<open>The own steps of one task among others.\<close>

definition task_at :: "task list \<Rightarrow> nat \<Rightarrow> response result prog \<Rightarrow> world \<Rightarrow> task list" where
  "task_at tks j p w = tks[j := (tks ! j)\<lparr>task_mutex := entity_mutex w, task_code := p\<rparr>]"

lemma task_own_steps:
  assumes "own_steps (p, w) (p', w')" and "j < length tks" and "crash s = None"
  shows "threaded_steps reg reason
    \<lparr>server = s\<lparr>server_world := w\<rparr>, tasks = task_at tks j p w\<rparr>
    \<lparr>server = s\<lparr>server_world := w'\<rparr>, tasks = task_at tks j p' w'\<rparr>"
  using assms(1)
proof (induction rule: rtranclp_induct2)
  case (step q v q' v')
  from step(2) obtain g k where q: "q = Act g k" "q' = k v" "v' = g v" by (auto simp: own_step.simps)
  let ?ts = "\<lparr>server = s\<lparr>server_world := v\<rparr>, tasks = task_at tks j q v\<rparr>"
  have "threaded_step reg reason ?ts (do_step j ?ts)"
    by (rule thread_step [where g = g and k = k]) (use assms(2,3) q in \<open>simp_all add: task_at_def\<close>)
  moreover have "do_step j ?ts = \<lparr>server = s\<lparr>server_world := v'\<rparr>, tasks = task_at tks j q' v'\<rparr>"
    using assms(2) q by (simp add: do_step_def task_at_def wlock_same)
  ultimately show ?case using step(3) by (simp add: rtranclp.rtrancl_into_rtrancl)
qed simp

lemma free_two: "serving s \<Longrightarrow> 2 \<le> threadpool s \<Longrightarrow> length tks \<le> 1 \<Longrightarrow>
    free_thread \<lparr>server = s, tasks = tks\<rparr>"
  by (simp add: free_thread_def)

text \<open>A read begins.\<close>

lemma begin_steps:
  assumes "free_thread \<lparr>server = s, tasks = tks\<rparr>" and "outstanding Reading i s"
  shows "\<exists>s'. threaded_step reg reason \<lparr>server = s, tasks = tks\<rparr>
      \<lparr>server = s'\<lparr>server_world := server_world s\<rparr>,
       tasks = tks @ [\<lparr>task_connection = i, task_mutex = entity_mutex (server_world s),
         task_code = dispatch_request_steps reg reason p req\<rparr>]\<rparr>
    \<and> serving s' \<and> threadpool s' = threadpool s
    \<and> length (connections s') = length (connections s)
    \<and> (\<forall>k. k \<noteq> i \<longrightarrow> connections s' ! k = connections s ! k)"
  using thread_begin [OF assms(1), of i reg reason req False p] assms
  by (intro exI [of _ "s\<lparr>connections := (connections s)[i := (connections s ! i)\<lparr>pending_op := Idle,
      session_request := req, reads := reads (connections s ! i) @ [req]\<rparr>]\<rparr>"])
    (auto simp: begin_read_def free_thread_def serving_def Let_def)

text \<open>A task runs to its end, in the world as it finds it.\<close>

lemma task_finishes:
  assumes j: "j < length tks" and ok: "crash s = None"
  shows "\<exists>x m. threaded_steps reg reason \<lparr>server = s, tasks = tks\<rparr>
    \<lparr>server = s\<lparr>server_world := x\<rparr>, tasks = tks[j := (tks ! j)\<lparr>task_mutex := m,
       task_code := Ret (fst (run (task_code (tks ! j)) (wlock (task_mutex (tks ! j)) (server_world s))))\<rparr>]\<rparr>"
proof (cases "task_code (tks ! j)")
  case (Ret a)
  have "tks[j := (tks ! j)\<lparr>task_code := Ret a\<rparr>] = tks" using Ret by (cases "tks ! j") (simp add: list_update_same_conv j)
  with Ret show ?thesis by (intro exI [of _ "server_world s"] exI [of _ "task_mutex (tks ! j)"]) simp
next
  case (Act g k)
  let ?ts = "\<lparr>server = s, tasks = tks\<rparr>" and ?w = "wlock (task_mutex (tks ! j)) (server_world s)"
  have "threaded_step reg reason ?ts (do_step j ?ts)"
    by (rule thread_step [where g = g and k = k]) (use assms Act in simp_all)
  moreover have "do_step j ?ts = \<lparr>server = s\<lparr>server_world := g ?w\<rparr>, tasks = task_at tks j (k ?w) (g ?w)\<rparr>"
    using j Act by (simp add: do_step_def task_at_def Let_def)
  ultimately show ?thesis
    using task_own_steps [OF own_steps_run [of "k ?w" "g ?w"] j ok, of reg reason] Act
    by (auto simp: task_at_def intro!: converse_rtranclp_into_rtranclp)
qed

lemma task_at_new [simp]:
  "tks @ [\<lparr>task_connection = i, task_mutex = entity_mutex w, task_code = p\<rparr>] =
     task_at (tks @ [\<lparr>task_connection = i, task_mutex = entity_mutex w, task_code = p\<rparr>]) (length tks) p w"
  by (simp add: task_at_def)

text \<open>
  C8: Two POSTs can end the server. From any state in which two connections wait for a request
  and two threads are free, if both get a POST of the same entity, which exists, the threads can run
  so that the process ends with the exception of \<open>copy_file\<close>.
\<close>

theorem two_posts_end_server:
  assumes s: "serving s" "2 \<le> threadpool s" "outstanding Reading i s" "outstanding Reading j s" "i \<noteq> j"
    and inv: "store_inv dp D (files (server_world s))" and e: "abs_store D (files (server_world s)) n = Some e"
    and ok: "op_ok (Create_op n t2) (abs_store D (files (server_world s)))"
    and paths: "paths_ok (getServerPaths (interp (server_world s)))"
    and asks: "asks (getServerPaths (interp (server_world s))) l (Create_op n t1) req1"
      "asks (getServerPaths (interp (server_world s))) l (Create_op n t2) req2"
    and dp: "map_at (crud_paths (getServerPaths (interp (server_world s)))) l = dp"
  shows "\<exists>ts. threaded_steps (server_registry svc) reason (single s) ts
    \<and> crash (server ts) = Some Filesystem_error"
proof -
  let ?reg = "server_registry svc" and ?w = "server_world s"
  let ?p1 = "dispatch_request_steps ?reg reason sample_peer req1"
  let ?p2 = "dispatch_request_steps ?reg reason sample_peer req2"
  have n: "entity_ok n" using ok by simp
  obtain u rest where rest: "own_steps (?p1, ?w) (rest, u)"
      "\<And>v. open_read (files v) temp_file = None \<Longrightarrow> fst (run rest v) = Inl Filesystem_error"
    and u: "store_inv dp D (files u)" "abs_store D (files u) = abs_store D (files ?w)" "interp u = interp ?w"
    using dispatch_post_pauses [OF inv n e paths asks(1) dp, of svc reason sample_peer]
    by (auto simp: pauses_def paused_at_def)
  let ?T1 = "\<lparr>task_connection = i, task_mutex = entity_mutex ?w, task_code = ?p1\<rparr>"
  let ?T1' = "\<lparr>task_connection = i, task_mutex = entity_mutex u, task_code = rest\<rparr>"
  let ?T2 = "\<lparr>task_connection = j, task_mutex = entity_mutex u, task_code = ?p2\<rparr>"
  obtain s1 where begin1: "threaded_step ?reg reason (single s) \<lparr>server = s1\<lparr>server_world := ?w\<rparr>, tasks = [?T1]\<rparr>"
    and s1: "serving s1" "threadpool s1 = threadpool s" "outstanding Reading j s1"
    using begin_steps [OF free_two [OF s(1,2)] s(3), of "[]" ?reg reason sample_peer req1] s(4,5)
    by (auto simp: single_def simp del: task_at_new)
  have ok1: "crash s1 = None" using s1(1) by (simp add: serving_def)
  have run1: "threaded_steps ?reg reason \<lparr>server = s1\<lparr>server_world := ?w\<rparr>, tasks = [?T1]\<rparr>
      \<lparr>server = s1\<lparr>server_world := u\<rparr>, tasks = [?T1']\<rparr>"
    using task_own_steps [OF rest(1), of 0 "[?T1]" s1] ok1 by (simp add: task_at_def)
  have ready: "serving (s1\<lparr>server_world := u\<rparr>)" "2 \<le> threadpool (s1\<lparr>server_world := u\<rparr>)"
      "outstanding Reading j (s1\<lparr>server_world := u\<rparr>)"
    using s1 s(2) by (simp_all add: serving_def)
  obtain s2 where begin2: "threaded_step ?reg reason \<lparr>server = s1\<lparr>server_world := u\<rparr>, tasks = [?T1']\<rparr>
      \<lparr>server = s2\<lparr>server_world := u\<rparr>, tasks = [?T1', ?T2]\<rparr>" and s2: "serving s2"
    using begin_steps [OF free_two [OF ready(1,2)] ready(3), of "[?T1']" ?reg reason sample_peer req2]
    by (auto simp del: task_at_new)
  have ok2: "crash s2 = None" using s2 by (simp add: serving_def)
  obtain r v where d: "dispatch_request ?reg reason sample_peer req2 u = (Inr r, v)"
    and v: "open_read (files v) temp_file = None"
    using dispatch_post_cleans [of dp D u n t2 e l req2 svc reason sample_peer] u ok e paths asks(2) dp by auto
  have run2: "threaded_steps ?reg reason \<lparr>server = s2\<lparr>server_world := u\<rparr>, tasks = [?T1', ?T2]\<rparr>
      \<lparr>server = s2\<lparr>server_world := v\<rparr>, tasks = [?T1', ?T2\<lparr>task_mutex := entity_mutex v, task_code := Ret (Inr r)\<rparr>]\<rparr>"
    using task_own_steps [OF own_steps_run [of ?p2 u], of 1 "[?T1', ?T2]" s2 ?reg reason] ok2 d
    by (simp add: task_at_def dispatch_steps_run)
  let ?ts2 = "\<lparr>server = s2\<lparr>server_world := v\<rparr>, tasks = [?T1', ?T2\<lparr>task_mutex := entity_mutex v, task_code := Ret (Inr r)\<rparr>]\<rparr>"
  have end2: "threaded_step ?reg reason ?ts2 (end_read 1 (Inr r) ?ts2)"
    by (rule thread_end) (simp_all add: ok2)
  obtain s3 where s3: "end_read 1 (Inr r) ?ts2 = \<lparr>server = s3, tasks = [?T1']\<rparr>" "server_world s3 = v" "crash s3 = None"
    using ok2 by (simp add: end_read_def without_def Let_def)
  have err: "fst (run rest (wlock (entity_mutex u) v)) = Inl Filesystem_error" using rest(2) v by simp
  obtain x m where run3: "threaded_steps ?reg reason \<lparr>server = s3, tasks = [?T1']\<rparr>
      \<lparr>server = s3\<lparr>server_world := x\<rparr>, tasks = [?T1'\<lparr>task_mutex := m, task_code := Ret (Inl Filesystem_error)\<rparr>]\<rparr>"
    using task_finishes [of 0 "[?T1']" s3 ?reg reason] s3 err by auto
  let ?ts3 = "\<lparr>server = s3\<lparr>server_world := x\<rparr>, tasks = [?T1'\<lparr>task_mutex := m, task_code := Ret (Inl Filesystem_error)\<rparr>]\<rparr>"
  have end3: "threaded_step ?reg reason ?ts3 (end_read 0 (Inl Filesystem_error) ?ts3)"
    by (rule thread_end) (simp_all add: s3(3))
  have "threaded_steps ?reg reason (single s) (end_read 0 (Inl Filesystem_error) ?ts3)"
    using begin1 run1 begin2 run2 end2 [unfolded s3(1)] run3 end3
    by (meson converse_rtranclp_into_rtranclp r_into_rtranclp rtranclp_trans)
  moreover have "crash (server (end_read 0 (Inl Filesystem_error) ?ts3)) = Some Filesystem_error"
    by (simp add: end_read_def Let_def)
  ultimately show ?thesis by blast
qed

text \<open>A server with two connections that wait.\<close>

definition sample_two :: "world \<Rightarrow> server_state" where
  "sample_two w = handle_accept new_connection None ((sample_accepted w)\<lparr>pending_accept := None\<rparr>)"

lemma sample_two_state:
  "serving (sample_two w)" "threadpool (sample_two w) = 2"
  "outstanding Reading 0 (sample_two w)" "outstanding Reading 1 (sample_two w)"
  "files (server_world (sample_two w)) = files w" "interp (server_world (sample_two w)) = interp w"
  using sample_accepted_state [of w]
  by (simp_all add: sample_two_def serving_def nth_append)
    (simp add: sample_accepted_def run_threads_def make_threads_eq sample_server_def start_accept_def)

theorem two_posts_end_server_witness:
  "\<exists>ts. threaded_steps (server_registry echo_services) (\<lambda>_. []) (single (sample_two crud_world1)) ts
    \<and> crash (server ts) = Some Filesystem_error"
proof (rule two_posts_end_server)
  show "serving (sample_two crud_world1)" "2 \<le> threadpool (sample_two crud_world1)"
    "outstanding Reading 0 (sample_two crud_world1)" "outstanding Reading 1 (sample_two crud_world1)"
    using sample_two_state [of crud_world1] by simp_all
  show "store_inv ''crud'' [''crud''] (files (server_world (sample_two crud_world1)))"
    "abs_store [''crud''] (files (server_world (sample_two crud_world1))) ''Shoes'' =
      Some \<lparr>counter = 1, objects = [''1'' \<mapsto> ''red'']\<rparr>"
    "op_ok (Create_op ''Shoes'' ''blue'') (abs_store [''crud''] (files (server_world (sample_two crud_world1))))"
    using crud_world1_store by (simp_all add: sample_two_state entity_ok_Shoes next_number_def)
  show "paths_ok (getServerPaths (interp (server_world (sample_two crud_world1))))"
    "asks (getServerPaths (interp (server_world (sample_two crud_world1)))) ''/api''
      (Create_op ''Shoes'' ''red'') (crud_request Post ''/api/Shoes'' ''red'')"
    "asks (getServerPaths (interp (server_world (sample_two crud_world1)))) ''/api''
      (Create_op ''Shoes'' ''blue'') (crud_request Post ''/api//Shoes/'' ''blue'')"
    "map_at (crud_paths (getServerPaths (interp (server_world (sample_two crud_world1))))) ''/api'' = ''crud''"
    using crud_world1_store
    by (simp_all add: sample_two_state sample_paths_ok sample_paths_api sample_asks)
qed simp

end
