(* ===== verification/Server_Logging.thy ===== *)
theory Server_Logging
  imports Threaded_Order
begin

text \<open>
  The threads of the pool and the logging thread together: the running server is a client of the
  log system of theory \<open>Logging\<close>, so what is shown there holds of its log; and what happens after the
  signal.
\<close>

subsection \<open>Adding to the log\<close>

lemma pending_adds: "pending (fold (\<lambda>(sev, msg). lb_add sev msg) es b) = pending b @ es"
  by (induction es arbitrary: b) (auto simp: lb_add_def pending_add)

lemma log_adds:
  "log_step\<^sup>*\<^sup>* v (v\<lparr>lbuf := fold (\<lambda>(sev, msg). lb_add sev msg) es (lbuf v), added := added v @ es\<rparr>)"
proof (induction es arbitrary: v)
  case (Cons e es)
  obtain sev msg where e: "e = (sev, msg)" by (cases e)
  let ?v = "v\<lparr>lbuf := snd (addToBuffer sev msg (lbuf v)), added := added v @ [(sev, msg)]\<rparr>"
  have "log_step v ?v" by (rule log_add)
  with Cons [of ?v] show ?case
    by (simp add: e lb_add_def converse_rtranclp_into_rtranclp)
qed simp

lemma log_view_adds:
  assumes "keeps (server_world s) (server_world s')" and "logging_thread s' = logging_thread s"
    and "written s' = written s" and "program_terminated s' = program_terminated s"
  shows "log_step\<^sup>*\<^sup>* (log_view s) (log_view s')"
proof -
  obtain es where es: "logs (server_world s') = fold (\<lambda>(sev, msg). lb_add sev msg) es (logs (server_world s))"
    using assms(1) by (auto simp: keeps_def)
  have "log_view s' = (log_view s)\<lparr>lbuf := fold (\<lambda>(sev, msg). lb_add sev msg) es (lbuf (log_view s)),
      added := added (log_view s) @ es\<rparr>"
    using assms(2-4) by (simp add: log_view_def es pending_adds)
  then show ?thesis using log_adds by metis
qed

text \<open>A step of the logging thread is a step of the log system.\<close>

lemma handle_logging_view: "log_inv (log_view s) \<Longrightarrow> log_view (handle_logging s) = logger_step (log_view s)"
proof -
  assume "log_inv (log_view s)"
  then have "log_inv (logger_step (log_view s))" by (rule log_inv_logger)
  then have "logged (logger_step (log_view s)) @ pending (lbuf (logger_step (log_view s))) =
      added (logger_step (log_view s))"
    by (simp add: log_inv_def)
  moreover have "program_terminated s = terminated (log_view s)" by (simp add: log_view_def)
  ultimately show ?thesis
    unfolding log_view_def [of "handle_logging s"] by (simp del: logger_step_added)
qed

subsection \<open>Every step of the server is a run of the log system\<close>

lemma kill_server_view:
  "log_step\<^sup>*\<^sup>* (log_view s) (log_view (kill_server s))"
proof -
  let ?v = "log_view (slog INFO ''Recieved interupt signal. Terminating'' s)"
  have "log_step\<^sup>*\<^sup>* (log_view s) ?v" by (rule log_view_adds) (simp_all add: slog_def keeps_wlog_self)
  moreover have "log_step ?v (?v\<lparr>terminated := True\<rparr>)" by (rule log_kill)
  moreover have "log_view (kill_server s) = ?v\<lparr>terminated := True\<rparr>"
    by (simp add: log_view_def kill_server_def)
  ultimately show ?thesis by simp
qed

lemma threaded_step_log:
  assumes "threaded_step reg reason ts ts'" and "kept I tidy S w0 ts" and "log_inv (log_view (server ts))"
    and "\<And>w b. I w \<Longrightarrow> I (wlock b w)"
  shows "log_step\<^sup>*\<^sup>* (log_view (server ts)) (log_view (server ts'))"
  using assms(1-3)
proof (induction rule: threaded_step.induct)
  case (thread_begin ts i req err p)
  show ?case by (rule log_view_adds) (simp_all add: begin_read_def Let_def)
next
  case (thread_step ts j g k)
  let ?w = "wlock (task_mutex (tasks ts ! j)) (server_world (server ts))"
  have "each_step I tidy (Act g k)" and "I ?w"
    using thread_step nth_mem [of j "tasks ts"] assms(4) unfolding kept_def by metis+
  then have "keeps (server_world (server ts)) (g ?w)" by (auto simp: tidy_def)
  then show ?case using thread_step by (intro log_view_adds) (simp_all add: do_step_def Let_def)
next
  case (thread_end ts j answer)
  show ?case by (rule log_view_adds) (simp_all add: end_read_def Let_def split: sum.split)
next
  case (thread_write ts i err p)
  show ?case
    by (rule log_view_adds) (simp_all add: on_server_def write_completes_eq same_but_logs_keeps)
next
  case (thread_signal ts)
  show ?case by (simp add: on_server_def kill_server_view)
next
  case (thread_log ts)
  then have "log_step (log_view (server ts)) (logger_step (log_view (server ts)))"
    by (intro log_run) (simp add: log_view_def)
  then show ?case using thread_log by (simp add: on_server_def handle_logging_view)
qed (rule log_view_adds; simp add: on_server_def kill_server_ends_def run_join_def slog_def keeps_wlog_self)+

text \<open>The start of the server.\<close>

lemma log_reachable_inits: "log_reachable (log_view s) \<Longrightarrow> log_reachable (log_view (log_alone n s))"
proof (induction n arbitrary: s)
  case (Suc n)
  show ?case
  proof (cases "logging_thread s = Exited")
    case False
    have "log_reachable (log_view (handle_logging s))"
      using Suc.prems False log_inv_reachable [OF Suc.prems]
      by (simp add: handle_logging_view) (rule log_reachable_run, simp_all add: log_view_def)
    with False Suc.IH show ?thesis by simp
  qed (use Suc in simp)
qed simp

lemma started_log:
  assumes "new_server bind_ok stray pool_size port w = Inr s0" and "logs w = new_LoggingBuffer [] []"
  shows "log_reachable (log_view (run_threads (log_alone n s0)))"
proof -
  have "log_view s0 = init_log_system\<lparr>lbuf := snd (addToBuffer INFO (port_message stray port) (lbuf init_log_system)),
      added := added init_log_system @ [(INFO, port_message stray port)]\<rparr>"
    using assms by (auto simp: new_server_def start_accept_def log_view_def init_log_system_def wlog_def
        pending_add pending_def new_LoggingBuffer_def addToBuffer_def split: if_splits)
  then have "log_reachable (log_view s0)" by (simp only: log_reachable_add log_init)
  then have "log_reachable (log_view (log_alone n s0))" by (rule log_reachable_inits)
  moreover have "log_step\<^sup>*\<^sup>* (log_view (log_alone n s0)) (log_view (run_threads (log_alone n s0)))"
    by (rule log_view_adds) (simp_all add: run_threads_def make_threads_eq slog_def keeps_wlog_self)
  ultimately show ?thesis by (blast intro: log_steps_reachable)
qed

text \<open>The server and its log, from any state in which the invariants hold.\<close>

definition log_running :: "interpreter \<Rightarrow> world \<Rightarrow> threaded_server \<Rightarrow> bool" where
  "log_running cfg w0 ts \<longleftrightarrow> kept (under cfg) tidy tidy_files w0 ts \<and> log_reachable (log_view (server ts)) \<and>
     (program_terminated (server ts) \<longrightarrow> io_stopped (server ts))"

lemma log_running_step:
  assumes "threaded_step (server_registry svc) reason ts ts'" and "log_running cfg w0 ts"
  shows "log_running cfg w0 ts' \<and> log_step\<^sup>*\<^sup>* (log_view (server ts)) (log_view (server ts'))"
proof -
  have k: "kept (under cfg) tidy tidy_files w0 ts" and r: "log_reachable (log_view (server ts))"
    and f: "program_terminated (server ts) \<longrightarrow> io_stopped (server ts)"
    using assms(2) by (simp_all add: log_running_def)
  have "kept (under cfg) tidy tidy_files w0 ts'"
    by (rule tidiness.kept_step [OF assms(1) _ k]) (simp add: all_reads_def)
  moreover have run: "log_step\<^sup>*\<^sup>* (log_view (server ts)) (log_view (server ts'))"
    by (rule threaded_step_log [OF assms(1) k log_inv_reachable [OF r]]) (simp add: under_def)
  moreover have "program_terminated (server ts') \<longrightarrow> io_stopped (server ts')"
    using assms(1) f
    by (induction rule: threaded_step.induct)
      (auto simp: on_server_def begin_read_def do_step_def end_read_def write_completes_eq kill_server_def
        kill_server_ends_def run_join_def Let_def split: sum.split)
  ultimately show ?thesis using log_steps_reachable [OF run r] by (simp add: log_running_def)
qed

lemma log_running_steps:
  assumes "threaded_steps (server_registry svc) reason ts ts'" and "log_running cfg w0 ts"
  shows "log_running cfg w0 ts' \<and> log_step\<^sup>*\<^sup>* (log_view (server ts)) (log_view (server ts'))"
  using assms(1)
proof (induction rule: rtranclp_induct)
  case (step t u)
  then show ?case using log_running_step [OF step.hyps(2)] by (blast intro: rtranclp_trans)
qed (simp add: assms(2))

lemma log_running_reachable:
  assumes "new_server bind_ok stray pool_size port w = Inr s0" and "logs w = new_LoggingBuffer [] []"
    and "threaded_reachable (server_registry svc) reason s0 ts"
  shows "log_running (interp w) (server_world s0) ts"
proof -
  have s0: "under (interp w) (server_world s0)" "\<not> program_terminated s0"
    using assms(1) by (auto simp: under_def new_server_def start_accept_def split: if_splits)
  obtain n where steps: "threaded_steps (server_registry svc) reason (single (run_threads (log_alone n s0))) ts"
    using assms(3) unfolding threaded_reachable_def by blast
  have "log_running (interp w) (server_world s0) (single (run_threads (log_alone n s0)))"
    using tidiness.kept_start [OF s0(1)] started_log [OF assms(1,2)] s0(2)
    by (simp add: log_running_def single_def run_threads_def make_threads_eq)
  with log_running_steps [OF steps] show ?thesis by blast
qed

subsection \<open>After the signal\<close>

lemma log_alone_Suc: "log_alone (Suc n) s =
    (let t = log_alone n s in if logging_thread t = Exited then t else handle_logging t)"
  by (induction n arbitrary: s) (simp_all add: Let_def)

lemma log_alone_view: "log_reachable (log_view s) \<Longrightarrow> log_view (log_alone n s) = logger_run n (log_view s)"
proof (induction n arbitrary: s)
  case (Suc n)
  have pc: "pc (log_view s) = logging_thread s" by (simp add: log_view_def)
  show ?case
  proof (cases "logging_thread s = Exited")
    case True
    then have "logger_step (log_view s) = log_view s" by (simp add: logger_step_def pc)
    with True Suc show ?thesis by simp
  next
    case False
    then have "log_view (handle_logging s) = logger_step (log_view s)"
      using Suc.prems by (simp add: handle_logging_view log_inv_reachable)
    with False Suc log_reachable_run [OF Suc.prems] show ?thesis by (simp add: pc)
  qed
qed simp

lemma logger_run_add: "logger_run (a + b) v = logger_run b (logger_run a v)"
  by (induction a arbitrary: v) simp_all

lemma logger_run_exited: "pc v = Exited \<Longrightarrow> logger_run n v = v"
  by (induction n) (simp_all add: logger_step_def)

text \<open>A process that has ended does nothing more.\<close>

lemma crashed_no_step: "crash (server ts) = Some e \<Longrightarrow> \<not> threaded_step reg reason ts ts'"
  by (auto simp: threaded_step.simps free_thread_def serving_def)

text \<open>When the handlers are done and \<open>main\<close> waits, only the logging thread works.\<close>

lemma only_logging_thread:
  assumes "io_stopped (server ts)" and "killing (server ts)" and "joining (server ts)" and "tasks ts = []"
    and "crash (server ts) = None"
  shows "threaded_step reg reason ts ts' \<longleftrightarrow>
    ts' = (if logging_thread (server ts) = Exited then on_server (\<lambda>s. s\<lparr>crash := Some no_return\<rparr>) ts
           else on_server handle_logging ts)"
  using assms by (auto simp: threaded_step.simps free_thread_def serving_def kill_server_ends_def)

text \<open>The logging thread runs alone until it leaves its loop, and the process ends.\<close>

lemma logging_thread_alone:
  assumes s: "io_stopped s" "killing s" "joining s" "crash s = None"
    and n: "logging_thread (log_alone n s) = Exited" "\<And>k. k < n \<Longrightarrow> logging_thread (log_alone k s) \<noteq> Exited"
  shows "threaded_steps reg reason (single s) ts' \<longleftrightarrow>
    (\<exists>k \<le> n. ts' = single (log_alone k s)) \<or> ts' = single ((log_alone n s)\<lparr>crash := Some no_return\<rparr>)"
proof -
  have on: "on_server f (single t) = single (f t)" for f t by (simp add: on_server_def single_def)
  have alone: "threaded_step reg reason (single (log_alone k s)) ts \<longleftrightarrow>
      ts = (if k = n then single ((log_alone n s)\<lparr>crash := Some no_return\<rparr>) else single (log_alone (Suc k) s))"
    if "k \<le> n" for k ts
    using only_logging_thread [of "single (log_alone k s)" reg reason ts] s n that
    unfolding log_alone_Suc on by (auto simp: single_def Let_def)
  have runs: "threaded_steps reg reason (single s) (single (log_alone k s))" if "k \<le> n" for k
    using that
  proof (induction k)
    case (Suc k)
    then have "threaded_step reg reason (single (log_alone k s)) (single (log_alone (Suc k) s))"
      by (simp add: alone del: log_alone.simps)
    with Suc show ?case by (meson Suc_leD rtranclp.rtrancl_into_rtrancl)
  qed simp
  have last: "threaded_step reg reason (single (log_alone n s)) (single ((log_alone n s)\<lparr>crash := Some no_return\<rparr>))"
    by (simp add: alone)
  have "(\<exists>k \<le> n. ts' = single (log_alone k s)) \<or> ts' = single ((log_alone n s)\<lparr>crash := Some no_return\<rparr>)"
    if "threaded_steps reg reason (single s) ts'"
    using that
  proof (induction rule: rtranclp_induct)
    case base
    show ?case by (intro disjI1 exI [of _ 0]) simp
  next
    case (step t u)
    show ?case
    proof (cases "t = single ((log_alone n s)\<lparr>crash := Some no_return\<rparr>)")
      case True
      then have "crash (server t) = Some no_return" by (simp add: single_def)
      with crashed_no_step step.hyps(2) show ?thesis by blast
    next
      case False
      then obtain k where k: "k \<le> n" "t = single (log_alone k s)" using step.IH by blast
      with step.hyps(2) alone have "u = (if k = n then single ((log_alone n s)\<lparr>crash := Some no_return\<rparr>)
          else single (log_alone (Suc k) s))"
        by blast
      with k(1) show ?thesis by (metis Suc_leI le_neq_implies_less)
    qed
  qed
  then show ?thesis using runs last by (blast intro: rtranclp.rtrancl_into_rtrancl)
qed

text \<open>The state just after the signal, and the exit of the logging thread.\<close>

lemma signal_exits:
  assumes "log_running cfg w0 ts" and "serving (server ts)"
  shows "log_reachable (log_view (kill_server (server ts)))"
    and "\<exists>m \<le> log_measure (log_view (kill_server (server ts))).
      pc (logger_run m (log_view (kill_server (server ts)))) = Exited \<and>
      logged (logger_run m (log_view (kill_server (server ts)))) = added (log_view (kill_server (server ts)))"
proof -
  let ?s = "kill_server (server ts)"
  have "\<not> program_terminated (server ts)" using assms by (auto simp: log_running_def serving_def)
  then have "pc (log_view (server ts)) \<notin> {Read_buffer1, Read_buffer2, Exited}"
    using assms(1) running_pc [of "log_view (server ts)"] by (simp add: log_running_def log_view_def)
  then have pc: "terminated (log_view ?s)" "pc (log_view ?s) \<notin> {Read_buffer2, Exited}"
    by (simp_all add: log_view_def kill_server_def)
  show r: "log_reachable (log_view ?s)"
    using assms(1) log_steps_reachable [OF kill_server_view] by (simp add: log_running_def)
  show "\<exists>m \<le> log_measure (log_view ?s). pc (logger_run m (log_view ?s)) = Exited \<and>
      logged (logger_run m (log_view ?s)) = added (log_view ?s)"
    by (rule shutdown_flushes [OF r pc])
qed

lemma log_alone_exited:
  "log_reachable (log_view s) \<Longrightarrow> logging_thread (log_alone n s) = Exited \<longleftrightarrow> pc (logger_run n (log_view s)) = Exited"
  by (simp flip: log_alone_view) (simp add: log_view_def)

lemma log_alone_steps: "crash (server ts) = None \<Longrightarrow> threaded_steps reg reason ts (on_server (log_alone n) ts)"
proof (induction n)
  case 0
  show ?case by (simp add: on_server_def)
next
  case (Suc n)
  let ?u = "on_server (log_alone n) ts"
  show ?case
  proof (cases "logging_thread (log_alone n (server ts)) = Exited")
    case True
    then have "on_server (log_alone (Suc n)) ts = ?u"
      unfolding on_server_def log_alone_Suc by (simp add: Let_def)
    with Suc show ?thesis by (simp del: log_alone.simps)
  next
    case False
    then have "threaded_step reg reason ?u (on_server handle_logging ?u)"
      by (intro thread_log) (simp_all add: on_server_def Suc.prems)
    moreover have "on_server handle_logging ?u = on_server (log_alone (Suc n)) ts"
      using False unfolding on_server_def log_alone_Suc by (simp add: Let_def)
    ultimately show ?thesis using Suc by (simp add: rtranclp.rtrancl_into_rtrancl del: log_alone.simps)
  qed
qed

lemma pending_log_all: "pending (logs (log_all es w)) = pending (logs w) @ es"
  by (induction es arbitrary: w) (auto simp: log_all_def wlog_pending)

lemma getRequestType_logs: "pending (logs (snd (getRequestType req w))) \<noteq> []"
  by (simp add: getRequestType_def Let_def pending_log_all wlog_pending split: sum.split option.split)

subsection \<open>Properties\<close>

text \<open>
  C10: The log of the running server is the log system. In every state that the server reaches, its
  buffer, the logging thread and what has been written are a reachable state of the log system, and
  what it does from there is a run of it, whatever the threads of the pool do: what was written
  stays and what was added stays, in order.
\<close>

theorem server_log_refines:
  assumes "new_server bind_ok stray pool_size port w = Inr s0" and "logs w = new_LoggingBuffer [] []"
    and "threaded_reachable (server_registry svc) reason s0 ts"
    and "threaded_steps (server_registry svc) reason ts ts'"
  shows "log_reachable (log_view (server ts)) \<and> log_step\<^sup>*\<^sup>* (log_view (server ts)) (log_view (server ts'))
    \<and> prefix (written (server ts)) (written (server ts'))
    \<and> prefix (written (server ts) @ pending (logs (server_world (server ts))))
        (written (server ts') @ pending (logs (server_world (server ts'))))"
proof -
  have r: "log_running (interp w) (server_world s0) ts" by (rule log_running_reachable [OF assms(1-3)])
  from log_running_steps [OF assms(4) r] have run: "log_step\<^sup>*\<^sup>* (log_view (server ts)) (log_view (server ts'))"
    by blast
  with log_steps_grow [OF run] r show ?thesis by (simp add: log_running_def log_view_def)
qed

text \<open>The sample server.\<close>

lemma sample_world_logs: "logs sample_world = new_LoggingBuffer [] []"
  by (simp add: sample_world_def)

lemma sample_accepted_fields:
  "threadpool (sample_accepted w) = 2" "joining (sample_accepted w) = False" "crash (sample_accepted w) = None"
  "written (sample_accepted w) = []"
  "pending (logs (server_world (sample_accepted sample_world))) =
    [(INFO, []), (INFO, ''Running the server''), (INFO, ''Creating threadpool'')]"
  by (simp_all add: sample_accepted_def run_threads_def make_threads_eq sample_server_def start_accept_def
      handle_accept_def slog_def wlog_pending sample_world_logs)
    (simp add: pending_def new_LoggingBuffer_def)

theorem server_log_refines_witness:
  "log_reachable (log_view (sample_accepted sample_world))
    \<and> log_step\<^sup>*\<^sup>* (log_view (sample_accepted sample_world)) (log_view (kill_server (sample_accepted sample_world)))"
proof -
  let ?s = "sample_accepted sample_world"
  have "threaded_step (server_registry echo_services) (\<lambda>_. []) (single ?s) (on_server kill_server (single ?s))"
    using sample_accepted_state(1) [of sample_world]
    by (intro thread_signal) (simp add: free_thread_def single_def serving_def)
  then have "threaded_steps (server_registry echo_services) (\<lambda>_. []) (single ?s) (on_server kill_server (single ?s))"
    by (rule r_into_rtranclp)
  from server_log_refines [OF sample_server_new sample_world_logs sample_accepted_reachable this]
  show ?thesis by (simp add: single_def on_server_def)
qed

text \<open>
  C11: The signal ends the server, and its log is complete. Take a state of the running server in
  which no handler is at work and \<open>main\<close> waits for the threads. After the signal there is one run: the
  logging thread leaves its loop after \<open>n\<close> steps, having written all that was ever added, in order,
  and the process ends at the end of \<open>kill_server\<close>. There is a bound on \<open>n\<close>.
\<close>

theorem signal_ends_server:
  assumes "new_server bind_ok stray pool_size port w = Inr s0" and "logs w = new_LoggingBuffer [] []"
    and "threaded_reachable (server_registry svc) reason s0 (single s)" and "serving s" and "joining s"
  shows "\<exists>n \<le> log_measure (log_view (kill_server s)).
    logging_thread (log_alone n (kill_server s)) = Exited
    \<and> written (log_alone n (kill_server s)) =
        written s @ pending (logs (server_world s)) @ [(INFO, ''Recieved interupt signal. Terminating'')]
    \<and> (\<forall>ts'. threaded_steps (server_registry svc) reason (single (kill_server s)) ts' \<longleftrightarrow>
        (\<exists>k \<le> n. ts' = single (log_alone k (kill_server s))) \<or>
        ts' = single ((log_alone n (kill_server s))\<lparr>crash := Some no_return\<rparr>))"
proof -
  let ?s = "kill_server s"
  have run: "log_running (interp w) (server_world s0) (single s)" by (rule log_running_reachable [OF assms(1-3)])
  have "serving (server (single s))" using assms(4) by (simp add: single_def)
  note exits = signal_exits [OF run this, unfolded single_def threaded_server.simps]
  have added: "added (log_view ?s) =
      written s @ pending (logs (server_world s)) @ [(INFO, ''Recieved interupt signal. Terminating'')]"
    by (simp add: log_view_def kill_server_def slog_def wlog_pending)
  note exited = log_alone_exited [OF exits(1)] and view = log_alone_view [OF exits(1)]
  obtain m where m: "m \<le> log_measure (log_view ?s)" "pc (logger_run m (log_view ?s)) = Exited"
      "logged (logger_run m (log_view ?s)) = added (log_view ?s)"
    using exits(2) by blast
  define n where "n = (LEAST k. logging_thread (log_alone k ?s) = Exited)"
  have n: "logging_thread (log_alone n ?s) = Exited"
    unfolding n_def by (rule LeastI [of _ m]) (simp add: exited m(2))
  have le: "n \<le> m" unfolding n_def by (rule Least_le) (simp add: exited m(2))
  moreover have "logging_thread (log_alone k ?s) \<noteq> Exited" if "k < n" for k
    using not_less_Least [OF that [unfolded n_def]] .
  moreover have "written (log_alone n ?s) = added (log_view ?s)"
  proof -
    have "written (log_alone n ?s) = logged (logger_run n (log_view ?s))"
      unfolding view [symmetric] by (simp add: log_view_def)
    also have "logger_run n (log_view ?s) = logger_run m (log_view ?s)"
      using logger_run_add [of n "m - n" "log_view ?s"] logger_run_exited n [unfolded exited] le by simp
    finally show ?thesis using m(3) by simp
  qed
  moreover have "io_stopped ?s" "killing ?s" "joining ?s" "crash ?s = None"
    using assms(4,5) by (simp_all add: kill_server_def serving_def)
  ultimately show ?thesis
    using m(1) n logging_thread_alone [of ?s n] added by (intro exI [of _ n]) auto
qed

theorem signal_ends_server_witness:
  "\<exists>n. logging_thread (log_alone n (kill_server (run_join (sample_accepted sample_world)))) = Exited
    \<and> written (log_alone n (kill_server (run_join (sample_accepted sample_world)))) =
      [(INFO, []), (INFO, ''Running the server''), (INFO, ''Creating threadpool''),
       (INFO, ''Joining threadpool threads''), (INFO, ''Recieved interupt signal. Terminating'')]"
proof -
  let ?s = "run_join (sample_accepted sample_world)"
  have "server_step (server_registry echo_services) (\<lambda>_. []) (sample_accepted sample_world) ?s"
    by (rule step_join) (simp_all add: sample_accepted_fields)
  note r = reachable_steps [OF sample_accepted_reachable server_step_threaded [OF this]]
  have "serving ?s" "joining ?s"
    using sample_accepted_state(1) [of sample_world] by (simp_all add: run_join_def serving_def)
  from signal_ends_server [OF sample_server_new sample_world_logs r this]
  obtain n where "logging_thread (log_alone n (kill_server ?s)) = Exited"
      "written (log_alone n (kill_server ?s)) = written ?s @ pending (logs (server_world ?s))
        @ [(INFO, ''Recieved interupt signal. Terminating'')]"
    by blast
  moreover have "written ?s = []" by (simp add: run_join_def sample_accepted_fields)
  moreover have "pending (logs (server_world ?s)) =
      [(INFO, []), (INFO, ''Running the server''), (INFO, ''Creating threadpool''), (INFO, ''Joining threadpool threads'')]"
    by (simp add: run_join_def slog_def wlog_pending sample_accepted_fields)
  ultimately show ?thesis by (intro exI [of _ n]) simp
qed

text \<open>
  C40: The log of a handler can be lost. From any state of the running server in which two threads
  are free and a connection waits for a request, let the request come, and the signal before its
  handler has logged anything. The logging thread can leave its loop, the handler then logs, and the
  process ends with its entries unwritten.
\<close>

theorem handler_log_lost:
  assumes "new_server bind_ok stray pool_size port w = Inr s0" and "logs w = new_LoggingBuffer [] []"
    and "threaded_reachable (server_registry svc) reason s0 (single s)"
    and "serving s" and "2 \<le> threadpool s" and "outstanding Reading i s"
  shows "\<exists>ts. threaded_steps (server_registry svc) reason (single s) ts
    \<and> crash (server ts) = Some no_return \<and> logging_thread (server ts) = Exited
    \<and> pending (logs (server_world (server ts))) \<noteq> []"
proof -
  let ?reg = "server_registry svc"
  define ts1 where "ts1 = begin_read ?reg reason i (get_request ''/'') False sample_peer (single s)"
  define ts2 where "ts2 = on_server kill_server ts1"
  have one: "threaded_step ?reg reason (single s) ts1"
    unfolding ts1_def using assms(4-6) by (intro thread_begin) (simp_all add: free_thread_def single_def)
  have s1: "serving (server ts1)" "length (tasks ts1) = 1" "threadpool (server ts1) = threadpool s"
      "task_code (tasks ts1 ! 0) = dispatch_request_steps ?reg reason sample_peer (get_request ''/'')"
    using assms(4) by (simp_all add: ts1_def begin_read_def single_def serving_def Let_def)
  then have two: "threaded_step ?reg reason ts1 ts2"
    unfolding ts2_def using assms(5) by (intro thread_signal) (simp add: free_thread_def)
  have run: "log_running (interp w) (server_world s0) ts1"
    by (rule log_running_reachable [OF assms(1,2) reachable_steps [OF assms(3)]]) (use one in auto)
  obtain n where n: "logging_thread (log_alone n (kill_server (server ts1))) = Exited"
    using signal_exits [OF run s1(1)] log_alone_exited by blast
  define ts3 where "ts3 = on_server (log_alone n) ts2"
  have c2: "crash (server ts2) = None" "killing (server ts2)"
    using s1(1) by (simp_all add: ts2_def on_server_def kill_server_def serving_def)
  then have three: "threaded_steps ?reg reason ts2 ts3" unfolding ts3_def by (intro log_alone_steps)
  have s3: "crash (server ts3) = None" "killing (server ts3)" "logging_thread (server ts3) = Exited"
      "0 < length (tasks ts3)"
    using c2 n s1(2) by (simp_all add: ts3_def ts2_def on_server_def)
  have "task_code (tasks ts3 ! 0) = dispatch_request_steps ?reg reason sample_peer (get_request ''/'')"
    using s1(4) by (simp add: ts3_def ts2_def on_server_def)
  then obtain k where code: "task_code (tasks ts3 ! 0) = Act (\<lambda>w. snd (getRequestType (get_request ''/'') w)) k"
    by (simp add: dispatch_request_steps_def step_def)
  have four: "threaded_step ?reg reason ts3 (do_step 0 ts3)" by (rule thread_step [OF s3(1,4) code])
  have s4: "crash (server (do_step 0 ts3)) = None" "killing (server (do_step 0 ts3))"
      "logging_thread (server (do_step 0 ts3)) = Exited"
      "pending (logs (server_world (server (do_step 0 ts3)))) \<noteq> []"
    using s3 by (simp_all add: do_step_def code Let_def getRequestType_logs)
  let ?ts5 = "on_server (\<lambda>s. snd (kill_server_ends s)) (do_step 0 ts3)"
  have five: "threaded_step ?reg reason (do_step 0 ts3) ?ts5" by (rule thread_killed) (use s4 in simp_all)
  have "threaded_steps ?reg reason (single s) ?ts5"
    using one two three four five
    by (meson converse_rtranclp_into_rtranclp r_into_rtranclp rtranclp_trans)
  with s4 show ?thesis
    by (intro exI [of _ ?ts5]) (simp add: on_server_def kill_server_ends_def)
qed

theorem handler_log_lost_witness:
  "\<exists>ts. threaded_steps (server_registry echo_services) (\<lambda>_. []) (single (sample_accepted sample_world)) ts
    \<and> crash (server ts) = Some no_return \<and> logging_thread (server ts) = Exited
    \<and> pending (logs (server_world (server ts))) \<noteq> []"
  by (rule handler_log_lost [OF sample_server_new sample_world_logs sample_accepted_reachable, where i = 0])
    (simp_all add: sample_accepted_state sample_accepted_fields)

end
