(* ===== verification/Logger.thy ===== *)
theory Logger
  imports Logging
begin

text \<open>
  \<open>logger.cc\<close> and \<open>signal_handler.cc\<close>: where Boost.Log writes, and the signal handler that \<open>main\<close> no
  longer installs. The core of Boost.Log is the list of its sinks; a record goes to each of them, and
  to a default sink on the console while there is none.
\<close>

subsection \<open>Sinks\<close>

record file_sink =
  file_name :: string
  rotation_size :: nat \<comment> \<open>bytes\<close>
  rotation_time :: "nat \<times> nat \<times> nat" \<comment> \<open>hour, minute, second\<close>
  file_format :: string

datatype log_sink = File_log file_sink | Console_log string

record log_core =
  common_attributes :: bool
  sinks :: "log_sink list"

definition initial_core :: log_core where
  "initial_core = \<lparr>common_attributes = False, sinks = []\<rparr>"

definition add_common_attributes :: "log_core \<Rightarrow> log_core" where
  "add_common_attributes c = c\<lparr>common_attributes := True\<rparr>"

definition add_sink :: "log_sink \<Rightarrow> log_core \<Rightarrow> log_core" where
  "add_sink s c = c\<lparr>sinks := sinks c @ [s]\<rparr>"

definition record_format :: string where
  "record_format = ''[%TimeStamp%] [%ThreadID%] [%Severity%] [%ProcessID%]: %Message%''"

definition initialize_logging :: "bool \<Rightarrow> log_core \<Rightarrow> log_core" where
  "initialize_logging enable_file_logging c =
     (let c1 = add_common_attributes c;
          c2 = (if enable_file_logging
                then add_sink (File_log
                       \<lparr>file_name = ''logs/server_%Y-%m-%d_%H-%M-%S.log'',
                        rotation_size = 10 * 1024 * 1024,
                        rotation_time = (0, 0, 0),
                        file_format = record_format\<rparr>) c1
                else c1)
      in add_sink (Console_log record_format) c2)"

text \<open>\<open>BOOST_LOG_TRIVIAL\<close>: the record with the sinks it goes to (none: the default sink).\<close>

type_synonym log_line = "log_sink list \<times> buffer_entry"

definition trivial_log :: "log_core \<Rightarrow> log_severity \<Rightarrow> string \<Rightarrow> log_line" where
  "trivial_log c sev msg = (sinks c, (sev, msg))"

subsection \<open>The signal handler\<close>

definition SIGINT :: int where
  "SIGINT = 2"

text \<open>The exit code, if the process ends, and what is logged.\<close>

definition sig_handler :: "log_core \<Rightarrow> int \<Rightarrow> int option \<times> log_line list" where
  "sig_handler c sig =
     (if sig = SIGINT
      then (Some SIGINT, [trivial_log c FATAL ''Recieved interupt signal. Terminating''])
      else (None, []))"

lemma initialize_logging_sinks:
  "sinks (initialize_logging enable c) =
     sinks c @ (if enable
       then [File_log \<lparr>file_name = ''logs/server_%Y-%m-%d_%H-%M-%S.log'', rotation_size = 10485760,
               rotation_time = (0, 0, 0), file_format = record_format\<rparr>] else [])
     @ [Console_log record_format]"
  by (simp add: initialize_logging_def add_sink_def add_common_attributes_def Let_def)

end
