(* ===== verification/Server_Main.thy ===== *)
theory Server_Main
  imports Config_Parser_Correct Declared_Routes Concurrent_Posts Server_Logging Logger
begin

text \<open>
  The program's entry, \<open>main\<close> of \<open>_main.cc\<close>: the arguments, the configuration, the server. The
  parameters stand for the machine: what the file named on the command line holds, whether a
  port can be bound, what an exception's \<open>what()\<close> says, what a pointer outside its string literal
  reads, and the remote services of the caption application.
\<close>

subsection \<open>The program\<close>

record machine =
  disk :: "string \<Rightarrow> string option"
  bindable :: "16 word \<Rightarrow> bool"
  what_of :: "exn \<Rightarrow> string"
  stray_memory :: "int \<Rightarrow> string"
  remote :: services

text \<open>
  \<open>main\<close> returned, or reached undefined behaviour, or called \<open>run\<close> of a server, whose life with the
  registered handlers is \<open>threaded_reachable\<close> from there.
\<close>

datatype outcome = Exited int | Undefined_outcome string | Running registry server_state

definition THREADPOOL_SIZE :: int where
  "THREADPOOL_SIZE = 2"

definition args_ok :: "string list \<Rightarrow> bool" where
  "args_ok argv \<longleftrightarrow>
     length argv = 2 \<or> (length argv = 3 \<and> argv ! 2 = ''--disable-file-logging'')"

text \<open>The handler \<open>catch (const std::exception\<close>\<open>)\<close>; undefined behaviour is not an exception.\<close>

fun caught :: "machine \<Rightarrow> log_core \<Rightarrow> exn \<Rightarrow> outcome \<times> log_line list" where
  "caught mach c (Undefined_behaviour m) = (Undefined_outcome m, [])"
| "caught mach c e = (Exited 1, [trivial_log c FATAL (''Exception: '' @ what_of mach e)])"

text \<open>
  \<open>main\<close> on its arguments, the files, and the interpreter's static members as the program
  loads. The second result is what \<open>main\<close> itself puts on the log, with
  the sinks it goes to.
\<close>

definition main_program :: "machine \<Rightarrow> string list \<Rightarrow> filesystem \<Rightarrow> interpreter \<Rightarrow> outcome \<times> log_line list" where
  "main_program mach argv fs i =
     (if \<not> args_ok argv
      then (Exited 1, [trivial_log initial_core FATAL ''Usage: server <config_file> [--disable-file-logging]''])
      else
        (let enable_file_logging = \<not> (length argv = 3 \<and> argv ! 2 = ''--disable-file-logging'');
             core = initialize_logging enable_file_logging initial_core;
             logging_buffer = new_LoggingBuffer [] [];
             request_handlers_map = server_registry (remote mach)
         in case Parse_file (disk mach (argv ! 1)) of
              Inl e \<Rightarrow> caught mach core e
            | Inr (successfulConfigParse, config) \<Rightarrow>
                if \<not> successfulConfigParse
                then (Exited 1, [trivial_log core FATAL (''Error in parsing the Nginx config file'' @ [newline])])
                else (case setServerPaths config i of
                        (Some e, _) \<Rightarrow> caught mach core e
                      | (None, i') \<Rightarrow>
                          (case getPort config of
                             Inl e \<Rightarrow> caught mach core e
                           | Inr port \<Rightarrow>
                               (case new_server (bindable mach) (stray_memory mach) THREADPOOL_SIZE
                                       (word_of_int port)
                                       \<lparr>files = fs, logs = logging_buffer, interp = i',
                                        slept_ms = 0, entity_mutex = False\<rparr> of
                                  Inl e \<Rightarrow> caught mach core e
                                | Inr s \<Rightarrow> (Running request_handlers_map s, []))))))"

text \<open>
  Once the arguments are accepted, everything \<open>main\<close> itself logs goes to the console and, unless the
  flag is given, to the log file.
\<close>

lemma caught_sinks: "(targets, entry) \<in> set (snd (caught mach core e)) \<Longrightarrow> targets = sinks core"
  by (cases e) (simp_all add: trivial_log_def)

lemma main_program_sinks:
  assumes "args_ok argv" and "(targets, entry) \<in> set (snd (main_program mach argv fs i))"
  shows "targets = sinks (initialize_logging (length argv = 2) initial_core)"
proof -
  have "(\<not> (length argv = 3 \<and> argv ! 2 = ''--disable-file-logging'')) = (length argv = 2)"
    using assms(1) by (auto simp: args_ok_def)
  then show ?thesis
    using assms unfolding main_program_def Let_def
    by (auto simp: trivial_log_def dest: caught_sinks
        split: if_splits sum.splits prod.splits option.splits)
qed

subsection \<open>Reaching a running server\<close>

lemma for_each_runs:
  "(\<And>x s. x \<in> set xs \<Longrightarrow> fst (f x s) = None) \<Longrightarrow> fst (for_each f xs s) = None"
  by (induction xs arbitrary: s) (auto simp: prod.case_eq_if split: option.split)

lemma getPort_runs:
  assumes "config_ok config"
  shows "\<exists>p. getPort config = Inr p"
proof -
  have "fst (for_each (\<lambda>statement port. with_token statement 0
      (\<lambda>t. if t = ''server'' then for_block statement port_statement port else (None, port)) port) config 80) = None"
  proof (rule for_each_runs)
    fix st port assume "st \<in> set config"
    then have st: "tokens st \<noteq> []" "begins ''server'' st \<Longrightarrow> child_block st \<noteq> None"
      "begins ''server'' st \<Longrightarrow> l \<in> set (block_of st) \<Longrightarrow> tokens l \<noteq> []" for l
      using assms by (auto simp: config_ok_def)
    show "fst (with_token st 0 (\<lambda>t. if t = ''server'' then for_block st port_statement port else (None, port)) port) = None"
    proof (cases "begins ''server'' st")
      case True
      then obtain ls where ls: "child_block st = Some ls" "block_of st = ls"
        using st(2) by (auto simp: block_of_def)
      have "fst (for_each port_statement ls port) = None"
        using st(3) [OF True] by (intro for_each_runs) (auto simp: ls port_statement_def with_token_def vec_at_def)
      with ls st(1) show ?thesis by (simp add: with_token_def for_block_def vec_at_def)
    qed (use st(1) in \<open>auto simp: with_token_def vec_at_def begins_def hd_conv_nth\<close>)
  qed
  then show ?thesis unfolding getPort_def by (auto simp: prod.case_eq_if split: option.split)
qed

text \<open>A valid port survives the \<open>short\<close> of the constructor's parameter.\<close>

lemma endpoint_of_port: "0 \<le> p \<Longrightarrow> p \<le> 65535 \<Longrightarrow> uint (word_of_int p :: 16 word) = p"
  by (simp add: uint_word_of_int)

lemma new_server_start:
  "new_server bind_ok stray n port w = Inr s \<longleftrightarrow>
     bind_ok port \<and> s = snd (start_accept
        \<lparr>endpoint_port = port, threadpool_size = n, threadpool = 0, program_terminated = False,
         io_stopped = False, pending_accept = None, connections = [],
         server_world = wlog INFO (port_message stray port) w, console = [], joining = False,
         crash = None, logging_thread = Loop_head, written = [], killing = False\<rparr>)"
  by (auto simp: new_server_def)

text \<open>What a running server was made from.\<close>

lemma main_program_Running:
  assumes "main_program mach argv fs i = (Running reg s, out)"
  obtains contents config i' port where "args_ok argv" and "reg = server_registry (remote mach)" and "disk mach (argv ! 1) = Some contents"
    and "Parse (open_stream contents) = Inr (True, config)"
    and "setServerPaths config i = (None, i')" and "getPort config = Inr port"
    and "new_server (bindable mach) (stray_memory mach) THREADPOOL_SIZE (word_of_int port)
      \<lparr>files = fs, logs = new_LoggingBuffer [] [], interp = i', slept_ms = 0, entity_mutex = False\<rparr> = Inr s"
proof -
  have no_run: "caught mach core e \<noteq> (Running reg s, out)" for core e by (cases e) auto
  from assms show thesis
    by (auto simp: main_program_def Let_def Parse_file_def no_run
        split: if_splits sum.splits prod.splits option.splits intro: that)
qed

text \<open>Its registry, its files and its routing table, in every state it can reach.\<close>

lemma running_state:
  assumes "main_program mach argv fs i = (Running reg s, out)" and "threaded_reachable reg reason s ts"
  shows "reg = server_registry (remote mach) \<and> files (server_world s) = fs \<and> connections s = []
    \<and> interp (server_world (server ts)) = interp (server_world s) \<and>
    (tree_ok fs \<longrightarrow> tree_ok (files (server_world (server ts))))"
proof (rule main_program_Running [OF assms(1)])
  fix contents c i' port
  let ?w = "\<lparr>files = fs, logs = new_LoggingBuffer [] [], interp = i', slept_ms = 0, entity_mutex = False\<rparr>"
  assume reg: "reg = server_registry (remote mach)"
    and new: "new_server (bindable mach) (stray_memory mach) THREADPOOL_SIZE (word_of_int port) ?w = Inr s"
  have "tidy_files (server_world s) (server_world (server ts))"
    using threads_inv_reachable [OF new assms(2) [unfolded reg]] by (simp add: kept_def)
  then show ?thesis
    using reg new by (auto simp: tidy_files_def new_server_start start_accept_def)
qed

lemma running_serves:
  assumes "main_program mach argv fs i = (Running reg s, out)"
  shows "serving (run_threads s)" and "pending_accept (run_threads s) = Some new_connection"
    and "connections (run_threads s) = []"
proof -
  have "serving (run_threads s) \<and> pending_accept (run_threads s) = Some new_connection
      \<and> connections (run_threads s) = []"
  proof (rule main_program_Running [OF assms])
    fix i' port
    assume "new_server (bindable mach) (stray_memory mach) THREADPOOL_SIZE (word_of_int port)
      \<lparr>files = fs, logs = new_LoggingBuffer [] [], interp = i', slept_ms = 0, entity_mutex = False\<rparr> = Inr s"
    then show ?thesis
      by (simp add: new_server_start start_accept_def run_threads_def make_threads_eq serving_def
          slog_def THREADPOOL_SIZE_def)
  qed
  then show "serving (run_threads s)" and "pending_accept (run_threads s) = Some new_connection"
    and "connections (run_threads s) = []" by simp_all
qed

lemma running_table:
  assumes "main_program mach argv fs i = (Running reg s, out)" and "threaded_reachable reg reason s ts"
    and "disk mach (argv ! 1) = Some contents" and "Parse (open_stream contents) = Inr (True, c)"
  shows "reg = server_registry (remote mach) \<and> distinct (map decl_location (server_lines ''location'' c)) \<and>
    paths_spec (server_lines ''location'' c) (getServerPaths (interp (server_world (server ts)))) \<and>
    paths_ok (getServerPaths (interp (server_world (server ts))))"
proof (rule main_program_Running [OF assms(1)])
  fix contents' c' i' port
  assume reg: "reg = server_registry (remote mach)"
    and parsed: "disk mach (argv ! 1) = Some contents'" "Parse (open_stream contents') = Inr (True, c')"
    and table: "setServerPaths c' i = (None, i')"
    and new: "new_server (bindable mach) (stray_memory mach) THREADPOOL_SIZE (word_of_int port)
      \<lparr>files = fs, logs = new_LoggingBuffer [] [], interp = i', slept_ms = 0, entity_mutex = False\<rparr> = Inr s"
  have c: "c' = c" using parsed assms(3,4) by simp
  have "interp (server_world (server ts)) = interp (server_world s)"
    using running_state [OF assms(1,2)] by simp
  also have "\<dots> = i'" using new by (simp add: new_server_start start_accept_def)
  finally show ?thesis
    using reg setServerPaths_scan [OF table [unfolded c]] by (auto simp: scan_spec_def getServerPaths_def)
qed

end
