(* ===== verification/Spec2Isabelle.thy ===== *)
theory Spec2Isabelle
  imports Server_Main
begin

text \<open>
  A verification library for the web server under \<open>src/src\<close> and \<open>src/include\<close>: an HTTP server
  on Boost.Asio and Boost.Beast that reads an Nginx-like configuration and answers requests by
  echoing, serving files, keeping a store of JSON objects (CRUD), sleeping, reporting health, and
  running a caption application.

  How the parts interact. \<open>main\<close> (\<open>_main.cc\<close>) sets up the log sinks (\<open>logger.cc\<close>), registers the handler
  factories (\<open>registry.cc\<close>), parses the configuration (\<open>config_parser.cc\<close>), fills the routing table
  (\<open>config_interpreter.cc\<close>) and starts the server (\<open>server.cc\<close>), which accepts connections on a pool of
  two threads. A connection (\<open>session.cc\<close>) reads a request, lets the dispatcher
  (\<open>request_dispatcher.cc\<close>) find the longest configured location, make the handler of its type and call
  it, writes the response, and reads again. The CRUD handler (\<open>crud_handler.cc\<close>) works on the file
  system through a file manager (\<open>crud_file_manager.cc\<close>). All of them log through a double buffer
  (\<open>logging_buffer.cc\<close>) that one thread empties.

  The theories, from the bottom up.

  \<^item> \<open>Dinner_Prelude\<close>: exceptions and results, the operations of \<open>std::string\<close>, numbers and their
    conversions (\<open>stoi\<close>, \<open>stoull\<close>, \<open>to_string\<close>), \<open>std::map\<close> as an ordered association list, the loop
    over a list that an exception leaves, and the collections \<open>frame_simps\<close> and \<open>str_simps\<close>.
  \<^item> \<open>Logging\<close>: the class \<open>LoggingBuffer\<close>, and its concurrent use, where each access to the shared
    queues is one step. Nothing is lost, doubled or reordered; the logging thread stops; the race at
    shutdown that does lose a message is exhibited.
  \<^item> \<open>Logger\<close>: \<open>logger.cc\<close> and \<open>signal_handler.cc\<close> over a core of Boost.Log that is a list of sinks.
  \<^item> \<open>Config_Parser\<close> (definitions), \<open>Config_Parser_Refine\<close> (refinement), \<open>Config_Parser_Correct\<close> (what is
    accepted, when it is undefined, round trips with \<open>ToString\<close>). The tree of \<open>shared_ptr\<close> and the stack
    of raw pointers into it are an explicit heap.
  \<^item> \<open>Config_Interpreter\<close>: \<open>getPort\<close> and \<open>setServerPaths\<close>, with every exception and null dereference.
  \<^item> \<open>Filesystem\<close>: \<open>std::filesystem\<close> and file streams on a tree of nodes, as far as the code uses them.
  \<^item> \<open>Http\<close>: requests, responses, and the world the handlers share; \<open>keeps\<close> (the configuration is left
    alone and the log only added to) is what every operation above is shown to respect.
  \<^item> \<open>Crud_File_Manager\<close> (definitions), \<open>Crud_Store\<close> (effects of each operation), \<open>Crud_Contract\<close> (the
    abstract store and the refinement of each operation).
  \<^item> \<open>Request_Dispatcher\<close>: the type of a request, and the three copies of the path search.
  \<^item> \<open>Declared_Routes\<close>: which declaration of the configuration file a request belongs to, the
    specification of routing, and that the dispatcher follows it.
  \<^item> \<open>Crud_Handler\<close>: the handler over the virtual file manager, its contract as the locale
    \<open>object_store\<close>, and runs of requests; \<open>Crud_Properties\<close>: what follows for clients, and the defects.
  \<^item> \<open>Atomic_Steps\<close>: programs of atomic steps, and the file manager and the CRUD handler again as such
    programs (\<open>writeObject_steps\<close> and so on), each shown equal to the whole operation when nothing
    comes between its steps. \<open>Data_Directories\<close>: what holds of each step whatever comes between: the
    files stay a tree, and nothing outside the data directories changes.
  \<^item> \<open>Basic_Handlers\<close>: echo, health, sleep, not found, static; the contract of
    \<open>RequestHandler::handle_request\<close> as the locale \<open>request_handler\<close>.
  \<^item> \<open>App_Handler\<close>: the caption application; the HTTP client and the JSON reader are the record \<open>services\<close>.
  \<^item> \<open>Handler_Classes\<close>: the objects of the seven handler classes, the virtual call, the factories.
  \<^item> \<open>Dispatch\<close>: the registry of factories (locale \<open>handler_registry\<close>) and \<open>dispatch_request\<close>.
  \<^item> \<open>Session_Server\<close>: \<open>session\<close> and \<open>server\<close>, the running server as the step relation \<open>server_step\<close>
    whose steps are whole handlers (the logging thread and the signal left aside), and one connection against the abstract store.
  \<^item> \<open>Threaded_Server\<close>: the dispatcher in atomic steps, and the server in which the threads of the pool
    and the logging thread interleave such steps (\<open>threaded_step\<close>); the runs of \<open>server_step\<close> are runs of it; the locale
    \<open>guarantee\<close> carries what each step keeps to all reachable states. \<open>Threaded_Order\<close>: the invariant
    of its connections and what can end the process. \<open>Concurrent_Posts\<close>: two POSTs that do end it.
  \<^item> \<open>Server_Logging\<close>: the log of the threaded server is the log system of \<open>Logging\<close>, what the signal
    leaves to do, and the entries of a handler that are lost then.
  \<^item> \<open>Server_Main\<close>: \<open>main\<close>. This theory: from the text of the configuration to the running server,
    and what the server does to the files.

  Each definition carries the name of the function it models where the language allows it; locals and
  loop bodies of long functions are definitions of their own (\<open>score_image\<close>, \<open>path_line\<close>, \<open>parse_step\<close>).
  An object of a class is a record of its fields; a function with side effects takes the state and
  returns it; an exception or undefined behaviour is a value of \<open>exn\<close> in the left of a \<open>result\<close>. An
  exception that leaves a handler ends the process, as it ends the thread of the pool.

  Interfaces. \<open>log_queue\<close> (what the users of a log rely on), \<open>ordered_map\<close> (\<open>std::map\<close>), \<open>object_store\<close> (the
  contract of the file manager), \<open>request_handler\<close> (every handler), \<open>handler_registry\<close> and \<open>guarantee\<close>
  (what every atomic step of a handler keeps) are locales, each interpreted on the definitions of the
  code; the client lemmas are proved inside them.

  Threads. In \<open>threaded_step\<close> a thread does one atomic step: one log entry, one call of
  \<open>std::filesystem\<close>, one file stream from its opening to its closing, or taking or releasing the
  mutex. The sleep handler has three steps. The other handlers, the search for the path of a request
  and the log lines about it only read the files and the configuration and add to the log: each is
  one step, and so are \<open>handle_accept\<close> and \<open>handle_write\<close>, which touch no file. A file stream is not
  interrupted, so what a reader sees of a file that is half written is not modelled. The logging
  thread does one access to the shared queues at a time. It works from the constructor of the server
  on, but the two entries of \<open>run\<close> before the threads exist are one step.

  Bounds. No definition uses fuel: every loop of the code that is modelled is shown to end, by a
  structural recursion or a measure (the parser consumes input with each token). Machine integers are
  kept where they matter: the object counter is a \<open>64 word\<close>, the port a \<open>16 word\<close>, positions in a
  string are computed with the wrap-around of \<open>size_t\<close> and \<open>int\<close>. A response is shown to be framed for
  requests below \<open>2 ^ 31\<close> bytes, the range of the \<open>int\<close> the echo handler uses; Beast's parser refuses
  bodies above one megabyte.

  Not modelled. Boost (Asio's event loop is the step relation, Beast's parser and serialiser are the
  requests that arrive and the responses that are handed over, Boost.Log is a list of sinks and the
  records they get), libcurl and the JSON library; lines logged directly to Boost.Log by the
  configuration code; the web page scripts. Data bytes left in the read buffer of a connection
  (pipelining) and the closing of connections are not modelled. The file system has no limits: names
  and memory have no bounds, and \<open>std::filesystem::exists\<close> does not fail, so the exceptions it can
  throw (names over 255 bytes, directories without search permission) and the \<open>catch\<close> of
  \<open>existsObject\<close> are left out. Locking the mutex again in its own thread, which is undefined, is the
  exception \<open>Deadlock\<close>. What \<open>kill_server\<close> does after its
  missing return, and what the pointer arithmetic of the start message reads, are undefined and
  parameters of the model. \<open>server::launch_session\<close> is declared and never defined.
\<close>

section \<open>Properties of the whole program\<close>

text \<open>
  C2: What runs is what the file declares. If \<open>main\<close> gets as far as running the server, then
  the file parses to a configuration \<open>c\<close> in which no location is declared twice; the port that is
  bound is the one \<open>c\<close> declares: the number at the beginning of the argument of the last \<open>listen\<close> line,
  or 80 if there is no such line or no number from 0 to 65535 there; and in every state the server
  can reach the routing table is the one the location lines of \<open>c\<close> declare, each location under one
  handler. (The comment on \<open>getPort\<close> promises 80 whenever the argument is no integer; what follows the
  digits is ignored, see \<open>listen_takes_digits\<close>.)
\<close>

theorem main_serves_declared:
  assumes "main_program mach argv fs i = (Running reg s, out)"
    and "threaded_reachable reg reason s t"
  shows "\<exists>contents c. disk mach (argv ! 1) = Some contents \<and> Parse (open_stream contents) = Inr (True, c)
    \<and> distinct (map decl_location (server_lines ''location'' c))
    \<and> declared_port (server_lines ''listen'' c) (uint (endpoint_port s))
    \<and> paths_spec (server_lines ''location'' c) (getServerPaths (interp (server_world (server t))))
    \<and> paths_ok (getServerPaths (interp (server_world (server t))))"
proof (rule main_program_Running [OF assms(1)])
  fix contents c i' port
  assume parsed: "disk mach (argv ! 1) = Some contents" "Parse (open_stream contents) = Inr (True, c)"
    and port: "getPort c = Inr port"
    and new: "new_server (bindable mach) (stray_memory mach) THREADPOOL_SIZE (word_of_int port)
      \<lparr>files = fs, logs = new_LoggingBuffer [] [], interp = i', slept_ms = 0, entity_mutex = False\<rparr> = Inr s"
  have p: "port = (if server_lines ''listen'' c = [] then 80 else listen_port (last (server_lines ''listen'' c)))"
    by (rule getPort_lines [OF port])
  have "0 \<le> port" "port \<le> 65535" using p listen_port_range by (simp_all split: if_splits)
  then have "uint (endpoint_port s) = port"
    using new endpoint_of_port [of port] by (simp add: new_server_start start_accept_def)
  with getPort_declared [OF port] running_table [OF assms parsed] parsed show ?thesis
    by (intro exI [of _ contents] exI [of _ c]) simp
qed

text \<open>
  C3: Requests go where the file says. In every state of a server that \<open>main\<close> started, a request
  is handled by the handler that the configuration file declares for the longest location its
  normalised target begins with (by the not-found handler if that is a static location and the file
  does not open, and if no declared location fits).
\<close>

theorem requests_routed_as_declared:
  assumes "main_program mach argv fs i = (Running reg s, out)" and "threaded_reachable reg reason s t"
    and "disk mach (argv ! 1) = Some contents" and "Parse (open_stream contents) = Inr (True, c)"
    and "normalised_target (target req) = Inr r" and "req_method req \<noteq> Unknown_verb"
  shows "(\<forall>d. declared_route (server_lines ''location'' c) r d \<longrightarrow>
      handled_by reg reason p req (server_world (server t)) (declared_answer (files (server_world (server t))) r d))
    \<and> ((\<nexists>d. declared_route (server_lines ''location'' c) r d) \<longrightarrow>
      handled_by reg reason p req (server_world (server t)) None_type)"
proof -
  have table: "reg = server_registry (remote mach)" "distinct (map decl_location (server_lines ''location'' c))"
      "paths_spec (server_lines ''location'' c) (getServerPaths (interp (server_world (server t))))"
      "paths_ok (getServerPaths (interp (server_world (server t))))"
    using running_table [OF assms(1-4)] by simp_all
  have t: "target req \<noteq> []" using assms(5) normalised_target_empty by auto
  note ty = getRequestType_declared [OF table(3,2,4) assms(5)]
  show ?thesis
    unfolding table(1) using dispatch_handled [OF ty(1) t assms(6)] dispatch_handled [OF ty(2) t assms(6)] by blast
qed

text \<open>
  C7: A well-formed configuration is served. From the text printed for a configuration of the
  expected shape, \<open>main\<close> starts the server if the port can be bound.
\<close>

theorem main_serves_config:
  assumes "c \<noteq> []" and "config_wf c" and "list_all stmt_tokens_ok c" and "config_ok c"
    and "args_ok argv" and "disk mach (argv ! 1) = Some (config_ToString depth c)"
    and "bindable mach (word_of_int
        (if server_lines ''listen'' c = [] then 80 else listen_port (last (server_lines ''listen'' c))))"
  shows "\<exists>s. main_program mach argv fs i = (Running (server_registry (remote mach)) s, [])
    \<and> paths_spec (server_lines ''location'' c) (getServerPaths (interp (server_world s)))"
proof -
  have parse: "Parse (open_stream (config_ToString depth c)) = Inr (True, c)"
    using lex_config [OF assms(2,3), of depth "[]"] assms(1,2)
    by (intro Parse_lexed [of c _ "[]"]) (simp_all add: lex_Nil)
  have "fst (setServerPaths c i) = None"
    using server_statements_run [of c "[]", OF _ scan_spec_init [of "api_key i" "chatgpt_url i"]] assms(4)
    by (auto simp: config_ok_def setServerPaths_def)
  then obtain i' where table: "setServerPaths c i = (None, i')" by (metis prod.collapse)
  obtain port where port: "getPort c = Inr port" using getPort_runs [OF assms(4)] by blast
  show ?thesis
    using setServerPaths_scan [OF table] assms(7) [folded getPort_lines [OF port]]
    by (simp del: One_nat_def add: main_program_def assms(5,6) Parse_file_def parse table port new_server_def
        start_accept_def getServerPaths_def scan_spec_def)
qed

definition demo_machine :: machine where
  "demo_machine =
     \<lparr>disk = (\<lambda>f. if f = ''server.conf'' then Some (config_ToString 0 demo_config) else None),
      bindable = (\<lambda>_. True), what_of = (\<lambda>_. []), stray_memory = (\<lambda>_. []), remote = echo_services\<rparr>"

definition demo_argv :: "string list" where
  "demo_argv = [''server'', ''server.conf'']"

lemma demo_config_text: "demo_config \<noteq> []" "config_wf demo_config" "list_all stmt_tokens_ok demo_config"
  by (simp_all add: demo_config_def token_eval)

lemma demo_parses: "Parse (open_stream (config_ToString 0 demo_config)) = Inr (True, demo_config)"
  using lex_config [OF demo_config_text(2,3), of 0 "[]"] demo_config_text(1,2)
  by (intro Parse_lexed [of demo_config _ "[]"]) (simp_all add: lex_Nil)

lemma demo_machine_runs:
  "\<exists>s. main_program demo_machine demo_argv sample_files new_interpreter
      = (Running (server_registry echo_services) s, [])"
  using demo_runs demo_port demo_parses
  by (simp add: main_program_def demo_machine_def demo_argv_def args_ok_def Parse_file_def new_server_def)

theorem main_serves_config_witness:
  "\<exists>s. main_program demo_machine demo_argv sample_files new_interpreter
      = (Running (server_registry echo_services) s, [])
    \<and> paths_spec (server_lines ''location'' demo_config) (getServerPaths (interp (server_world s)))"
proof -
  have "remote demo_machine = echo_services" by (simp add: demo_machine_def)
  moreover have "\<exists>s. main_program demo_machine demo_argv sample_files new_interpreter
      = (Running (server_registry (remote demo_machine)) s, [])
    \<and> paths_spec (server_lines ''location'' demo_config) (getServerPaths (interp (server_world s)))"
    by (rule main_serves_config [OF demo_config_text demo_config_ok, where depth = 0])
      (simp_all add: demo_machine_def demo_argv_def args_ok_def)
  ultimately show ?thesis by simp
qed

theorem main_serves_declared_witness:
  "\<exists>s contents c. main_program demo_machine demo_argv sample_files new_interpreter
      = (Running (server_registry echo_services) s, [])
    \<and> disk demo_machine (demo_argv ! 1) = Some contents \<and> Parse (open_stream contents) = Inr (True, c)
    \<and> distinct (map decl_location (server_lines ''location'' c))
    \<and> declared_port (server_lines ''listen'' c) (uint (endpoint_port s))
    \<and> paths_spec (server_lines ''location'' c) (getServerPaths (interp (server_world (server (single (run_threads s))))))
    \<and> paths_ok (getServerPaths (interp (server_world (server (single (run_threads s))))))"
proof -
  obtain s where s: "main_program demo_machine demo_argv sample_files new_interpreter
      = (Running (server_registry echo_services) s, [])"
    using demo_machine_runs by blast
  show ?thesis
    using s main_serves_declared [OF s reach_start [of "server_registry echo_services" "\<lambda>_. ''OK''" s]]
    by (intro exI [of _ s]) simp
qed

text \<open>The echo location of the demo configuration, on the server just started.\<close>

theorem requests_routed_as_declared_witness:
  "\<exists>s. main_program demo_machine demo_argv sample_files new_interpreter
      = (Running (server_registry echo_services) s, [])
    \<and> handled_by (server_registry echo_services) (\<lambda>_. ''OK'') sample_peer (get_request ''/echo//x'')
        (server_world (server (single (run_threads s)))) Echo"
proof -
  obtain s where s: "main_program demo_machine demo_argv sample_files new_interpreter
      = (Running (server_registry echo_services) s, [])"
    using demo_machine_runs by blast
  have conf: "disk demo_machine (demo_argv ! 1) = Some (config_ToString 0 demo_config)"
    by (simp add: demo_machine_def demo_argv_def)
  have parse: "Parse (open_stream (config_ToString 0 demo_config)) = Inr (True, demo_config)"
    by (rule demo_parses)
  have "normalised_target ''/echo//x'' = Inr ''/echo/x''" by code_simp
  then have t: "normalised_target (target (get_request ''/echo//x'')) = Inr ''/echo/x''"
    by (simp add: get_request_def)
  have m: "req_method (get_request ''/echo//x'') \<noteq> Unknown_verb" by (simp add: get_request_def)
  let ?d = "NginxConfigStatement [''location'', ''/echo'', ''EchoHandler''] (Some [])"
  have "declared_route (server_lines ''location'' demo_config) ''/echo/x'' ?d"
    by (simp add: declared_route_def demo_config_def server_lines_def begins_def block_of_def
        declared_type_def decl_handler_def decl_location_def)
  moreover have "declared_answer f ''/echo/x'' ?d = Echo" for f
    by (simp add: declared_answer_def declared_type_def decl_handler_def)
  ultimately show ?thesis
    using s requests_routed_as_declared [OF s reach_start conf parse t m, of "\<lambda>_. ''OK''" sample_peer]
    by (intro exI [of _ s]) metis
qed

text \<open>A configuration that declares a location twice is refused: \<open>main\<close> returns 1.\<close>

lemma main_refuses_duplicate:
  assumes "Parse (open_stream contents) = Inr (True, c)" and "args_ok argv"
    and "disk mach (argv ! 1) = Some contents"
    and "\<not> distinct (map decl_location (server_lines ''location'' c))"
  shows "\<nexists>reg s out. main_program mach argv fs i = (Running reg s, out)"
proof
  assume "\<exists>reg s out. main_program mach argv fs i = (Running reg s, out)"
  then obtain reg s out where "main_program mach argv fs i = (Running reg s, out)" by blast
  then show False
  proof (rule main_program_Running)
    fix contents' c' i'
    assume "disk mach (argv ! 1) = Some contents'" "Parse (open_stream contents') = Inr (True, c')"
      "setServerPaths c' i = (None, i')"
    then show False using assms setServerPaths_scan [of c' i i'] by (auto simp: scan_spec_def)
  qed
qed

section \<open>The files\<close>

text \<open>
  If the files that \<open>main\<close> finds form a tree (the root is a directory, and so is the parent of
  every file and directory), they form a tree in every state the server can reach.
\<close>

lemma files_stay_a_tree:
  assumes "main_program mach argv fs i = (Running reg s, out)" and "threaded_reachable reg reason s ts"
    and "tree_ok fs"
  shows "tree_ok (files (server_world (server ts)))"
  using running_state [OF assms(1,2)] assms(3) by blast

text \<open>
  C5: The data directories confine what clients change. Take a server that \<open>main\<close> started, with the
  data paths of its CRUD locations leading to the directories \<open>Ds\<close>. If the name and the identifier in
  the path of every POST, PUT and DELETE it has read have no component of two dots (and the name is
  no dot), then in every state, however the threads interleave, everything outside these
  directories is as \<open>main\<close> found it, except the file \<open>temp\<close> of the working directory.
\<close>

theorem files_confined:
  assumes "main_program mach argv fs i = (Running reg s, out)" and "threaded_reachable reg reason s ts"
    and "dirs_ok (getServerPaths (interp (server_world s))) Ds fs"
    and "\<forall>c \<in> set (connections (server ts)). \<forall>req \<in> set (reads c). writes_safely (interp (server_world s)) req"
  shows "confined Ds fs (files (server_world (server ts)))"
proof -
  have s: "reg = server_registry (remote mach)" "files (server_world s) = fs"
    using running_state [OF assms(1,2)] by simp_all
  have "data_inv (interp (server_world s)) Ds (server_world s)" using assms(3) s(2) by (simp add: data_inv_def)
  from confinement.kept_reachable [OF assms(2) [unfolded s(1)] _ this] assms(4) s(2) show ?thesis
    by (simp add: all_reads_def files_kept_def kept_def)
qed

text \<open>The demo configuration, started in \<open>/bin\<close> beside the data directory, and one POST.\<close>

definition demo_files :: filesystem where
  "demo_files = \<lparr>nodes = [([], Directory), ([''bin''], Directory), ([''data''], Directory)], cwd = [''bin''],
     unreadable = (\<lambda>_. False), unwritable = (\<lambda>_. False), dir_end = - 1\<rparr>"

lemma demo_served:
  "\<exists>(s :: server_state) (ts :: threaded_server). main_program demo_machine demo_argv demo_files new_interpreter
      = (Running (server_registry echo_services) s, [])
    \<and> getServerPaths (interp (server_world s)) = getServerPaths demo_interpreter
    \<and> threaded_reachable (server_registry echo_services) (\<lambda>_. []) s ts
    \<and> map reads (connections (server ts)) = [[crud_request Post ''/api/Shoes'' ''red'']]"
proof -
  let ?reg = "server_registry echo_services" and ?req = "crud_request Post ''/api/Shoes'' ''red''"
  obtain s where s: "main_program demo_machine demo_argv demo_files new_interpreter = (Running ?reg s, [])"
    and i: "interp (server_world s) = demo_interpreter"
    using demo_runs demo_port demo_parses
    by (simp add: main_program_def demo_machine_def demo_argv_def args_ok_def Parse_file_def new_server_def
        start_accept_def)
  define u where "u = handle_accept new_connection None ((run_threads s)\<lparr>pending_accept := None\<rparr>)"
  define t where "t = read_completes ?reg (\<lambda>_. []) 0 ?req False sample_peer u"
  have u: "server_step ?reg (\<lambda>_. []) (run_threads s) u"
    unfolding u_def using running_serves [OF s] by (intro step_accept)
  have "serving u" "outstanding Reading 0 u"
    using running_serves [OF s] by (simp_all add: u_def serving_def)
  then have "server_step ?reg (\<lambda>_. []) u t" unfolding t_def by (rule step_read)
  then have "threaded_reachable ?reg (\<lambda>_. []) s (single t)"
    by (rule reachable_steps [OF reachable_steps [OF reach_start server_step_threaded [OF u]] server_step_threaded])
  moreover have "map reads (connections t) = [[?req]]"
    using running_serves [OF s]
    by (simp add: t_def u_def read_completes_eq Let_def new_connection_def connection.defs session.defs
        new_session_def prod.case_eq_if sum.case_eq_if)
  ultimately show ?thesis using s i by (intro exI [of _ s] exI [of _ "single t"]) (simp add: single_def)
qed

lemma demo_dirs: "dirs_ok (getServerPaths demo_interpreter) {[''data'']} demo_files"
proof -
  have "crud_paths (getServerPaths (snd (setServerPaths demo_config new_interpreter))) = [(''/api'', ''../data'')]"
    by (simp add: getServerPaths_def demo_config_def new_interpreter_def paths_eval)
  then have "data_paths (getServerPaths demo_interpreter) = {''../data''}"
    by (simp add: data_paths_def demo_interpreter_def)
  moreover have "locate demo_files ''../data'' = Some [''data'']" "is_dir demo_files [''data'']"
    "stations (start_dir demo_files ''../data'') (split_slash ''../data'') = [[''bin''], []]"
    "temp_path demo_files = [''bin'', ''temp'']" "\<not> is_dir demo_files [''bin'', ''temp'']"
    by code_simp+
  ultimately show ?thesis by (simp add: dirs_ok_def outside_def)
qed

theorem files_confined_witness:
  "\<exists>ts :: threaded_server. map reads (connections (server ts)) = [[crud_request Post ''/api/Shoes'' ''red'']]
    \<and> confined {[''data'']} demo_files (files (server_world (server ts)))"
proof -
  obtain s :: server_state and ts :: threaded_server where s: "main_program demo_machine demo_argv demo_files new_interpreter
        = (Running (server_registry echo_services) s, [])"
      "threaded_reachable (server_registry echo_services) (\<lambda>_. []) s ts"
      "getServerPaths (interp (server_world s)) = getServerPaths demo_interpreter"
    and reads: "map reads (connections (server ts)) = [[crud_request Post ''/api/Shoes'' ''red'']]"
    using demo_served by (elim exE conjE) (rule that)
  have "writes_safely cfg (crud_request Post ''/api/Shoes'' ''red'')" for cfg
    by (rule dotless_writes_safely) (simp add: crud_request_def get_request_def)
  then have "\<forall>c \<in> set (connections (server ts)). \<forall>req \<in> set (reads c).
      writes_safely (interp (server_world s)) req"
    using reads by auto
  with files_confined [OF s(1,2)] demo_dirs s(3) reads show ?thesis by metis
qed

end
